theory Spec2Isabelle
  imports Main "HOL-Library.Word" "HOL-Library.Multiset"
begin

unbundle bit_operations_syntax

section \<open>The concurrent GC-aware hash table of mono-conc-hash.c\<close>

text \<open>
  A shallow embedding of \<^verbatim>\<open>src/mono/metadata/mono-conc-hash.c\<close> as it runs with one
  mutator and no concurrent reader: memory barriers and hazard pointers are no-ops, a
  write barrier is a store. Pointers are 64-bit words (the repository targets amd64),
  \<^verbatim>\<open>guint\<close> hash codes are 32-bit words, and the \<^verbatim>\<open>int\<close> fields are integers whose
  wrap-around is written out with \<open>int32\<close>.
\<close>

subsection \<open>Data model\<close>

type_synonym gpointer = "64 word"
type_synonym guint = "32 word"

definition INITIAL_SIZE :: int where
  "INITIAL_SIZE = 32"

definition EXPAND_RATIO :: int where
  "EXPAND_RATIO = 2"

text \<open>\<^verbatim>\<open>#define PTR_TOMBSTONE ((gpointer)(ssize_t)-1)\<close>\<close>

definition PTR_TOMBSTONE :: gpointer where
  "PTR_TOMBSTONE = - 1"

text \<open>
  Modelled from the spec: the enumeration \<^verbatim>\<open>MonoGHashGCType\<close> is declared in a header
  that is not part of the sources. The spec names four modes (none, key is a reference,
  value is a reference, both); the code tests the key and value bits with \<^verbatim>\<open>&\<close> and
  rejects everything above \<^verbatim>\<open>MONO_HASH_KEY_VALUE_GC\<close>, so the modes are numbered 0 to 3
  with bit 0 for keys and bit 1 for values. The enumeration has no negative member, so a
  value of it is read as an unsigned 32-bit word.
\<close>

type_synonym MonoGHashGCType = "32 word"

definition MONO_HASH_CONSERVATIVE_GC :: MonoGHashGCType where
  "MONO_HASH_CONSERVATIVE_GC = 0"

definition MONO_HASH_KEY_GC :: MonoGHashGCType where
  "MONO_HASH_KEY_GC = 1"

definition MONO_HASH_VALUE_GC :: MonoGHashGCType where
  "MONO_HASH_VALUE_GC = 2"

definition MONO_HASH_KEY_VALUE_GC :: MonoGHashGCType where
  "MONO_HASH_KEY_VALUE_GC = 3"

text \<open>\<^verbatim>\<open>conc_table\<close>: one generation. \<open>vals\<close> is the array \<^verbatim>\<open>values\<close>.\<close>

record conc_table =
  table_size :: int
  table_gc_type :: MonoGHashGCType
  keys :: "gpointer list"
  vals :: "gpointer list"

text \<open>
  A destroy callback is foreign code; the model records whether the function pointer is
  set and logs every call in \<open>destroy_calls\<close> (most recent last).
\<close>

datatype destroy_call = KeyDestroyed gpointer | ValueDestroyed gpointer

text \<open>
  \<^verbatim>\<open>struct _MonoConcGHashTable\<close>. A NULL \<^verbatim>\<open>equal_func\<close> is \<open>None\<close>. The fields
  \<^verbatim>\<open>source\<close> and \<^verbatim>\<open>msg\<close> only label the collector's roots and are left out.
\<close>

record MonoConcGHashTable =
  table :: conc_table
  hash_func :: "gpointer \<Rightarrow> guint"
  equal_func :: "(gpointer \<Rightarrow> gpointer \<Rightarrow> bool) option"
  element_count :: int
  overflow_count :: int
  key_destroy_func :: bool
  value_destroy_func :: bool
  gc_type :: MonoGHashGCType
  destroy_calls :: "destroy_call list"

text \<open>
  Fatal outcomes: \<^verbatim>\<open>g_assert\<close> and \<^verbatim>\<open>g_error\<close> abort the process on a usage violation,
  \<^verbatim>\<open>g_new0\<close> aborts when the array cannot be allocated.
\<close>

datatype error = UsageViolation | AllocationFailure

subsection \<open>Machine arithmetic\<close>

text \<open>A mathematical integer read back as a C \<^verbatim>\<open>int\<close> (two's complement, 32 bits).\<close>

definition int32 :: "int \<Rightarrow> int" where
  "int32 x = (x + 2147483648) mod 4294967296 - 2147483648"

text \<open>
  \<^verbatim>\<open>(int)(size * LOAD_FACTOR)\<close> with \<^verbatim>\<open>LOAD_FACTOR\<close> = 0.75f. The table sizes of this
  program are 32 doubled some number of times, at most \<open>2 ^ 30\<close>; for these the float
  product is exact and equals three quarters of the size.
\<close>

definition load_threshold :: "int \<Rightarrow> int" where
  "load_threshold sz = (sz * 3) div 4"

text \<open>
  \<^verbatim>\<open>mix_hash\<close>: \<^verbatim>\<open>((hash * 215497) >> 16) ^ (hash * 1823231 + hash)\<close> on a signed 32-bit
  \<^verbatim>\<open>int\<close>; the products wrap and \<^verbatim>\<open>>>\<close> is the arithmetic shift.
\<close>

definition mix_hash :: "32 word \<Rightarrow> 32 word" where
  "mix_hash hash = signed_drop_bit 16 (hash * 215497) XOR (hash * 1823231 + hash)"

text \<open>\<^verbatim>\<open>hash & table_mask\<close> with \<^verbatim>\<open>table_mask = table->table_size - 1\<close>, on \<^verbatim>\<open>int\<close>.\<close>

definition slot_index :: "32 word \<Rightarrow> int \<Rightarrow> nat" where
  "slot_index hash sz = nat (sint hash AND (sz - 1))"

text \<open>\<^verbatim>\<open>i = (i + 1) & table_mask\<close>\<close>

definition next_slot :: "nat \<Rightarrow> int \<Rightarrow> nat" where
  "next_slot i sz = nat ((int i + 1) AND (sz - 1))"

text \<open>
  \<^verbatim>\<open>g_direct_hash\<close> of GLib: the pointer converted to \<^verbatim>\<open>guint\<close>, that is its low 32 bits.
\<close>

definition g_direct_hash :: "gpointer \<Rightarrow> guint" where
  "g_direct_hash p = ucast p"

subsection \<open>Generations\<close>

text \<open>
  \<^verbatim>\<open>conc_table_new\<close>: both arrays zeroed by \<^verbatim>\<open>g_new0\<close>, the mode copied from the handle.
  A size that is not positive (the doubling of \<open>2 ^ 30\<close> wrapped) cannot be allocated.
\<close>

definition conc_table_new :: "MonoConcGHashTable \<Rightarrow> int \<Rightarrow> error + conc_table" where
  "conc_table_new hash sz =
     (if sz \<le> 0 then Inl AllocationFailure
      else Inr \<lparr> table_size = sz, table_gc_type = gc_type hash,
                 keys = replicate (nat sz) 0, vals = replicate (nat sz) 0 \<rparr>)"

text \<open>
  \<^verbatim>\<open>key_is_tombstone\<close>; \<open>eph\<close> is \<^verbatim>\<open>mono_domain_get()->ephemeron_tombstone\<close>, the
  domain's tombstone object.
\<close>

definition key_is_tombstone :: "gpointer \<Rightarrow> MonoConcGHashTable \<Rightarrow> gpointer \<Rightarrow> bool" where
  "key_is_tombstone eph hash p =
     (if gc_type hash AND MONO_HASH_KEY_GC \<noteq> 0 then p = eph else p = PTR_TOMBSTONE)"

text \<open>\<^verbatim>\<open>mono_gc_wbarrier_generic_store\<close> stores the value and tells the collector.\<close>

definition set_key :: "conc_table \<Rightarrow> nat \<Rightarrow> gpointer \<Rightarrow> conc_table" where
  "set_key t slot key =
     (if table_gc_type t AND MONO_HASH_KEY_GC \<noteq> 0 then t \<lparr> keys := (keys t)[slot := key] \<rparr>
      else t \<lparr> keys := (keys t)[slot := key] \<rparr>)"

definition set_key_to_tombstone :: "gpointer \<Rightarrow> conc_table \<Rightarrow> nat \<Rightarrow> conc_table" where
  "set_key_to_tombstone eph t slot =
     (if table_gc_type t AND MONO_HASH_KEY_GC \<noteq> 0 then t \<lparr> keys := (keys t)[slot := eph] \<rparr>
      else t \<lparr> keys := (keys t)[slot := PTR_TOMBSTONE] \<rparr>)"

definition set_value :: "conc_table \<Rightarrow> nat \<Rightarrow> gpointer \<Rightarrow> conc_table" where
  "set_value t slot v =
     (if table_gc_type t AND MONO_HASH_VALUE_GC \<noteq> 0 then t \<lparr> vals := (vals t)[slot := v] \<rparr>
      else t \<lparr> vals := (vals t)[slot := v] \<rparr>)"

subsection \<open>Resize\<close>

text \<open>The loop of \<^verbatim>\<open>insert_one_local\<close>: \<^verbatim>\<open>while (table->keys [i]) i = (i + 1) & table_mask;\<close>\<close>

partial_function (option) probe_empty :: "conc_table \<Rightarrow> nat \<Rightarrow> nat option" where
  "probe_empty t i =
     (if keys t ! i \<noteq> 0 then probe_empty t (next_slot i (table_size t)) else Some i)"

definition insert_one_local ::
  "conc_table \<Rightarrow> (gpointer \<Rightarrow> guint) \<Rightarrow> gpointer \<Rightarrow> gpointer \<Rightarrow> conc_table option" where
  "insert_one_local t hf key v =
     (case probe_empty t (slot_index (mix_hash (hf key)) (table_size t)) of
        None \<Rightarrow> None
      | Some i \<Rightarrow> Some (set_value (set_key t i key) i v))"

text \<open>
  The \<^verbatim>\<open>for\<close> loop of \<^verbatim>\<open>expand_table\<close> over the slots of the old generation, given as
  the list of the indices still to visit.
\<close>

fun rehash_slots ::
  "gpointer \<Rightarrow> MonoConcGHashTable \<Rightarrow> conc_table \<Rightarrow> nat list \<Rightarrow> conc_table \<Rightarrow> conc_table option"
where
  "rehash_slots eph hash old [] new = Some new"
| "rehash_slots eph hash old (i # rest) new =
     (if keys old ! i \<noteq> 0 \<and> \<not> key_is_tombstone eph hash (keys old ! i)
      then (case insert_one_local new (hash_func hash) (keys old ! i) (vals old ! i) of
              None \<Rightarrow> None
            | Some new' \<Rightarrow> rehash_slots eph hash old rest new')
      else rehash_slots eph hash old rest new)"

definition expand_table ::
  "gpointer \<Rightarrow> MonoConcGHashTable \<Rightarrow> (error + MonoConcGHashTable) option" where
  "expand_table eph hash_table =
     (let old_table = table hash_table in
      case conc_table_new hash_table (int32 (table_size old_table * EXPAND_RATIO)) of
        Inl e \<Rightarrow> Some (Inl e)
      | Inr new_table \<Rightarrow>
          (case rehash_slots eph hash_table old_table [0 ..< nat (table_size old_table)] new_table of
             None \<Rightarrow> None
           | Some new_table' \<Rightarrow>
               Some (Inr (hash_table \<lparr> table := new_table',
                                       overflow_count := load_threshold (table_size new_table') \<rparr>))))"

subsection \<open>Construction\<close>

text \<open>
  \<^verbatim>\<open>mono_conc_g_hash_table_new_type\<close>. The first generation is allocated while the
  handle's \<^verbatim>\<open>gc_type\<close> is still the zero of \<^verbatim>\<open>g_new0\<close>; the mode is stored afterwards
  and checked last.
\<close>

definition mono_conc_g_hash_table_new_type ::
  "(gpointer \<Rightarrow> guint) option \<Rightarrow> (gpointer \<Rightarrow> gpointer \<Rightarrow> bool) option \<Rightarrow> MonoGHashGCType
     \<Rightarrow> error + MonoConcGHashTable" where
  "mono_conc_g_hash_table_new_type hash_func_arg key_equal_func type =
     (let hf = (case hash_func_arg of None \<Rightarrow> g_direct_hash | Some f \<Rightarrow> f);
          hash0 = \<lparr> table = \<lparr> table_size = 0, table_gc_type = 0, keys = [], vals = [] \<rparr>,
                    hash_func = hf, equal_func = key_equal_func,
                    element_count = 0, overflow_count = 0,
                    key_destroy_func = False, value_destroy_func = False,
                    gc_type = 0, destroy_calls = [] \<rparr>
      in case conc_table_new hash0 INITIAL_SIZE of
           Inl e \<Rightarrow> Inl e
         | Inr t \<Rightarrow>
             (let hash = hash0 \<lparr> table := t, element_count := 0,
                                 overflow_count := load_threshold INITIAL_SIZE,
                                 gc_type := type \<rparr>
              in if type > MONO_HASH_KEY_VALUE_GC then Inl UsageViolation else Inr hash))"

subsection \<open>Lookup\<close>

text \<open>
  \<^verbatim>\<open>mono_conc_g_hash_table_lookup_extended\<close> returns the flag and the two out-parameters.
  The function below is one round of its probe loop at slot \<open>i\<close>; the source writes the
  loop twice, once for tables without an equality function and once for tables with
  one, and the two bodies are the two branches here. \<^verbatim>\<open>goto retry\<close> starts again from
  the home slot of \<open>hash\<close>. With no concurrent resize the test
  \<^verbatim>\<open>hash_table->table != table\<close> after the loop is false.
\<close>

partial_function (option) lookup_probe ::
  "gpointer \<Rightarrow> MonoConcGHashTable \<Rightarrow> gpointer \<Rightarrow> 32 word \<Rightarrow> nat
     \<Rightarrow> (bool \<times> gpointer \<times> gpointer) option" where
  "lookup_probe eph hash_table key hash i =
     (case equal_func hash_table of
        None \<Rightarrow>
          (if keys (table hash_table) ! i \<noteq> 0 then
             (if key = keys (table hash_table) ! i then
                (if vals (table hash_table) ! i = 0
                 then lookup_probe eph hash_table key hash
                        (slot_index hash (table_size (table hash_table)))
                 else Some (True, keys (table hash_table) ! i, vals (table hash_table) ! i))
              else lookup_probe eph hash_table key hash
                     (next_slot i (table_size (table hash_table))))
           else Some (False, 0, 0))
      | Some equal \<Rightarrow>
          (if keys (table hash_table) ! i \<noteq> 0 then
             (if \<not> key_is_tombstone eph hash_table (keys (table hash_table) ! i)
                 \<and> equal key (keys (table hash_table) ! i) then
                (if vals (table hash_table) ! i = 0
                 then lookup_probe eph hash_table key hash
                        (slot_index hash (table_size (table hash_table)))
                 else Some (True, keys (table hash_table) ! i, vals (table hash_table) ! i))
              else lookup_probe eph hash_table key hash
                     (next_slot i (table_size (table hash_table))))
           else Some (False, 0, 0)))"

definition mono_conc_g_hash_table_lookup_extended ::
  "gpointer \<Rightarrow> MonoConcGHashTable \<Rightarrow> gpointer \<Rightarrow> (bool \<times> gpointer \<times> gpointer) option" where
  "mono_conc_g_hash_table_lookup_extended eph hash_table key =
     lookup_probe eph hash_table key (mix_hash (hash_func hash_table key))
       (slot_index (mix_hash (hash_func hash_table key)) (table_size (table hash_table)))"

definition mono_conc_g_hash_table_lookup ::
  "gpointer \<Rightarrow> MonoConcGHashTable \<Rightarrow> gpointer \<Rightarrow> gpointer option" where
  "mono_conc_g_hash_table_lookup eph hash key =
     (case mono_conc_g_hash_table_lookup_extended eph hash key of
        None \<Rightarrow> None
      | Some (found, orig_key, v) \<Rightarrow> Some (if found then v else 0))"

subsection \<open>Insert\<close>

text \<open>
  One round of the \<^verbatim>\<open>for (;;)\<close> loop of \<^verbatim>\<open>mono_conc_g_hash_table_insert\<close> at slot \<open>i\<close>,
  the two branches again being the two copies of the loop. The result is the returned
  pointer and the handle after the call.
\<close>

partial_function (option) insert_probe ::
  "gpointer \<Rightarrow> MonoConcGHashTable \<Rightarrow> gpointer \<Rightarrow> gpointer \<Rightarrow> nat
     \<Rightarrow> (gpointer \<times> MonoConcGHashTable) option" where
  "insert_probe eph hash_table key v i =
     (case equal_func hash_table of
        None \<Rightarrow>
          (if keys (table hash_table) ! i = 0
              \<or> key_is_tombstone eph hash_table (keys (table hash_table) ! i)
           then Some (0, hash_table
                  \<lparr> table := set_key (set_value (table hash_table) i v) i key,
                    element_count := int32 (element_count hash_table + 1) \<rparr>)
           else if key = keys (table hash_table) ! i
           then Some (vals (table hash_table) ! i, hash_table)
           else insert_probe eph hash_table key v (next_slot i (table_size (table hash_table))))
      | Some equal \<Rightarrow>
          (if keys (table hash_table) ! i = 0
              \<or> key_is_tombstone eph hash_table (keys (table hash_table) ! i)
           then Some (0, hash_table
                  \<lparr> table := set_key (set_value (table hash_table) i v) i key,
                    element_count := int32 (element_count hash_table + 1) \<rparr>)
           else if equal key (keys (table hash_table) ! i)
           then Some (vals (table hash_table) ! i, hash_table)
           else insert_probe eph hash_table key v (next_slot i (table_size (table hash_table)))))"

definition mono_conc_g_hash_table_insert ::
  "gpointer \<Rightarrow> MonoConcGHashTable \<Rightarrow> gpointer \<Rightarrow> gpointer
     \<Rightarrow> (error + gpointer \<times> MonoConcGHashTable) option" where
  "mono_conc_g_hash_table_insert eph hash_table key v =
     (if key = 0 then Some (Inl UsageViolation)
      else if v = 0 then Some (Inl UsageViolation)
      else
        (case (if element_count hash_table \<ge> overflow_count hash_table
               then expand_table eph hash_table else Some (Inr hash_table)) of
           None \<Rightarrow> None
         | Some (Inl e) \<Rightarrow> Some (Inl e)
         | Some (Inr hash_table') \<Rightarrow>
             (case insert_probe eph hash_table' key v
                     (slot_index (mix_hash (hash_func hash_table key))
                        (table_size (table hash_table'))) of
                None \<Rightarrow> None
              | Some r \<Rightarrow> Some (Inr r))))"

subsection \<open>Remove\<close>

text \<open>
  The destroy callbacks run after the slot is overwritten: the key's first, then the
  value's.
\<close>

definition run_destroy ::
  "MonoConcGHashTable \<Rightarrow> gpointer \<Rightarrow> gpointer \<Rightarrow> destroy_call list" where
  "run_destroy hash_table cur_key v =
     destroy_calls hash_table
       @ (if key_destroy_func hash_table then [KeyDestroyed cur_key] else [])
       @ (if value_destroy_func hash_table then [ValueDestroyed v] else [])"

text \<open>
  One round of the \<^verbatim>\<open>for (;;)\<close> loop of \<^verbatim>\<open>mono_conc_g_hash_table_remove\<close>. Only the
  first copy of the loop has the statement \<^verbatim>\<open>--hash_table->element_count\<close>.
\<close>

partial_function (option) remove_probe ::
  "gpointer \<Rightarrow> MonoConcGHashTable \<Rightarrow> gpointer \<Rightarrow> nat
     \<Rightarrow> (gpointer \<times> MonoConcGHashTable) option" where
  "remove_probe eph hash_table key i =
     (case equal_func hash_table of
        None \<Rightarrow>
          (if keys (table hash_table) ! i = 0 then Some (0, hash_table)
           else if key = keys (table hash_table) ! i
           then Some (vals (table hash_table) ! i, hash_table
                  \<lparr> table := set_key_to_tombstone eph
                       ((table hash_table) \<lparr> vals := (vals (table hash_table))[i := 0] \<rparr>) i,
                    element_count := int32 (element_count hash_table - 1),
                    destroy_calls := run_destroy hash_table (keys (table hash_table) ! i)
                                       (vals (table hash_table) ! i) \<rparr>)
           else remove_probe eph hash_table key (next_slot i (table_size (table hash_table))))
      | Some equal \<Rightarrow>
          (if keys (table hash_table) ! i = 0 then Some (0, hash_table)
           else if \<not> key_is_tombstone eph hash_table (keys (table hash_table) ! i)
                   \<and> equal key (keys (table hash_table) ! i)
           then Some (vals (table hash_table) ! i, hash_table
                  \<lparr> table := set_key_to_tombstone eph
                       ((table hash_table) \<lparr> vals := (vals (table hash_table))[i := 0] \<rparr>) i,
                    destroy_calls := run_destroy hash_table (keys (table hash_table) ! i)
                                       (vals (table hash_table) ! i) \<rparr>)
           else remove_probe eph hash_table key (next_slot i (table_size (table hash_table)))))"

definition mono_conc_g_hash_table_remove ::
  "gpointer \<Rightarrow> MonoConcGHashTable \<Rightarrow> gpointer
     \<Rightarrow> (error + gpointer \<times> MonoConcGHashTable) option" where
  "mono_conc_g_hash_table_remove eph hash_table key =
     (if key = 0 then Some (Inl UsageViolation)
      else
        (case remove_probe eph hash_table key
                (slot_index (mix_hash (hash_func hash_table key))
                   (table_size (table hash_table))) of
           None \<Rightarrow> None
         | Some r \<Rightarrow> Some (Inr r)))"

subsection \<open>Sequences of calls and reachable handles\<close>

datatype table_op = Insert gpointer gpointer | Remove gpointer

fun apply_op ::
  "gpointer \<Rightarrow> MonoConcGHashTable \<Rightarrow> table_op \<Rightarrow> (error + gpointer \<times> MonoConcGHashTable) option"
where
  "apply_op eph h (Insert k v) = mono_conc_g_hash_table_insert eph h k v"
| "apply_op eph h (Remove k) = mono_conc_g_hash_table_remove eph h k"

text \<open>
  The returned pointers and the handle after a sequence of calls that all return;
  \<open>None\<close> when one of them aborts or does not return.
\<close>

fun run_ops ::
  "gpointer \<Rightarrow> MonoConcGHashTable \<Rightarrow> table_op list \<Rightarrow> (gpointer list \<times> MonoConcGHashTable) option"
where
  "run_ops eph h [] = Some ([], h)"
| "run_ops eph h (x # xs) =
     (case apply_op eph h x of
        None \<Rightarrow> None
      | Some (Inl e) \<Rightarrow> None
      | Some (Inr (r, h')) \<Rightarrow>
          (case run_ops eph h' xs of
             None \<Rightarrow> None
           | Some (rs, h'') \<Rightarrow> Some (r # rs, h'')))"

text \<open>The same on a table fresh from the constructor.\<close>

definition run_new ::
  "gpointer \<Rightarrow> (gpointer \<Rightarrow> guint) option \<Rightarrow> (gpointer \<Rightarrow> gpointer \<Rightarrow> bool) option
     \<Rightarrow> MonoGHashGCType \<Rightarrow> table_op list \<Rightarrow> (gpointer list \<times> MonoConcGHashTable) option" where
  "run_new eph hf ef ty ops =
     (case mono_conc_g_hash_table_new_type hf ef ty of
        Inl e \<Rightarrow> None
      | Inr h \<Rightarrow> run_ops eph h ops)"

text \<open>\<open>evolves eph h h'\<close>: some sequence of returning inserts and removes leads from \<open>h\<close> to \<open>h'\<close>.\<close>

inductive evolves :: "gpointer \<Rightarrow> MonoConcGHashTable \<Rightarrow> MonoConcGHashTable \<Rightarrow> bool"
  for eph h where
  evolves_refl: "evolves eph h h"
| evolves_insert:
    "evolves eph h h1 \<Longrightarrow> mono_conc_g_hash_table_insert eph h1 k v = Some (Inr (r, h2))
       \<Longrightarrow> evolves eph h h2"
| evolves_remove:
    "evolves eph h h1 \<Longrightarrow> mono_conc_g_hash_table_remove eph h1 k = Some (Inr (r, h2))
       \<Longrightarrow> evolves eph h h2"

text \<open>The handles a caller can hold: built by the constructor, then used.\<close>

definition reachable :: "gpointer \<Rightarrow> MonoConcGHashTable \<Rightarrow> bool" where
  "reachable eph h \<longleftrightarrow>
     (\<exists>hf ef ty h0. mono_conc_g_hash_table_new_type hf ef ty = Inr h0 \<and> evolves eph h0 h)"

subsection \<open>Slot states and invariants\<close>

text \<open>A key cell that insert may take: empty, or a tombstone in the eyes of the handle.\<close>

definition slot_free :: "gpointer \<Rightarrow> MonoConcGHashTable \<Rightarrow> gpointer \<Rightarrow> bool" where
  "slot_free eph h ck \<longleftrightarrow> ck = 0 \<or> key_is_tombstone eph h ck"

text \<open>The comparison of lookup and remove between the key asked for and a stored key.\<close>

definition lookup_match :: "gpointer \<Rightarrow> MonoConcGHashTable \<Rightarrow> gpointer \<Rightarrow> gpointer \<Rightarrow> bool" where
  "lookup_match eph h key ck =
     (case equal_func h of
        None \<Rightarrow> key = ck
      | Some equal \<Rightarrow> \<not> key_is_tombstone eph h ck \<and> equal key ck)"

text \<open>The comparison of insert, made on cells that are not free.\<close>

definition insert_match :: "MonoConcGHashTable \<Rightarrow> gpointer \<Rightarrow> gpointer \<Rightarrow> bool" where
  "insert_match h key ck =
     (case equal_func h of None \<Rightarrow> key = ck | Some equal \<Rightarrow> equal key ck)"

text \<open>A generation of capacity \<open>2 ^ n\<close> with both arrays of that length.\<close>

definition table_ok :: "nat \<Rightarrow> conc_table \<Rightarrow> bool" where
  "table_ok n t \<longleftrightarrow>
     table_size t = 2 ^ n \<and> length (keys t) = 2 ^ n \<and> length (vals t) = 2 ^ n"

text \<open>The number of live (occupied) slots of the current generation.\<close>

definition live_count :: "gpointer \<Rightarrow> MonoConcGHashTable \<Rightarrow> nat" where
  "live_count eph h = length (filter (\<lambda>ck. \<not> slot_free eph h ck) (keys (table h)))"

text \<open>The key is stored in a live slot, as insert compares keys.\<close>

definition present :: "gpointer \<Rightarrow> MonoConcGHashTable \<Rightarrow> gpointer \<Rightarrow> bool" where
  "present eph h key \<longleftrightarrow>
     list_ex (\<lambda>ck. \<not> slot_free eph h ck \<and> insert_match h key ck) (keys (table h))"

text \<open>The slot invariant: a value cell is null exactly when the slot is empty or a tombstone.\<close>

definition slot_inv :: "gpointer \<Rightarrow> MonoConcGHashTable \<Rightarrow> bool" where
  "slot_inv eph h \<longleftrightarrow>
     list_all2 (\<lambda>ck v. (v = 0) = slot_free eph h ck) (keys (table h)) (vals (table h))"

text \<open>
  The handle and its current generation agree on whether keys are tracked, hence on the
  tombstone marker that remove writes and the other operations recognise.
\<close>

definition modes_agree :: "MonoConcGHashTable \<Rightarrow> bool" where
  "modes_agree h \<longleftrightarrow>
     (table_gc_type (table h) AND MONO_HASH_KEY_GC \<noteq> 0) = (gc_type h AND MONO_HASH_KEY_GC \<noteq> 0)"


subsection \<open>What an operation leaves alone\<close>

definition same_config :: "MonoConcGHashTable \<Rightarrow> MonoConcGHashTable \<Rightarrow> bool" where
  "same_config h h' \<longleftrightarrow>
     hash_func h' = hash_func h \<and> equal_func h' = equal_func h \<and> gc_type h' = gc_type h
     \<and> key_destroy_func h' = key_destroy_func h \<and> value_destroy_func h' = value_destroy_func h"

definition same_shape :: "conc_table \<Rightarrow> conc_table \<Rightarrow> bool" where
  "same_shape t t' \<longleftrightarrow>
     table_size t' = table_size t \<and> table_gc_type t' = table_gc_type t
     \<and> length (keys t') = length (keys t) \<and> length (vals t') = length (vals t)"

definition frame :: "MonoConcGHashTable \<Rightarrow> MonoConcGHashTable \<Rightarrow> bool" where
  "frame h h' \<longleftrightarrow> same_config h h' \<and> same_shape (table h) (table h')
     \<and> overflow_count h' = overflow_count h"

text \<open>
  The capacity invariant: the capacity is \<open>2 ^ n\<close> with \<open>n\<close> from 5 (the initial 32) to 30
  (the largest power of two of an \<^verbatim>\<open>int\<close>), and the threshold is three quarters of it.
\<close>

definition capacity_ok :: "nat \<Rightarrow> MonoConcGHashTable \<Rightarrow> bool" where
  "capacity_ok n h \<longleftrightarrow> 5 \<le> n \<and> n \<le> 30 \<and> table_ok n (table h)
     \<and> overflow_count h = load_threshold (2 ^ n)"

text \<open>
  The mixing function in the words of the specification, on integers with the 32-bit
  wrap-around written out: \<open>((h * 215497) >> 16) XOR (h * 1823231 + h)\<close>.
\<close>

definition mix_spec :: "int \<Rightarrow> int" where
  "mix_spec h = drop_bit 16 (int32 (h * 215497)) XOR int32 (int32 (h * 1823231) + h)"

subsection \<open>Concrete tables\<close>

text \<open>
  Handles that the call sequences of the theorems below produce, with direct hashing.
  The domain's tombstone object is taken to be at address 99.
\<close>

text \<open>After \<^verbatim>\<open>insert(1, 7); remove(1)\<close> on a table with an equality function.\<close>

definition h_eq_removed :: MonoConcGHashTable where
  "h_eq_removed =
     \<lparr> table = \<lparr> table_size = 32, table_gc_type = 0,
                 keys = [0, 0, 0, - 1, 0, 0, 0, 0, 0, 0, 0, 0, 0, 0, 0, 0,
                         0, 0, 0, 0, 0, 0, 0, 0, 0, 0, 0, 0, 0, 0, 0, 0],
                 vals = [0, 0, 0, 0, 0, 0, 0, 0, 0, 0, 0, 0, 0, 0, 0, 0,
                         0, 0, 0, 0, 0, 0, 0, 0, 0, 0, 0, 0, 0, 0, 0, 0] \<rparr>,
       hash_func = g_direct_hash, equal_func = Some (=),
       element_count = 1, overflow_count = 24,
       key_destroy_func = False, value_destroy_func = False,
       gc_type = 0, destroy_calls = [] \<rparr>"

text \<open>The same calls on a table without an equality function.\<close>

definition h_id_removed :: MonoConcGHashTable where
  "h_id_removed =
     \<lparr> table = \<lparr> table_size = 32, table_gc_type = 0,
                 keys = [0, 0, 0, - 1, 0, 0, 0, 0, 0, 0, 0, 0, 0, 0, 0, 0,
                         0, 0, 0, 0, 0, 0, 0, 0, 0, 0, 0, 0, 0, 0, 0, 0],
                 vals = [0, 0, 0, 0, 0, 0, 0, 0, 0, 0, 0, 0, 0, 0, 0, 0,
                         0, 0, 0, 0, 0, 0, 0, 0, 0, 0, 0, 0, 0, 0, 0, 0] \<rparr>,
       hash_func = g_direct_hash, equal_func = None,
       element_count = 0, overflow_count = 24,
       key_destroy_func = False, value_destroy_func = False,
       gc_type = 0, destroy_calls = [] \<rparr>"

text \<open>
  After \<^verbatim>\<open>insert(7, 100); insert(17, 101); remove(7); insert(17, 102)\<close>: keys 7 and 17
  share the home slot 23.
\<close>

definition h_duplicate :: MonoConcGHashTable where
  "h_duplicate =
     \<lparr> table = \<lparr> table_size = 32, table_gc_type = 0,
                 keys = [0, 0, 0, 0, 0, 0, 0, 0, 0, 0, 0, 0, 0, 0, 0, 0,
                         0, 0, 0, 0, 0, 0, 0, 17, 17, 0, 0, 0, 0, 0, 0, 0],
                 vals = [0, 0, 0, 0, 0, 0, 0, 0, 0, 0, 0, 0, 0, 0, 0, 0,
                         0, 0, 0, 0, 0, 0, 0, 102, 101, 0, 0, 0, 0, 0, 0, 0] \<rparr>,
       hash_func = g_direct_hash, equal_func = None,
       element_count = 2, overflow_count = 24,
       key_destroy_func = False, value_destroy_func = False,
       gc_type = 0, destroy_calls = [] \<rparr>"

text \<open>After \<^verbatim>\<open>insert(PTR_TOMBSTONE, 7)\<close>, with and without an equality function.\<close>

definition h_sentinel_equal :: MonoConcGHashTable where
  "h_sentinel_equal =
     \<lparr> table = \<lparr> table_size = 32, table_gc_type = 0,
                 keys = [0, 0, 0, 0, 0, 0, 0, 0, 0, 0, 0, 0, 0, 0, 0, 0,
                         0, 0, 0, 0, 0, 0, 0, 0, 0, 0, 0, 0, - 1, 0, 0, 0],
                 vals = [0, 0, 0, 0, 0, 0, 0, 0, 0, 0, 0, 0, 0, 0, 0, 0,
                         0, 0, 0, 0, 0, 0, 0, 0, 0, 0, 0, 0, 7, 0, 0, 0] \<rparr>,
       hash_func = g_direct_hash, equal_func = Some (=),
       element_count = 1, overflow_count = 24,
       key_destroy_func = False, value_destroy_func = False,
       gc_type = 0, destroy_calls = [] \<rparr>"

definition h_sentinel :: MonoConcGHashTable where
  "h_sentinel =
     \<lparr> table = \<lparr> table_size = 32, table_gc_type = 0,
                 keys = [0, 0, 0, 0, 0, 0, 0, 0, 0, 0, 0, 0, 0, 0, 0, 0,
                         0, 0, 0, 0, 0, 0, 0, 0, 0, 0, 0, 0, - 1, 0, 0, 0],
                 vals = [0, 0, 0, 0, 0, 0, 0, 0, 0, 0, 0, 0, 0, 0, 0, 0,
                         0, 0, 0, 0, 0, 0, 0, 0, 0, 0, 0, 0, 7, 0, 0, 0] \<rparr>,
       hash_func = g_direct_hash, equal_func = None,
       element_count = 1, overflow_count = 24,
       key_destroy_func = False, value_destroy_func = False,
       gc_type = 0, destroy_calls = [] \<rparr>"

text \<open>
  Keys 1 to 37 cover all 32 home slots; inserting and removing each of them in turn
  leaves a tombstone in every slot and no live element.
\<close>

definition saturating_ops :: "table_op list" where
  "saturating_ops = concat (map (\<lambda>k. [Insert (of_nat k) 5, Remove (of_nat k)]) [1 ..< 38])"

definition h_saturated :: MonoConcGHashTable where
  "h_saturated =
     \<lparr> table = \<lparr> table_size = 32, table_gc_type = 0,
                 keys = [- 1, - 1, - 1, - 1, - 1, - 1, - 1, - 1, - 1, - 1, - 1, - 1, - 1, - 1, - 1, - 1,
                         - 1, - 1, - 1, - 1, - 1, - 1, - 1, - 1, - 1, - 1, - 1, - 1, - 1, - 1, - 1, - 1],
                 vals = [0, 0, 0, 0, 0, 0, 0, 0, 0, 0, 0, 0, 0, 0, 0, 0,
                         0, 0, 0, 0, 0, 0, 0, 0, 0, 0, 0, 0, 0, 0, 0, 0] \<rparr>,
       hash_func = g_direct_hash, equal_func = None,
       element_count = 0, overflow_count = 24,
       key_destroy_func = False, value_destroy_func = False,
       gc_type = 0, destroy_calls = [] \<rparr>"

text \<open>After inserting the keys 1 to 24 with values 101 to 124: the threshold is reached.\<close>

definition filling_ops :: "table_op list" where
  "filling_ops = map (\<lambda>k. Insert (of_nat k) (of_nat (100 + k))) [1 ..< 25]"

definition h_full :: MonoConcGHashTable where
  "h_full =
     \<lparr> table = \<lparr> table_size = 32, table_gc_type = 0,
                 keys = [10, 20, 0, 1, 11, 21, 2, 12, 22, 3, 13, 23, 0, 4, 14, 24,
                         5, 15, 0, 6, 16, 0, 0, 7, 17, 0, 8, 18, 0, 9, 19, 0],
                 vals = [110, 120, 0, 101, 111, 121, 102, 112, 122, 103, 113, 123, 0, 104, 114, 124,
                         105, 115, 0, 106, 116, 0, 0, 107, 117, 0, 108, 118, 0, 109, 119, 0] \<rparr>,
       hash_func = g_direct_hash, equal_func = None,
       element_count = 24, overflow_count = 24,
       key_destroy_func = False, value_destroy_func = False,
       gc_type = 0, destroy_calls = [] \<rparr>"

text \<open>After one more \<^verbatim>\<open>insert(25, 125)\<close>, which resizes first.\<close>

definition h_grown :: MonoConcGHashTable where
  "h_grown =
     \<lparr> table = \<lparr> table_size = 64, table_gc_type = 0,
                 keys = [0, 20, 0, 1, 0, 21, 2, 0, 22, 3, 0, 23, 0, 4, 24, 0,
                         5, 0, 25, 6, 0, 0, 0, 7, 0, 0, 8, 0, 0, 9, 0, 0,
                         10, 0, 0, 0, 11, 0, 0, 12, 0, 0, 13, 0, 0, 0, 14, 0,
                         0, 15, 0, 0, 16, 0, 0, 17, 0, 0, 0, 18, 0, 0, 19, 0],
                 vals = [0, 120, 0, 101, 0, 121, 102, 0, 122, 103, 0, 123, 0, 104, 124, 0,
                         105, 0, 125, 106, 0, 0, 0, 107, 0, 0, 108, 0, 0, 109, 0, 0,
                         110, 0, 0, 0, 111, 0, 0, 112, 0, 0, 113, 0, 0, 0, 114, 0,
                         0, 115, 0, 0, 116, 0, 0, 117, 0, 0, 0, 118, 0, 0, 119, 0] \<rparr>,
       hash_func = g_direct_hash, equal_func = None,
       element_count = 25, overflow_count = 48,
       key_destroy_func = False, value_destroy_func = False,
       gc_type = 0, destroy_calls = [] \<rparr>"

subsection \<open>Probe paths, contents and counters\<close>

text \<open>The slot at which lookup and remove stop: empty, or holding a key that matches.\<close>

definition lookup_stop :: "gpointer \<Rightarrow> MonoConcGHashTable \<Rightarrow> gpointer \<Rightarrow> nat \<Rightarrow> bool" where
  "lookup_stop eph h key i \<longleftrightarrow>
     keys (table h) ! i = 0 \<or> lookup_match eph h key (keys (table h) ! i)"

text \<open>Every slot whose key matches holds a value, so that lookup does not retry.\<close>

definition match_has_value :: "gpointer \<Rightarrow> MonoConcGHashTable \<Rightarrow> gpointer \<Rightarrow> bool" where
  "match_has_value eph h key \<longleftrightarrow>
     list_all2 (\<lambda>ck v. ck \<noteq> 0 \<and> lookup_match eph h key ck \<longrightarrow> v \<noteq> 0)
       (keys (table h)) (vals (table h))"

text \<open>The occupied slots of a generation being filled by a resize, as key/value pairs.\<close>

definition filled :: "conc_table \<Rightarrow> (gpointer \<times> gpointer) list" where
  "filled t = filter (\<lambda>(ck, v). ck \<noteq> 0) (zip (keys t) (vals t))"

text \<open>The live key/value pairs of the current generation, in slot order.\<close>

definition live_entries :: "gpointer \<Rightarrow> MonoConcGHashTable \<Rightarrow> (gpointer \<times> gpointer) list" where
  "live_entries eph h =
     filter (\<lambda>(ck, v). \<not> slot_free eph h ck) (zip (keys (table h)) (vals (table h)))"

text \<open>The live pairs found at the given slots of the old generation.\<close>

definition live_at ::
  "gpointer \<Rightarrow> MonoConcGHashTable \<Rightarrow> conc_table \<Rightarrow> nat list \<Rightarrow> (gpointer \<times> gpointer) list" where
  "live_at eph h old idxs =
     map (\<lambda>i. (keys old ! i, vals old ! i)) (filter (\<lambda>i. \<not> slot_free eph h (keys old ! i)) idxs)"

text \<open>
  The probe-chain invariant of linear probing: between the home slot of a stored key and
  the slot that holds it, no slot is empty.
\<close>

definition chain_ok :: "nat \<Rightarrow> (gpointer \<Rightarrow> guint) \<Rightarrow> conc_table \<Rightarrow> bool" where
  "chain_ok n hf t \<longleftrightarrow>
     (\<forall>j<2 ^ n. keys t ! j \<noteq> 0 \<longrightarrow>
        (\<forall>e. e < (j + 2 ^ n - slot_index (mix_hash (hf (keys t ! j))) (2 ^ n)) mod 2 ^ n \<longrightarrow>
           keys t ! ((slot_index (mix_hash (hf (keys t ! j))) (2 ^ n) + e) mod 2 ^ n) \<noteq> 0))"

text \<open>The slot at which insert stops: free, or holding a key that compares equal.\<close>

definition insert_stop :: "gpointer \<Rightarrow> MonoConcGHashTable \<Rightarrow> gpointer \<Rightarrow> nat \<Rightarrow> bool" where
  "insert_stop eph h key i \<longleftrightarrow>
     slot_free eph h (keys (table h) ! i) \<or> insert_match h key (keys (table h) ! i)"

text \<open>The element counter is at least the number of live slots.\<close>

definition count_ok :: "gpointer \<Rightarrow> MonoConcGHashTable \<Rightarrow> bool" where
  "count_ok eph h \<longleftrightarrow> int (live_count eph h) \<le> element_count h"

text \<open>
  The live keys are pairwise different, also in the eyes of the equality function, and
  each of them compares equal to itself.
\<close>

definition distinct_keys :: "gpointer \<Rightarrow> MonoConcGHashTable \<Rightarrow> bool" where
  "distinct_keys eph h \<longleftrightarrow>
     distinct (map fst (live_entries eph h))
     \<and> list_all (\<lambda>a. list_all (\<lambda>b. insert_match h a b = (a = b)) (map fst (live_entries eph h)))
          (map fst (live_entries eph h))"

text \<open>A new table, and the table after \<^verbatim>\<open>insert(1, 7)\<close>.\<close>

definition h_new :: MonoConcGHashTable where
  "h_new =
     \<lparr> table = \<lparr> table_size = 32, table_gc_type = 0,
                 keys = [0, 0, 0, 0, 0, 0, 0, 0, 0, 0, 0, 0, 0, 0, 0, 0,
                         0, 0, 0, 0, 0, 0, 0, 0, 0, 0, 0, 0, 0, 0, 0, 0],
                 vals = [0, 0, 0, 0, 0, 0, 0, 0, 0, 0, 0, 0, 0, 0, 0, 0,
                         0, 0, 0, 0, 0, 0, 0, 0, 0, 0, 0, 0, 0, 0, 0, 0] \<rparr>,
       hash_func = g_direct_hash, equal_func = None,
       element_count = 0, overflow_count = 24,
       key_destroy_func = False, value_destroy_func = False,
       gc_type = 0, destroy_calls = [] \<rparr>"

definition h_one :: MonoConcGHashTable where
  "h_one =
     \<lparr> table = \<lparr> table_size = 32, table_gc_type = 0,
                 keys = [0, 0, 0, 1, 0, 0, 0, 0, 0, 0, 0, 0, 0, 0, 0, 0,
                         0, 0, 0, 0, 0, 0, 0, 0, 0, 0, 0, 0, 0, 0, 0, 0],
                 vals = [0, 0, 0, 7, 0, 0, 0, 0, 0, 0, 0, 0, 0, 0, 0, 0,
                         0, 0, 0, 0, 0, 0, 0, 0, 0, 0, 0, 0, 0, 0, 0, 0] \<rparr>,
       hash_func = g_direct_hash, equal_func = None,
       element_count = 1, overflow_count = 24,
       key_destroy_func = False, value_destroy_func = False,
       gc_type = 0, destroy_calls = [] \<rparr>"

text \<open>The table \<open>h_full\<close> after a resize alone.\<close>

definition h_expanded :: MonoConcGHashTable where
  "h_expanded =
     \<lparr> table = \<lparr> table_size = 64, table_gc_type = 0,
                 keys = [0, 20, 0, 1, 0, 21, 2, 0, 22, 3, 0, 23, 0, 4, 24, 0,
                         5, 0, 0, 6, 0, 0, 0, 7, 0, 0, 8, 0, 0, 9, 0, 0,
                         10, 0, 0, 0, 11, 0, 0, 12, 0, 0, 13, 0, 0, 0, 14, 0,
                         0, 15, 0, 0, 16, 0, 0, 17, 0, 0, 0, 18, 0, 0, 19, 0],
                 vals = [0, 120, 0, 101, 0, 121, 102, 0, 122, 103, 0, 123, 0, 104, 124, 0,
                         105, 0, 0, 106, 0, 0, 0, 107, 0, 0, 108, 0, 0, 109, 0, 0,
                         110, 0, 0, 0, 111, 0, 0, 112, 0, 0, 113, 0, 0, 0, 114, 0,
                         0, 115, 0, 0, 116, 0, 0, 117, 0, 0, 0, 118, 0, 0, 119, 0] \<rparr>,
       hash_func = g_direct_hash, equal_func = None,
       element_count = 24, overflow_count = 48,
       key_destroy_func = False, value_destroy_func = False,
       gc_type = 0, destroy_calls = [] \<rparr>"


subsection \<open>Tables in use\<close>

text \<open>
  The invariant of a table in use: the capacity invariant, the slot invariant, agreement
  on the tombstone marker, and a counter between the number of live slots and the
  threshold.
\<close>

definition handle_inv :: "nat \<Rightarrow> gpointer \<Rightarrow> MonoConcGHashTable \<Rightarrow> bool" where
  "handle_inv n eph h \<longleftrightarrow>
     capacity_ok n h \<and> slot_inv eph h \<and> modes_agree h \<and> count_ok eph h
     \<and> element_count h \<le> overflow_count h"

text \<open>
  The handles reached by use within the contract of the tombstone marker: the table is
  built in a mode that does not track keys, and no call passes the marker as a key.
\<close>

inductive usable :: "gpointer \<Rightarrow> MonoConcGHashTable \<Rightarrow> bool" for eph where
  usable_new:
    "mono_conc_g_hash_table_new_type hf ef ty = Inr h \<Longrightarrow> ty AND MONO_HASH_KEY_GC = 0
       \<Longrightarrow> usable eph h"
| usable_insert:
    "usable eph h \<Longrightarrow> \<not> key_is_tombstone eph h k
       \<Longrightarrow> mono_conc_g_hash_table_insert eph h k v = Some (Inr (r, h')) \<Longrightarrow> usable eph h'"
| usable_remove:
    "usable eph h \<Longrightarrow> \<not> key_is_tombstone eph h k
       \<Longrightarrow> mono_conc_g_hash_table_remove eph h k = Some (Inr (r, h')) \<Longrightarrow> usable eph h'"

text \<open>The key that a call passes.\<close>

fun op_key :: "table_op \<Rightarrow> gpointer" where
  "op_key (Insert k v) = k"
| "op_key (Remove k) = k"


subsection \<open>Probe sequences\<close>

text \<open>The home slot of a key in a generation of capacity \<open>2 ^ n\<close>.\<close>

definition home_slot :: "(gpointer \<Rightarrow> guint) \<Rightarrow> nat \<Rightarrow> gpointer \<Rightarrow> nat" where
  "home_slot hf n key = nat (sint (mix_hash (hf key)) mod 2 ^ n)"

text \<open>The first \<open>d\<close> slots of the probe sequence that starts at \<open>home\<close>.\<close>

definition probe_path :: "nat \<Rightarrow> nat \<Rightarrow> nat \<Rightarrow> nat list" where
  "probe_path n home d = map (\<lambda>e. (home + e) mod 2 ^ n) [0 ..< d]"

text \<open>The handle after remove has found its key in slot \<open>i\<close>.\<close>

definition remove_at :: "gpointer \<Rightarrow> MonoConcGHashTable \<Rightarrow> nat \<Rightarrow> MonoConcGHashTable" where
  "remove_at eph h i =
     h \<lparr> table := set_key_to_tombstone eph ((table h) \<lparr> vals := (vals (table h))[i := 0] \<rparr>) i,
         element_count := (case equal_func h of
                             None \<Rightarrow> int32 (element_count h - 1)
                           | Some equal \<Rightarrow> element_count h),
         destroy_calls := run_destroy h (keys (table h) ! i) (vals (table h) ! i) \<rparr>"

text \<open>The handle after insert has taken the free slot \<open>i\<close>.\<close>

definition insert_at ::
  "MonoConcGHashTable \<Rightarrow> nat \<Rightarrow> gpointer \<Rightarrow> gpointer \<Rightarrow> MonoConcGHashTable" where
  "insert_at h i key v =
     h \<lparr> table := set_key (set_value (table h) i v) i key,
         element_count := int32 (element_count h + 1) \<rparr>"

text \<open>
  Some slot of the generation stops the probe of lookup and remove for \<open>key\<close>: it is empty
  or its key matches.
\<close>

definition can_stop :: "gpointer \<Rightarrow> MonoConcGHashTable \<Rightarrow> gpointer \<Rightarrow> bool" where
  "can_stop eph h key \<longleftrightarrow>
     list_ex (\<lambda>ck. ck = 0 \<or> lookup_match eph h key ck) (keys (table h))"

text \<open>
  Every live key is in its home slot or after a run of occupied slots that starts there.
\<close>

definition chain_live :: "nat \<Rightarrow> gpointer \<Rightarrow> MonoConcGHashTable \<Rightarrow> bool" where
  "chain_live n eph h \<longleftrightarrow>
     (\<forall>j<2 ^ n. \<not> slot_free eph h (keys (table h) ! j) \<longrightarrow>
        (\<forall>e. e < (j + 2 ^ n - home_slot (hash_func h) n (keys (table h) ! j)) mod 2 ^ n \<longrightarrow>
           keys (table h) ! ((home_slot (hash_func h) n (keys (table h) ! j) + e) mod 2 ^ n) \<noteq> 0))"

subsection \<open>Runs of inserts\<close>

text \<open>No key cell holds a tombstone: every slot that insert may take is empty.\<close>

definition no_tombstones :: "gpointer \<Rightarrow> MonoConcGHashTable \<Rightarrow> bool" where
  "no_tombstones eph h \<longleftrightarrow> list_all (\<lambda>ck. slot_free eph h ck = (ck = 0)) (keys (table h))"

text \<open>
  A generation filled by inserts alone: it holds exactly the entries \<open>kvs\<close>, each reachable
  from its home slot, and the counter is their number.
\<close>

definition holds_entries ::
  "nat \<Rightarrow> gpointer \<Rightarrow> MonoConcGHashTable \<Rightarrow> (gpointer \<times> gpointer) list \<Rightarrow> bool" where
  "holds_entries n eph h kvs \<longleftrightarrow>
     capacity_ok n h \<and> chain_ok n (hash_func h) (table h) \<and> no_tombstones eph h
     \<and> mset (filled (table h)) = mset kvs \<and> element_count h = int (length kvs)
     \<and> element_count h \<le> overflow_count h"

text \<open>
  Entries that can be inserted one after the other: pairwise different keys, none null
  or the tombstone marker, that the table tells apart, and non-null values.
\<close>

definition fresh_entries ::
  "gpointer \<Rightarrow> MonoConcGHashTable \<Rightarrow> (gpointer \<times> gpointer) list \<Rightarrow> bool" where
  "fresh_entries eph h kvs \<longleftrightarrow>
     distinct (map fst kvs)
     \<and> list_all (\<lambda>(k, v). k \<noteq> 0 \<and> \<not> key_is_tombstone eph h k \<and> v \<noteq> 0) kvs
     \<and> list_all (\<lambda>a. list_all (\<lambda>b. insert_match h a b = (a = b)) (map fst kvs)) (map fst kvs)"

text \<open>The calls that insert the entries in order.\<close>

definition insert_all :: "(gpointer \<times> gpointer) list \<Rightarrow> table_op list" where
  "insert_all kvs = map (\<lambda>(k, v). Insert k v) kvs"

text \<open>The keys 1 to 50 with the values 101 to 150.\<close>

definition fifty_entries :: "(gpointer \<times> gpointer) list" where
  "fifty_entries = map (\<lambda>k. (of_nat k, of_nat (100 + k))) [1 ..< 51]"

text \<open>
  The entries that a sequence of calls leaves behind, in the words of the specification:
  the pairs inserted and not removed since. \<open>acc\<close> holds the entries present before.
\<close>

fun contents_after ::
  "(gpointer \<times> gpointer) list \<Rightarrow> table_op list \<Rightarrow> (gpointer \<times> gpointer) list" where
  "contents_after acc [] = acc"
| "contents_after acc (Insert k v # ops) = contents_after (acc @ [(k, v)]) ops"
| "contents_after acc (Remove k # ops) = contents_after (filter (\<lambda>(a, b). a \<noteq> k) acc) ops"

text \<open>No call of the sequence inserts a key that is present at that moment.\<close>

fun absent_inserts :: "(gpointer \<times> gpointer) list \<Rightarrow> table_op list \<Rightarrow> bool" where
  "absent_inserts acc [] = True"
| "absent_inserts acc (Insert k v # ops) =
     (k \<notin> fst ` set acc \<and> absent_inserts (acc @ [(k, v)]) ops)"
| "absent_inserts acc (Remove k # ops) = absent_inserts (filter (\<lambda>(a, b). a \<noteq> k) acc) ops"

text \<open>The table tells the keys of the list apart: two of them match only when equal.\<close>

definition keys_told_apart :: "MonoConcGHashTable \<Rightarrow> gpointer list \<Rightarrow> bool" where
  "keys_told_apart h ks \<longleftrightarrow>
     list_all (\<lambda>a. list_all (\<lambda>b. insert_match h a b = (a = b)) ks) ks"

subsection \<open>More concrete tables\<close>

text \<open>The saturated table after \<^verbatim>\<open>insert(38, 138)\<close>: one live key and no empty slot.\<close>

definition h_saturated_one :: MonoConcGHashTable where
  "h_saturated_one =
     \<lparr> table = \<lparr> table_size = 32, table_gc_type = 0,
                 keys = [- 1, - 1, - 1, - 1, - 1, - 1, - 1, - 1, - 1, - 1, - 1, - 1, - 1, - 1, - 1, - 1,
                         - 1, - 1, - 1, - 1, - 1, - 1, - 1, - 1, - 1, - 1, - 1, - 1, 38, - 1, - 1, - 1],
                 vals = [0, 0, 0, 0, 0, 0, 0, 0, 0, 0, 0, 0, 0, 0, 0, 0,
                         0, 0, 0, 0, 0, 0, 0, 0, 0, 0, 0, 0, 138, 0, 0, 0] \<rparr>,
       hash_func = g_direct_hash, equal_func = None,
       element_count = 1, overflow_count = 24,
       key_destroy_func = False, value_destroy_func = False,
       gc_type = 0, destroy_calls = [] \<rparr>"

text \<open>
  The tombstone marker inserted as a key, then the keys 1 to 23: 24 elements, the
  threshold of the first generation.
\<close>

definition sentinel_ops :: "table_op list" where
  "sentinel_ops =
     [Insert PTR_TOMBSTONE 7, Insert 1 101, Insert 2 102, Insert 3 103, Insert 4 104,
       Insert 5 105, Insert 6 106, Insert 7 107, Insert 8 108, Insert 9 109, Insert 10
       110, Insert 11 111, Insert 12 112, Insert 13 113, Insert 14 114, Insert 15 115,
       Insert 16 116, Insert 17 117, Insert 18 118, Insert 19 119, Insert 20 120, Insert
       21 121, Insert 22 122, Insert 23 123]"

definition h_sentinel_full :: MonoConcGHashTable where
  "h_sentinel_full =
     \<lparr> table = \<lparr> table_size = 32, table_gc_type = 0,
                 keys = [10, 20, 0, 1, 11, 21, 2, 12, 22, 3, 13, 23, 0, 4, 14, 0,
                         5, 15, 0, 6, 16, 0, 0, 7, 17, 0, 8, 18, - 1, 9, 19, 0],
                 vals = [110, 120, 0, 101, 111, 121, 102, 112, 122, 103, 113, 123, 0, 104, 114, 0,
                         105, 115, 0, 106, 116, 0, 0, 107, 117, 0, 108, 118, 7, 109, 119, 0] \<rparr>,
       hash_func = g_direct_hash, equal_func = None,
       element_count = 24, overflow_count = 24,
       key_destroy_func = False, value_destroy_func = False,
       gc_type = 0, destroy_calls = [] \<rparr>"

text \<open>The same table after \<^verbatim>\<open>insert(24, 124)\<close>, which resizes first.\<close>

definition h_sentinel_grown :: MonoConcGHashTable where
  "h_sentinel_grown =
     \<lparr> table = \<lparr> table_size = 64, table_gc_type = 0,
                 keys = [0, 20, 0, 1, 0, 21, 2, 0, 22, 3, 0, 23, 0, 4, 24, 0,
                         5, 0, 0, 6, 0, 0, 0, 7, 0, 0, 8, 0, 0, 9, 0, 0,
                         10, 0, 0, 0, 11, 0, 0, 12, 0, 0, 13, 0, 0, 0, 14, 0,
                         0, 15, 0, 0, 16, 0, 0, 17, 0, 0, 0, 18, 0, 0, 19, 0],
                 vals = [0, 120, 0, 101, 0, 121, 102, 0, 122, 103, 0, 123, 0, 104, 124, 0,
                         105, 0, 0, 106, 0, 0, 0, 107, 0, 0, 108, 0, 0, 109, 0, 0,
                         110, 0, 0, 0, 111, 0, 0, 112, 0, 0, 113, 0, 0, 0, 114, 0,
                         0, 115, 0, 0, 116, 0, 0, 117, 0, 0, 0, 118, 0, 0, 119, 0] \<rparr>,
       hash_func = g_direct_hash, equal_func = None,
       element_count = 25, overflow_count = 48,
       key_destroy_func = False, value_destroy_func = False,
       gc_type = 0, destroy_calls = [] \<rparr>"

text \<open>
  The keys 1 to 24 inserted, key 5 removed, then the keys 25 and 26 inserted: the last
  insert finds the count at the threshold and resizes.
\<close>

definition mixed_ops :: "table_op list" where
  "mixed_ops = filling_ops @ [Remove 5, Insert 25 125, Insert 26 126]"

definition h_mixed :: MonoConcGHashTable where
  "h_mixed =
     \<lparr> table = \<lparr> table_size = 64, table_gc_type = 0,
                 keys = [0, 20, 0, 1, 0, 21, 2, 0, 22, 3, 0, 23, 0, 4, 24, 0,
                         0, 0, 25, 6, 0, 26, 0, 7, 0, 0, 8, 0, 0, 9, 0, 0,
                         10, 0, 0, 0, 11, 0, 0, 12, 0, 0, 13, 0, 0, 0, 14, 0,
                         0, 15, 0, 0, 16, 0, 0, 17, 0, 0, 0, 18, 0, 0, 19, 0],
                 vals = [0, 120, 0, 101, 0, 121, 102, 0, 122, 103, 0, 123, 0, 104, 124, 0,
                         0, 0, 125, 106, 0, 126, 0, 107, 0, 0, 108, 0, 0, 109, 0, 0,
                         110, 0, 0, 0, 111, 0, 0, 112, 0, 0, 113, 0, 0, 0, 114, 0,
                         0, 115, 0, 0, 116, 0, 0, 117, 0, 0, 0, 118, 0, 0, 119, 0] \<rparr>,
       hash_func = g_direct_hash, equal_func = None,
       element_count = 25, overflow_count = 48,
       key_destroy_func = False, value_destroy_func = False,
       gc_type = 0, destroy_calls = [] \<rparr>"


section \<open>Evaluation\<close>

lemmas eval_defs =
  mono_conc_g_hash_table_new_type_def conc_table_new_def INITIAL_SIZE_def EXPAND_RATIO_def
  load_threshold_def mono_conc_g_hash_table_insert_def
  mono_conc_g_hash_table_lookup_extended_def mono_conc_g_hash_table_remove_def
  g_direct_hash_def mix_hash_def slot_index_def next_slot_def key_is_tombstone_def
  PTR_TOMBSTONE_def insert_probe.simps lookup_probe.simps remove_probe.simps
  set_key_def set_value_def set_key_to_tombstone_def int32_def
  MONO_HASH_KEY_VALUE_GC_def MONO_HASH_KEY_GC_def MONO_HASH_VALUE_GC_def
  MONO_HASH_CONSERVATIVE_GC_def run_destroy_def

lemma replicate_numeral: "replicate (numeral k) x = x # replicate (pred_numeral k) x"
  by (simp add: numeral_eq_Suc)

lemma list_update_Cons_numeral: "(x # xs)[numeral k := y] = x # xs[pred_numeral k := y]"
  by (simp add: numeral_eq_Suc)

lemma ucast_minus_1: "(ucast (- 1 :: 64 word) :: 32 word) = - 1"
  by (rule bit_word_eqI) (simp add: bit_simps)

lemmas list_eval = replicate_numeral list_update_Cons_numeral ucast_minus_1

lemmas expand_defs = expand_table_def insert_one_local_def probe_empty.simps upt_conv_Cons Let_def

lemma slot_free_untracked:
  "gc_type h = 0 \<Longrightarrow> slot_free eph h ck = (ck = 0 \<or> ck = - 1)"
  by (simp add: slot_free_def key_is_tombstone_def PTR_TOMBSTONE_def)

lemma run_ops_evolves: "evolves eph h h1 \<Longrightarrow> run_ops eph h1 ops = Some (rs, h2) \<Longrightarrow> evolves eph h h2"
proof (induction ops arbitrary: h1 rs)
  case Nil
  then show ?case by simp
next
  case (Cons x xs)
  from Cons.prems(2) obtain r h' rs' where
    step: "apply_op eph h1 x = Some (Inr (r, h'))" and rest: "run_ops eph h' xs = Some (rs', h2)"
    by (auto split: option.splits sum.splits prod.splits)
  have "evolves eph h h'"
  proof (cases x)
    case (Insert k v)
    with step Cons.prems(1) show ?thesis by (auto intro: evolves_insert)
  next
    case (Remove k)
    with step Cons.prems(1) show ?thesis by (auto intro: evolves_remove)
  qed
  from Cons.IH [OF this rest] show ?case .
qed

lemma run_new_reachable:
  assumes "run_new eph hf ef ty ops = Some (rs, h)" shows "reachable eph h"
proof -
  from assms obtain h0 where n: "mono_conc_g_hash_table_new_type hf ef ty = Inr h0"
    and r: "run_ops eph h0 ops = Some (rs, h)"
    by (auto simp: run_new_def split: sum.splits)
  from run_ops_evolves [OF evolves_refl r] n show ?thesis
    unfolding reachable_def by blast
qed


section \<open>Slot arithmetic\<close>

lemma int32_eq_signed_take_bit: "int32 x = signed_take_bit 31 x"
  by (simp add: int32_def signed_take_bit_eq_take_bit_shift take_bit_eq_mod)

lemma int32_id: "- 2147483648 \<le> x \<Longrightarrow> x < 2147483648 \<Longrightarrow> int32 x = x"
  by (simp add: int32_def)

lemma and_pow2_minus_1: "(x::int) AND (2 ^ n - 1) = x mod 2 ^ n"
  by (simp add: take_bit_eq_mod [symmetric] take_bit_eq_mask mask_eq_exp_minus_1)

lemma slot_index_pow2: "slot_index hash (2 ^ n) = nat (sint hash mod 2 ^ n)"
  by (simp add: slot_index_def and_pow2_minus_1)

lemma slot_index_lt: "slot_index hash (2 ^ n) < 2 ^ n"
proof -
  have "sint hash mod 2 ^ n < 2 ^ n" by simp
  moreover have "0 \<le> sint hash mod (2 ^ n :: int)" by simp
  ultimately show ?thesis unfolding slot_index_pow2
    by (metis nat_less_iff of_nat_numeral of_nat_power)
qed

lemma next_slot_pow2: "next_slot i (2 ^ n) = (i + 1) mod 2 ^ n"
proof -
  have "nat ((int i + 1) mod 2 ^ n) = (i + 1) mod 2 ^ n"
    by (metis nat_int of_nat_1 of_nat_add of_nat_mod of_nat_numeral of_nat_power)
  then show ?thesis by (simp add: next_slot_def and_pow2_minus_1)
qed

lemma sint_mix_hash:
  "sint (mix_hash w) =
     drop_bit 16 (int32 (sint w * 215497)) XOR int32 (int32 (sint w * 1823231) + sint w)"
proof -
  have a: "sint (w * 215497) = int32 (sint w * 215497)"
    by (simp add: sint_word_ariths int32_eq_signed_take_bit)
  have b: "sint (w * 1823231) = int32 (sint w * 1823231)"
    by (simp add: sint_word_ariths int32_eq_signed_take_bit)
  have c: "sint (w * 1823231 + w) = int32 (sint (w * 1823231) + sint w)"
    unfolding int32_eq_signed_take_bit by (simp only: sint_word_ariths) simp
  show ?thesis
    unfolding mix_hash_def signed_xor_eq sint_signed_drop_bit_eq a c b ..
qed

section \<open>Frame properties\<close>

lemma same_shape_refl: "same_shape t t"
  by (simp add: same_shape_def)

lemma same_shape_trans: "same_shape a b \<Longrightarrow> same_shape b c \<Longrightarrow> same_shape a c"
  by (simp add: same_shape_def)

lemma same_config_refl: "same_config h h"
  by (simp add: same_config_def)

lemma same_config_trans: "same_config a b \<Longrightarrow> same_config b c \<Longrightarrow> same_config a c"
  by (simp add: same_config_def)

lemma frame_refl: "frame h h"
  by (simp add: frame_def same_config_def same_shape_def)

lemma frame_insert_at:
  "frame h (h \<lparr> table := set_key (set_value (table h) i v) i key, element_count := c \<rparr>)"
  by (simp add: frame_def same_config_def same_shape_def set_key_def set_value_def)

lemma frame_remove_at:
  "frame h (h \<lparr> table := set_key_to_tombstone eph ((table h) \<lparr> vals := (vals (table h))[i := 0] \<rparr>) i,
               element_count := c, destroy_calls := d \<rparr>)"
  "frame h (h \<lparr> table := set_key_to_tombstone eph ((table h) \<lparr> vals := (vals (table h))[i := 0] \<rparr>) i,
               destroy_calls := d \<rparr>)"
  by (simp_all add: frame_def same_config_def same_shape_def set_key_to_tombstone_def)

lemma insert_probe_frame:
  assumes "insert_probe eph h key v i = Some y"
  shows "frame h (snd y)"
  by (rule insert_probe.raw_induct [where P = "\<lambda>_ h _ _ _ y. frame h (snd y)", OF _ assms])
     (auto split: option.splits if_splits simp: frame_refl frame_insert_at)

lemma remove_probe_frame:
  assumes "remove_probe eph h key i = Some y"
  shows "frame h (snd y)"
  by (rule remove_probe.raw_induct [where P = "\<lambda>_ h _ _ y. frame h (snd y)", OF _ assms])
     (auto split: option.splits if_splits simp: frame_refl frame_remove_at)

lemma insert_one_local_frame:
  "insert_one_local t hf key v = Some t' \<Longrightarrow> same_shape t t'"
  by (auto simp: insert_one_local_def same_shape_def set_key_def set_value_def
           split: option.splits)

lemma rehash_slots_frame:
  "rehash_slots eph h old idxs new = Some new' \<Longrightarrow> same_shape new new'"
proof (induction idxs arbitrary: new)
  case Nil
  then show ?case by (simp add: same_shape_refl)
next
  case (Cons i rest)
  show ?case
  proof (cases "keys old ! i \<noteq> 0 \<and> \<not> key_is_tombstone eph h (keys old ! i)")
    case True
    with Cons.prems obtain mid where
      m: "insert_one_local new (hash_func h) (keys old ! i) (vals old ! i) = Some mid"
      and r: "rehash_slots eph h old rest mid = Some new'"
      by (auto split: option.splits)
    from insert_one_local_frame [OF m] Cons.IH [OF r] show ?thesis
      by (rule same_shape_trans)
  next
    case False
    with Cons.prems have "rehash_slots eph h old rest new = Some new'" by auto
    then show ?thesis by (rule Cons.IH)
  qed
qed

lemma expand_table_frame:
  assumes "expand_table eph h = Some (Inr h')"
  shows "same_config h h' \<and> element_count h' = element_count h
         \<and> destroy_calls h' = destroy_calls h
         \<and> table_size (table h') = int32 (table_size (table h) * 2)
         \<and> 0 < table_size (table h')
         \<and> length (keys (table h')) = nat (table_size (table h'))
         \<and> length (vals (table h')) = nat (table_size (table h'))
         \<and> table_gc_type (table h') = gc_type h
         \<and> overflow_count h' = load_threshold (table_size (table h'))"
proof -
  let ?sz = "int32 (table_size (table h) * EXPAND_RATIO)"
  from assms obtain new new' where
    n: "conc_table_new h ?sz = Inr new"
    and r: "rehash_slots eph h (table h) [0 ..< nat (table_size (table h))] new = Some new'"
    and h': "h' = h \<lparr> table := new', overflow_count := load_threshold (table_size new') \<rparr>"
    by (auto simp: expand_table_def Let_def split: sum.splits option.splits)
  from n have pos: "0 < ?sz" and new: "new = \<lparr> table_size = ?sz, table_gc_type = gc_type h,
        keys = replicate (nat ?sz) 0, vals = replicate (nat ?sz) 0 \<rparr>"
    by (auto simp: conc_table_new_def split: if_splits)
  from rehash_slots_frame [OF r] new pos h' show ?thesis
    by (simp add: same_shape_def same_config_def EXPAND_RATIO_def)
qed

lemma expand_table_error:
  "expand_table eph h = Some (Inl e) \<Longrightarrow> e = AllocationFailure \<and> int32 (table_size (table h) * 2) \<le> 0"
  by (auto simp: expand_table_def Let_def conc_table_new_def EXPAND_RATIO_def
           split: sum.splits option.splits if_splits)

lemma insert_cases:
  assumes "mono_conc_g_hash_table_insert eph h key v = Some (Inr (r, h'))"
  obtains (same) "element_count h < overflow_count h"
      "insert_probe eph h key v (slot_index (mix_hash (hash_func h key)) (table_size (table h)))
         = Some (r, h')"
  | (grown) h1 where "overflow_count h \<le> element_count h" "expand_table eph h = Some (Inr h1)"
      "insert_probe eph h1 key v (slot_index (mix_hash (hash_func h key)) (table_size (table h1)))
         = Some (r, h')"
  using assms
  by (auto simp: mono_conc_g_hash_table_insert_def split: if_splits option.splits sum.splits)

lemma insert_frame:
  assumes "mono_conc_g_hash_table_insert eph h key v = Some (Inr (r, h'))"
  shows "same_config h h'"
  using assms
proof (cases rule: insert_cases)
  case same
  from insert_probe_frame [OF same(2)] show ?thesis by (simp add: frame_def)
next
  case (grown h1)
  from expand_table_frame [OF grown(2)] insert_probe_frame [OF grown(3)] show ?thesis
    by (auto simp: frame_def intro: same_config_trans)
qed

lemma remove_frame:
  assumes "mono_conc_g_hash_table_remove eph h key = Some (Inr (r, h'))"
  shows "same_config h h' \<and> same_shape (table h) (table h') \<and> overflow_count h' = overflow_count h"
proof -
  from assms have "remove_probe eph h key
      (slot_index (mix_hash (hash_func h key)) (table_size (table h))) = Some (r, h')"
    by (auto simp: mono_conc_g_hash_table_remove_def split: if_splits option.splits)
  from remove_probe_frame [OF this] show ?thesis by (simp add: frame_def)
qed





section \<open>Capacity\<close>

lemma int32_double_pow2:
  assumes "0 < int32 (2 ^ n * 2)" shows "n < 30 \<and> int32 (2 ^ n * 2) = 2 ^ Suc n"
proof -
  have "n < 30"
  proof (rule ccontr)
    assume "\<not> n < 30"
    then consider "n = 30" | "31 \<le> n" by linarith
    then show False
    proof cases
      case 1
      with assms show False by (simp add: int32_def)
    next
      case 2
      then obtain m where "n = 31 + m" by (metis le_Suc_ex)
      then have "(2::int) ^ n * 2 = 4294967296 * 2 ^ m" by (simp add: power_add)
      then have "int32 (2 ^ n * 2) = (2147483648 + 4294967296 * 2 ^ m) mod 4294967296 - 2147483648"
        by (simp only: int32_def add.commute)
      also have "(2147483648 + 4294967296 * 2 ^ m) mod 4294967296 = (2147483648::int)"
        by simp
      finally show False using assms by simp
    qed
  qed
  moreover have "int32 (2 ^ Suc n) = 2 ^ Suc n"
  proof (rule int32_id)
    from \<open>n < 30\<close> have "(2::int) ^ Suc n \<le> 2 ^ 30"
      by (intro power_increasing) auto
    also have "(2::int) ^ 30 < 2147483648" by simp
    finally show "(2::int) ^ Suc n < 2147483648" .
    have "(0::int) < 2 ^ Suc n" by simp
    then show "- 2147483648 \<le> (2::int) ^ Suc n" by linarith
  qed
  ultimately show ?thesis by (simp add: mult.commute)
qed

lemma new_type_capacity:
  "mono_conc_g_hash_table_new_type hf ef ty = Inr h \<Longrightarrow> capacity_ok 5 h"
  by (auto simp: mono_conc_g_hash_table_new_type_def conc_table_new_def INITIAL_SIZE_def
        capacity_ok_def table_ok_def Let_def split: if_splits)

lemma remove_capacity:
  assumes "capacity_ok n h" "mono_conc_g_hash_table_remove eph h k = Some (Inr (r, h'))"
  shows "capacity_ok n h'"
  using remove_frame [OF assms(2)] assms(1)
  by (simp add: capacity_ok_def table_ok_def same_shape_def)

lemma expand_capacity:
  assumes "capacity_ok n h" "expand_table eph h = Some (Inr h1)"
  shows "capacity_ok (Suc n) h1"
proof -
  from assms(1) have ts: "table_size (table h) = 2 ^ n" and n: "5 \<le> n"
    by (simp_all add: capacity_ok_def table_ok_def)
  note f = expand_table_frame [OF assms(2)]
  from f ts have "0 < int32 (2 ^ n * 2)" by simp
  from int32_double_pow2 [OF this] have n30: "n < 30" and d: "int32 (2 ^ n * 2) = 2 ^ Suc n"
    by simp_all
  from f ts d have sz: "table_size (table h1) = 2 ^ Suc n" by simp
  have "nat ((2::int) ^ Suc n) = 2 ^ Suc n"
    by (metis nat_int of_nat_numeral of_nat_power)
  with f sz have "table_ok (Suc n) (table h1)" by (simp add: table_ok_def)
  with f sz n n30 show ?thesis by (simp add: capacity_ok_def)
qed

lemma insert_capacity:
  assumes "capacity_ok n h" "mono_conc_g_hash_table_insert eph h k v = Some (Inr (r, h'))"
  shows "capacity_ok (if overflow_count h \<le> element_count h then Suc n else n) h'"
  using assms(2)
proof (cases rule: insert_cases)
  case same
  from insert_probe_frame [OF same(2)] assms(1) same(1) show ?thesis
    by (simp add: capacity_ok_def table_ok_def same_shape_def frame_def)
next
  case (grown h1)
  from expand_capacity [OF assms(1) grown(2)] insert_probe_frame [OF grown(3)] grown(1)
  show ?thesis
    by (simp add: capacity_ok_def table_ok_def same_shape_def frame_def)
qed

lemma evolves_capacity:
  "evolves eph h h' \<Longrightarrow> capacity_ok n h \<Longrightarrow> \<exists>m. capacity_ok m h'"
proof (induction rule: evolves.induct)
  case evolves_refl
  then show ?case by blast
next
  case (evolves_insert h1 k v r h2)
  then obtain m where "capacity_ok m h1" by blast
  from insert_capacity [OF this evolves_insert.hyps(2)] show ?case by blast
next
  case (evolves_remove h1 k r h2)
  then obtain m where "capacity_ok m h1" by blast
  from remove_capacity [OF this evolves_remove.hyps(2)] show ?case by blast
qed

lemma reachable_capacity: "reachable eph h \<Longrightarrow> \<exists>n. capacity_ok n h"
  unfolding reachable_def using evolves_capacity new_type_capacity by blast

subsection \<open>Usage violations\<close>

lemma insert_usage:
  "(mono_conc_g_hash_table_insert eph h k v = Some (Inl UsageViolation)) = (k = 0 \<or> v = 0)"
  by (auto simp: mono_conc_g_hash_table_insert_def split: option.splits sum.splits
           dest: expand_table_error)

lemma insert_no_error:
  assumes "k \<noteq> 0" "v \<noteq> 0" "table_size (table h) = 2 ^ n" "n < 30"
  shows "mono_conc_g_hash_table_insert eph h k v \<noteq> Some (Inl e)"
proof
  assume "mono_conc_g_hash_table_insert eph h k v = Some (Inl e)"
  with assms(1,2) have "expand_table eph h = Some (Inl e)"
    by (auto simp: mono_conc_g_hash_table_insert_def split: option.splits sum.splits if_splits)
  from expand_table_error [OF this] assms(3) have le: "int32 (2 ^ Suc n) \<le> 0"
    by (simp add: mult.commute)
  have "int32 (2 ^ Suc n) = 2 ^ Suc n"
  proof (rule int32_id)
    from \<open>n < 30\<close> have "(2::int) ^ Suc n \<le> 2 ^ 30"
      by (intro power_increasing) auto
    also have "(2::int) ^ 30 < 2147483648" by simp
    finally show "(2::int) ^ Suc n < 2147483648" .
    have "(0::int) < 2 ^ Suc n" by simp
    then show "- 2147483648 \<le> (2::int) ^ Suc n" by linarith
  qed
  with le show False by simp
qed

lemma remove_usage:
  "(mono_conc_g_hash_table_remove eph h k = Some (Inl e)) = (k = 0 \<and> e = UsageViolation)"
  by (auto simp: mono_conc_g_hash_table_remove_def split: option.splits)

lemma new_type_usage:
  "(mono_conc_g_hash_table_new_type hf ef ty = Inl e)
     = (MONO_HASH_KEY_VALUE_GC < ty \<and> e = UsageViolation)"
  by (auto simp: mono_conc_g_hash_table_new_type_def conc_table_new_def INITIAL_SIZE_def Let_def)

lemma lookup_empty_home:
  assumes "keys (table h) ! slot_index (mix_hash (hash_func h k)) (table_size (table h)) = 0"
  shows "mono_conc_g_hash_table_lookup_extended eph h k = Some (False, 0, 0)"
  unfolding mono_conc_g_hash_table_lookup_extended_def
  by (subst lookup_probe.simps) (simp add: assms split: option.splits)

lemma remove_empty_home:
  assumes "keys (table h) ! slot_index (mix_hash (hash_func h k)) (table_size (table h)) = 0"
    "k \<noteq> 0"
  shows "mono_conc_g_hash_table_remove eph h k = Some (Inr (0, h))"
  unfolding mono_conc_g_hash_table_remove_def
  by (subst remove_probe.simps) (simp add: assms split: option.splits)

subsection \<open>Null hash function\<close>



subsection \<open>One round of each probe loop\<close>

lemma probe_empty_step:
  "keys t ! i \<noteq> 0 \<Longrightarrow> probe_empty t i = probe_empty t (next_slot i (table_size t))"
  by (subst probe_empty.simps) simp

lemma probe_empty_stop: "keys t ! i = 0 \<Longrightarrow> probe_empty t i = Some i"
  by (subst probe_empty.simps) simp

lemma lookup_probe_step:
  assumes "keys (table h) ! i \<noteq> 0" "\<not> lookup_match eph h key (keys (table h) ! i)"
  shows "lookup_probe eph h key hash i
           = lookup_probe eph h key hash (next_slot i (table_size (table h)))"
  proof (cases "equal_func h")
  case None
  with assms show ?thesis by (subst lookup_probe.simps) (auto simp: lookup_match_def)
next
  case (Some eq)
  with assms show ?thesis by (subst lookup_probe.simps) (auto simp: lookup_match_def)
qed

lemma lookup_probe_empty:
  assumes "keys (table h) ! i = 0"
  shows "lookup_probe eph h key hash i = Some (False, 0, 0)"
  proof (cases "equal_func h")
  case None
  with assms show ?thesis by (subst lookup_probe.simps) simp
next
  case (Some eq)
  with assms show ?thesis by (subst lookup_probe.simps) simp
qed

lemma lookup_probe_found:
  assumes "keys (table h) ! i \<noteq> 0" "lookup_match eph h key (keys (table h) ! i)"
    "vals (table h) ! i \<noteq> 0"
  shows "lookup_probe eph h key hash i = Some (True, keys (table h) ! i, vals (table h) ! i)"
  proof (cases "equal_func h")
  case None
  with assms show ?thesis by (subst lookup_probe.simps) (auto simp: lookup_match_def)
next
  case (Some eq)
  with assms show ?thesis by (subst lookup_probe.simps) (auto simp: lookup_match_def)
qed

lemma insert_probe_step:
  assumes "\<not> slot_free eph h (keys (table h) ! i)" "\<not> insert_match h key (keys (table h) ! i)"
  shows "insert_probe eph h key v i
           = insert_probe eph h key v (next_slot i (table_size (table h)))"
  proof (cases "equal_func h")
  case None
  with assms show ?thesis by (subst insert_probe.simps) (auto simp: insert_match_def slot_free_def)
next
  case (Some eq)
  with assms show ?thesis by (subst insert_probe.simps) (auto simp: insert_match_def slot_free_def)
qed

lemma insert_probe_free:
  assumes "slot_free eph h (keys (table h) ! i)"
  shows "insert_probe eph h key v i
           = Some (0, h \<lparr> table := set_key (set_value (table h) i v) i key,
                          element_count := int32 (element_count h + 1) \<rparr>)"
  proof (cases "equal_func h")
  case None
  with assms show ?thesis by (subst insert_probe.simps) (auto simp: slot_free_def)
next
  case (Some eq)
  with assms show ?thesis by (subst insert_probe.simps) (auto simp: slot_free_def)
qed

lemma insert_probe_present:
  assumes "\<not> slot_free eph h (keys (table h) ! i)" "insert_match h key (keys (table h) ! i)"
  shows "insert_probe eph h key v i = Some (vals (table h) ! i, h)"
  proof (cases "equal_func h")
  case None
  with assms show ?thesis by (subst insert_probe.simps) (auto simp: insert_match_def slot_free_def)
next
  case (Some eq)
  with assms show ?thesis by (subst insert_probe.simps) (auto simp: insert_match_def slot_free_def)
qed

lemma remove_probe_step:
  assumes "keys (table h) ! i \<noteq> 0" "\<not> lookup_match eph h key (keys (table h) ! i)"
  shows "remove_probe eph h key i
           = remove_probe eph h key (next_slot i (table_size (table h)))"
  proof (cases "equal_func h")
  case None
  with assms show ?thesis by (subst remove_probe.simps) (auto simp: lookup_match_def)
next
  case (Some eq)
  with assms show ?thesis by (subst remove_probe.simps) (auto simp: lookup_match_def)
qed

lemma remove_probe_empty:
  assumes "keys (table h) ! i = 0"
  shows "remove_probe eph h key i = Some (0, h)"
  proof (cases "equal_func h")
  case None
  with assms show ?thesis by (subst remove_probe.simps) simp
next
  case (Some eq)
  with assms show ?thesis by (subst remove_probe.simps) simp
qed

lemma remove_probe_found:
  assumes "keys (table h) ! i \<noteq> 0" "lookup_match eph h key (keys (table h) ! i)"
  shows "\<exists>h'. remove_probe eph h key i = Some (vals (table h) ! i, h')"
  proof (cases "equal_func h")
  case None
  with assms show ?thesis by (subst remove_probe.simps) (auto simp: lookup_match_def)
next
  case (Some eq)
  with assms show ?thesis by (subst remove_probe.simps) (auto simp: lookup_match_def)
qed

section \<open>The concrete tables\<close>

lemma run_eq_removed:
  "run_new 99 None (Some (=)) MONO_HASH_CONSERVATIVE_GC [Insert 1 7, Remove 1]
     = Some ([0, 7], h_eq_removed)"
  by (simp add: run_new_def h_eq_removed_def eval_defs list_eval)

lemma run_id_removed:
  "run_new 99 None None MONO_HASH_CONSERVATIVE_GC [Insert 1 7, Remove 1]
     = Some ([0, 7], h_id_removed)"
  by (simp add: run_new_def h_id_removed_def eval_defs list_eval)

lemma run_duplicate:
  "run_new 99 None None MONO_HASH_CONSERVATIVE_GC
     [Insert 7 100, Insert 17 101, Remove 7, Insert 17 102] = Some ([0, 0, 100, 0], h_duplicate)"
  by (simp add: run_new_def h_duplicate_def eval_defs list_eval)

lemma run_sentinel_equal:
  "run_new 99 None (Some (=)) MONO_HASH_CONSERVATIVE_GC [Insert PTR_TOMBSTONE 7]
     = Some ([0], h_sentinel_equal)"
  by (simp add: run_new_def h_sentinel_equal_def eval_defs list_eval)

lemma run_sentinel:
  "run_new 99 None None MONO_HASH_CONSERVATIVE_GC [Insert PTR_TOMBSTONE 7] = Some ([0], h_sentinel)"
  by (simp add: run_new_def h_sentinel_def eval_defs list_eval)

lemma run_full:
  "run_new 99 None None MONO_HASH_CONSERVATIVE_GC filling_ops = Some (replicate 24 0, h_full)"
  by (simp add: run_new_def filling_ops_def h_full_def eval_defs list_eval upt_conv_Cons)

lemma insert_full:
  "mono_conc_g_hash_table_insert 99 h_full 25 125 = Some (Inr (0, h_grown))"
  by (simp add: h_full_def h_grown_def eval_defs list_eval expand_defs)

lemma reachable_full: "reachable 99 h_full"
  using run_full by (rule run_new_reachable)

lemma saturate: "map_option snd (run_new 99 None None MONO_HASH_CONSERVATIVE_GC saturating_ops)
   = Some h_saturated"
  by (simp add: run_new_def saturating_ops_def h_saturated_def eval_defs upt_conv_Cons list_eval)

lemma live_count_eq_removed: "live_count 99 h_eq_removed = 0"
proof -
  have "gc_type h_eq_removed = 0" by (simp add: h_eq_removed_def)
  then show ?thesis
    by (simp add: live_count_def slot_free_untracked) (simp add: h_eq_removed_def)
qed

lemma capacity_ok_size: "capacity_ok n h \<Longrightarrow> table_size (table h) = 2 ^ n"
  by (simp add: capacity_ok_def table_ok_def)


section \<open>Linear probing\<close>

lemma cyclic_reach:
  fixes i j m :: nat
  assumes "i < m" "j < m"
  shows "(i + (j + m - i) mod m) mod m = j"
proof -
  have "(i + (j + m - i) mod m) mod m = (i + (j + m - i)) mod m"
    by (simp add: mod_add_right_eq)
  also have "i + (j + m - i) = j + m" using assms by simp
  also have "(j + m) mod m = j" using assms by simp
  finally show ?thesis .
qed

lemma first_stop:
  fixes i j m :: nat
  assumes "j < m" "S j" "i < m"
  shows "\<exists>d<m. S ((i + d) mod m) \<and> (\<forall>e<d. \<not> S ((i + e) mod m))"
proof -
  let ?Q = "\<lambda>d. S ((i + d) mod m)"
  let ?d0 = "(j + m - i) mod m"
  have q0: "?Q ?d0" using cyclic_reach [OF assms(3) assms(1)] assms(2) by simp
  have lt: "?d0 < m" using assms(1) by simp
  have "?Q (Least ?Q)" using q0 by (rule LeastI)
  moreover have "Least ?Q \<le> ?d0" using q0 by (rule Least_le)
  moreover have "\<forall>e<Least ?Q. \<not> ?Q e" using not_less_Least by blast
  ultimately show ?thesis using lt by (intro exI [of _ "Least ?Q"]) auto
qed

lemma probe_skip:
  fixes f :: "nat \<Rightarrow> 'a" and m :: nat
  assumes step: "\<And>i. i < m \<Longrightarrow> \<not> S i \<Longrightarrow> f i = f ((i + 1) mod m)"
  shows "i < m \<Longrightarrow> (\<forall>e<d. \<not> S ((i + e) mod m)) \<Longrightarrow> f i = f ((i + d) mod m)"
proof (induction d arbitrary: i)
  case 0
  then show ?case by simp
next
  case (Suc d)
  from Suc.prems have i: "i < m" and "\<not> S ((i + 0) mod m)" by auto
  then have "\<not> S i" by simp
  with i have a: "f i = f ((i + 1) mod m)" by (rule step)
  have lt: "(i + 1) mod m < m" using i by simp
  have "\<forall>e<d. \<not> S (((i + 1) mod m + e) mod m)"
  proof (intro allI impI)
    fix e assume "e < d"
    then have "Suc e < Suc d" by simp
    with Suc.prems(2) have "\<not> S ((i + Suc e) mod m)" by blast
    moreover have "((i + 1) mod m + e) mod m = (i + Suc e) mod m"
      by (simp add: mod_add_left_eq)
    ultimately show "\<not> S (((i + 1) mod m + e) mod m)" by simp
  qed
  from Suc.IH [OF lt this] have "f ((i + 1) mod m) = f (((i + 1) mod m + d) mod m)" .
  also have "((i + 1) mod m + d) mod m = (i + Suc d) mod m"
    by (simp add: mod_add_left_eq)
  finally show ?case using a by simp
qed

lemma probe_reach:
  fixes f :: "nat \<Rightarrow> 'a" and m :: nat
  assumes step: "\<And>i. i < m \<Longrightarrow> \<not> S i \<Longrightarrow> f i = f ((i + 1) mod m)"
    and "j < m" "S j" "i < m"
  shows "\<exists>d<m. S ((i + d) mod m) \<and> (\<forall>e<d. \<not> S ((i + e) mod m)) \<and> f i = f ((i + d) mod m)"
proof -
  from first_stop [of j m S i, OF assms(2,3,4)] obtain d where
    d: "d < m" "S ((i + d) mod m)" "\<forall>e<d. \<not> S ((i + e) mod m)" by blast
  from probe_skip [of m S f, OF step assms(4) d(3)] d show ?thesis by blast
qed

lemma table_ok_pos: "table_ok n t \<Longrightarrow> (0::nat) < 2 ^ n"
  by simp

lemma mem_set_index: "x \<in> set xs \<Longrightarrow> \<exists>j<length xs. xs ! j = x"
  by (auto simp: in_set_conv_nth)

lemma lookup_skip:
  assumes ok: "table_ok n (table h)" and i: "i < 2 ^ n"
    and d: "\<forall>e<d. \<not> lookup_stop eph h key ((i + e) mod 2 ^ n)"
  shows "lookup_probe eph h key hash i = lookup_probe eph h key hash ((i + d) mod 2 ^ n)"
proof (rule probe_skip [where S = "lookup_stop eph h key", OF _ i d])
  fix s :: nat assume "s < 2 ^ n" "\<not> lookup_stop eph h key s"
  then have "lookup_probe eph h key hash s
      = lookup_probe eph h key hash (next_slot s (table_size (table h)))"
    by (intro lookup_probe_step) (auto simp: lookup_stop_def)
  with ok show "lookup_probe eph h key hash s = lookup_probe eph h key hash ((s + 1) mod 2 ^ n)"
    by (simp add: table_ok_def next_slot_pow2)
qed

lemma remove_skip:
  assumes ok: "table_ok n (table h)" and i: "i < 2 ^ n"
    and d: "\<forall>e<d. \<not> lookup_stop eph h key ((i + e) mod 2 ^ n)"
  shows "remove_probe eph h key i = remove_probe eph h key ((i + d) mod 2 ^ n)"
proof (rule probe_skip [where S = "lookup_stop eph h key", OF _ i d])
  fix s :: nat assume "s < 2 ^ n" "\<not> lookup_stop eph h key s"
  then have "remove_probe eph h key s
      = remove_probe eph h key (next_slot s (table_size (table h)))"
    by (intro remove_probe_step) (auto simp: lookup_stop_def)
  with ok show "remove_probe eph h key s = remove_probe eph h key ((s + 1) mod 2 ^ n)"
    by (simp add: table_ok_def next_slot_pow2)
qed

section \<open>The slot invariant\<close>

lemma slot_free_cong:
  "gc_type h' = gc_type h \<Longrightarrow> slot_free eph h' = slot_free eph h"
  by (rule ext) (simp add: slot_free_def key_is_tombstone_def)

lemma slot_inv_cong:
  "gc_type h' = gc_type h \<Longrightarrow> table h' = table h \<Longrightarrow> slot_inv eph h' = slot_inv eph h"
  using slot_free_cong [of h' h eph] by (simp add: slot_inv_def)

lemma slot_inv_new_type:
  "mono_conc_g_hash_table_new_type hf ef ty = Inr h \<Longrightarrow> slot_inv eph h"
  by (auto simp: mono_conc_g_hash_table_new_type_def conc_table_new_def INITIAL_SIZE_def Let_def
        slot_inv_def slot_free_def list_all2_conv_all_nth split: if_splits)

lemma slot_inv_insert_at:
  assumes "slot_inv eph h" "key \<noteq> 0" "\<not> key_is_tombstone eph h key" "v \<noteq> 0"
  shows "slot_inv eph (h \<lparr> table := set_key (set_value (table h) i v) i key, element_count := c \<rparr>)"
proof -
  have "(v = 0) = slot_free eph h key" using assms by (simp add: slot_free_def)
  with assms(1) have "list_all2 (\<lambda>ck v. (v = 0) = slot_free eph h ck)
      ((keys (table h))[i := key]) ((vals (table h))[i := v])"
    unfolding slot_inv_def by (intro list_all2_update_cong)
  moreover have "slot_free eph (h \<lparr> table := set_key (set_value (table h) i v) i key,
      element_count := c \<rparr>) = slot_free eph h"
    by (rule slot_free_cong) simp
  ultimately show ?thesis by (simp add: slot_inv_def set_key_def set_value_def)
qed

lemma insert_probe_slot_inv:
  assumes "insert_probe eph h key v i = Some y"
  shows "slot_inv eph h \<and> key \<noteq> 0 \<and> \<not> key_is_tombstone eph h key \<and> v \<noteq> 0
           \<longrightarrow> slot_inv eph (snd y)"
  by (rule insert_probe.raw_induct
        [where P = "\<lambda>eph h key v _ y. slot_inv eph h \<and> key \<noteq> 0 \<and> \<not> key_is_tombstone eph h key
            \<and> v \<noteq> 0 \<longrightarrow> slot_inv eph (snd y)", OF _ assms])
     (auto split: option.splits if_splits simp: slot_inv_insert_at)

lemma tombstone_marker_free:
  assumes "modes_agree h"
  shows "slot_free eph h (if table_gc_type (table h) AND MONO_HASH_KEY_GC \<noteq> 0 then eph
                          else PTR_TOMBSTONE)"
  using assms by (auto simp: modes_agree_def slot_free_def key_is_tombstone_def)

lemma slot_inv_remove_at:
  assumes "slot_inv eph h" "modes_agree h" "gc_type h' = gc_type h"
    "table h' = set_key_to_tombstone eph ((table h) \<lparr> vals := (vals (table h))[i := 0] \<rparr>) i"
  shows "slot_inv eph h' \<and> modes_agree h'"
proof -
  let ?m = "if table_gc_type (table h) AND MONO_HASH_KEY_GC \<noteq> 0 then eph else PTR_TOMBSTONE"
  have "((0::gpointer) = 0) = slot_free eph h ?m"
    using tombstone_marker_free [OF assms(2)] by simp
  with assms(1) have "list_all2 (\<lambda>ck v. (v = 0) = slot_free eph h ck)
      ((keys (table h))[i := ?m]) ((vals (table h))[i := 0])"
    unfolding slot_inv_def by (intro list_all2_update_cong)
  moreover have "slot_free eph h' = slot_free eph h" using assms(3) by (rule slot_free_cong)
  moreover have "keys (table h') = (keys (table h))[i := ?m]"
    "vals (table h') = (vals (table h))[i := 0]"
    "table_gc_type (table h') = table_gc_type (table h)"
    by (simp_all add: assms(4) set_key_to_tombstone_def)
  ultimately show ?thesis using assms(2,3) by (simp add: slot_inv_def modes_agree_def)
qed

lemma slot_inv_remove_shapes:
  assumes "slot_inv eph h" "modes_agree h"
  shows "slot_inv eph (h \<lparr> table := set_key_to_tombstone eph
              ((table h) \<lparr> vals := (vals (table h))[i := 0] \<rparr>) i,
            element_count := c, destroy_calls := d \<rparr>)"
    and "modes_agree (h \<lparr> table := set_key_to_tombstone eph
              ((table h) \<lparr> vals := (vals (table h))[i := 0] \<rparr>) i,
            element_count := c, destroy_calls := d \<rparr>)"
    and "slot_inv eph (h \<lparr> table := set_key_to_tombstone eph
              ((table h) \<lparr> vals := (vals (table h))[i := 0] \<rparr>) i,
            destroy_calls := d \<rparr>)"
    and "modes_agree (h \<lparr> table := set_key_to_tombstone eph
              ((table h) \<lparr> vals := (vals (table h))[i := 0] \<rparr>) i,
            destroy_calls := d \<rparr>)"
  using slot_inv_remove_at [OF assms, of "h \<lparr> table := set_key_to_tombstone eph
              ((table h) \<lparr> vals := (vals (table h))[i := 0] \<rparr>) i,
            element_count := c, destroy_calls := d \<rparr>" i]
    slot_inv_remove_at [OF assms, of "h \<lparr> table := set_key_to_tombstone eph
              ((table h) \<lparr> vals := (vals (table h))[i := 0] \<rparr>) i,
            destroy_calls := d \<rparr>" i]
  by simp_all

lemma remove_probe_slot_inv:
  assumes "remove_probe eph h key i = Some y"
  shows "slot_inv eph h \<and> modes_agree h \<longrightarrow> slot_inv eph (snd y) \<and> modes_agree (snd y)"
  by (rule remove_probe.raw_induct
        [where P = "\<lambda>eph h _ _ y. slot_inv eph h \<and> modes_agree h
            \<longrightarrow> slot_inv eph (snd y) \<and> modes_agree (snd y)", OF _ assms])
     (auto split: option.splits if_splits simp: slot_inv_remove_shapes)

section \<open>Contents of a generation\<close>

lemma zip_conv_nth:
  "length xs = length ys \<Longrightarrow> zip xs ys = map (\<lambda>i. (xs ! i, ys ! i)) [0 ..< length xs]"
  by (rule nth_equalityI) simp_all

lemma live_at_all:
  assumes "length (keys (table h)) = length (vals (table h))"
  shows "live_at eph h (table h) [0 ..< length (keys (table h))] = live_entries eph h"
  unfolding live_at_def live_entries_def zip_conv_nth [OF assms]
  by (simp add: filter_map comp_def)

lemma mset_filter_update_new:
  assumes "j < length zs" "\<not> P (zs ! j)" "P z"
  shows "mset (filter P (zs[j := z])) = add_mset z (mset (filter P zs))"
proof -
  have "mset (zs[j := z]) = add_mset z (mset zs - {#zs ! j#})"
    using assms(1) by (rule mset_update)
  then have "filter_mset P (mset (zs[j := z])) = filter_mset P (add_mset z (mset zs - {#zs ! j#}))"
    by simp
  also have "\<dots> = add_mset z (filter_mset P (mset zs))"
    using assms(2,3) by (simp add: filter_diff_mset)
  finally show ?thesis by (simp only: mset_filter)
qed

lemma filled_update:
  assumes "j < length (keys t)" "length (keys t) = length (vals t)" "keys t ! j = 0" "key \<noteq> 0"
  shows "mset (filled (t \<lparr> keys := (keys t)[j := key], vals := (vals t)[j := v] \<rparr>))
           = add_mset (key, v) (mset (filled t))"
proof -
  have z: "zip ((keys t)[j := key]) ((vals t)[j := v]) = (zip (keys t) (vals t))[j := (key, v)]"
    by (simp add: update_zip)
  have "\<not> (\<lambda>(ck, v). ck \<noteq> 0) (zip (keys t) (vals t) ! j)" using assms by simp
  moreover have "j < length (zip (keys t) (vals t))" using assms by simp
  moreover have "(\<lambda>(ck, v). ck \<noteq> 0) (key, v)" using assms by simp
  ultimately show ?thesis
    unfolding filled_def by (simp add: z mset_filter_update_new del: mset_filter)
qed

lemma filled_keys:
  "length ks = length vs \<Longrightarrow>
     map fst (filter (\<lambda>(ck, v). P ck) (zip ks vs)) = filter P ks"
  by (induction ks vs rule: list_induct2) simp_all

lemma filled_length:
  "length (keys t) = length (vals t) \<Longrightarrow>
     length (filled t) = length (filter (\<lambda>ck. ck \<noteq> 0) (keys t))"
  using filled_keys [of "keys t" "vals t" "\<lambda>ck. ck \<noteq> 0"]
  unfolding filled_def by (metis length_map)

lemma empty_slot_exists:
  assumes "length (keys t) = length (vals t)" "length (filled t) < length (keys t)"
  shows "\<exists>j<length (keys t). keys t ! j = 0"
proof (rule ccontr)
  assume "\<not> (\<exists>j<length (keys t). keys t ! j = 0)"
  then have "\<forall>ck\<in>set (keys t). ck \<noteq> 0" by (auto simp: in_set_conv_nth)
  then have "filter (\<lambda>ck. ck \<noteq> 0) (keys t) = keys t" by (simp add: filter_True)
  with filled_length [OF assms(1)] assms(2) show False by simp
qed

section \<open>Rehashing\<close>

lemma probe_empty_skip:
  assumes ok: "table_ok n t" and i: "i < 2 ^ n"
    and d: "\<forall>e<d. keys t ! ((i + e) mod 2 ^ n) \<noteq> 0"
  shows "probe_empty t i = probe_empty t ((i + d) mod 2 ^ n)"
proof (rule probe_skip [where S = "\<lambda>s. keys t ! s = 0" and m = "2 ^ n" and f = "probe_empty t"])
  fix s :: nat assume "s < 2 ^ n" "\<not> keys t ! s = 0"
  then have "probe_empty t s = probe_empty t (next_slot s (table_size t))"
    by (intro probe_empty_step) simp
  with ok show "probe_empty t s = probe_empty t ((s + 1) mod 2 ^ n)"
    by (simp add: table_ok_def next_slot_pow2)
next
  show "i < 2 ^ n" by (rule i)
  show "\<forall>e<d. \<not> keys t ! ((i + e) mod 2 ^ n) = 0" using d by simp
qed

lemma set_cells:
  "set_value (set_key t j key) j v = t \<lparr> keys := (keys t)[j := key], vals := (vals t)[j := v] \<rparr>"
  by (simp add: set_key_def set_value_def)

lemma insert_one_local_total:
  assumes ok: "table_ok n t" and room: "length (filled t) < 2 ^ n"
  shows "\<exists>d<2 ^ n.
     keys t ! ((slot_index (mix_hash (hf key)) (2 ^ n) + d) mod 2 ^ n) = 0
     \<and> (\<forall>e<d. keys t ! ((slot_index (mix_hash (hf key)) (2 ^ n) + e) mod 2 ^ n) \<noteq> 0)
     \<and> insert_one_local t hf key v
         = Some (t \<lparr> keys := (keys t)[(slot_index (mix_hash (hf key)) (2 ^ n) + d) mod 2 ^ n := key],
                     vals := (vals t)[(slot_index (mix_hash (hf key)) (2 ^ n) + d) mod 2 ^ n := v] \<rparr>)"
proof -
  let ?home = "slot_index (mix_hash (hf key)) (2 ^ n)"
  from ok have ts: "table_size t = 2 ^ n" and lk: "length (keys t) = 2 ^ n"
    and lv: "length (vals t) = 2 ^ n" by (simp_all add: table_ok_def)
  from empty_slot_exists [of t] room lk lv obtain j where j: "j < 2 ^ n" "keys t ! j = 0"
    by auto
  have home: "?home < 2 ^ n" by (rule slot_index_lt)
  from first_stop [of j "2 ^ n" "\<lambda>s. keys t ! s = 0" ?home, OF j(1) j(2) home] obtain d where
    d: "d < 2 ^ n" "keys t ! ((?home + d) mod 2 ^ n) = 0"
       "\<forall>e<d. keys t ! ((?home + e) mod 2 ^ n) \<noteq> 0"
    by blast
  have "probe_empty t ?home = probe_empty t ((?home + d) mod 2 ^ n)"
    by (rule probe_empty_skip [OF ok home d(3)])
  also have "\<dots> = Some ((?home + d) mod 2 ^ n)" using d(2) by (rule probe_empty_stop)
  finally have "insert_one_local t hf key v
      = Some (set_value (set_key t ((?home + d) mod 2 ^ n) key) ((?home + d) mod 2 ^ n) v)"
    by (simp add: insert_one_local_def ts)
  with d show ?thesis unfolding set_cells by blast
qed

lemma cyclic_dist_offset:
  fixes a d m :: nat
  assumes "a < m" "d < m"
  shows "((a + d) mod m + m - a) mod m = d"
proof (cases "a + d < m")
  case True
  then have "((a + d) mod m + m - a) = d + m" using assms by simp
  then show ?thesis using assms by simp
next
  case False
  then have "(a + d) mod m = (a + d - m) mod m" by (simp add: le_mod_geq)
  also have "\<dots> = a + d - m" using assms by (intro mod_less) linarith
  finally have "((a + d) mod m + m - a) = d" using assms False by simp
  then show ?thesis using assms by simp
qed

lemma cyclic_offset_inj:
  fixes a d e m :: nat
  assumes "a < m" "d < m" "e < m" "(a + e) mod m = (a + d) mod m"
  shows "e = d"
  using cyclic_dist_offset [OF assms(1,2)] cyclic_dist_offset [OF assms(1,3)] assms(4) by simp

lemma chain_ok_insert:
  assumes ok: "table_ok n t" and ch: "chain_ok n hf t" and key: "key \<noteq> 0"
    and d: "d < 2 ^ n" "\<forall>e<d. keys t ! ((slot_index (mix_hash (hf key)) (2 ^ n) + e) mod 2 ^ n) \<noteq> 0"
  shows "chain_ok n hf
           (t \<lparr> keys := (keys t)[(slot_index (mix_hash (hf key)) (2 ^ n) + d) mod 2 ^ n := key],
                 vals := vs \<rparr>)"
proof -
  let ?home = "slot_index (mix_hash (hf key)) (2 ^ n)"
  let ?j = "(?home + d) mod 2 ^ n"
  let ?ks = "(keys t)[?j := key]"
  from ok have lk: "length (keys t) = 2 ^ n" by (simp add: table_ok_def)
  have home: "?home < 2 ^ n" by (rule slot_index_lt)
  have keep: "?ks ! s \<noteq> 0" if "s < 2 ^ n" "keys t ! s \<noteq> 0" for s
    using that key lk by (cases "s = ?j") simp_all
  have "\<forall>e. e < (j' + 2 ^ n - slot_index (mix_hash (hf (?ks ! j'))) (2 ^ n)) mod 2 ^ n \<longrightarrow>
           ?ks ! ((slot_index (mix_hash (hf (?ks ! j'))) (2 ^ n) + e) mod 2 ^ n) \<noteq> 0"
    if j': "j' < 2 ^ n" "?ks ! j' \<noteq> 0" for j'
  proof (cases "j' = ?j")
    case True
    have k: "?ks ! ?j = key" using lk by simp
    have dist: "(?j + 2 ^ n - ?home) mod 2 ^ n = d" using cyclic_dist_offset [OF home d(1)] .
    have "?ks ! ((?home + e) mod 2 ^ n) \<noteq> 0" if "e < d" for e
      using keep [of "(?home + e) mod 2 ^ n"] d(2) that by simp
    then show ?thesis unfolding True k dist by blast
  next
    case False
    then have k: "?ks ! j' = keys t ! j'" by simp
    with j' have "keys t ! j' \<noteq> 0" by simp
    with ch j' have "\<forall>e. e < (j' + 2 ^ n - slot_index (mix_hash (hf (keys t ! j'))) (2 ^ n)) mod 2 ^ n \<longrightarrow>
           keys t ! ((slot_index (mix_hash (hf (keys t ! j'))) (2 ^ n) + e) mod 2 ^ n) \<noteq> 0"
      unfolding chain_ok_def by blast
    then have "?ks ! ((slot_index (mix_hash (hf (keys t ! j'))) (2 ^ n) + e) mod 2 ^ n) \<noteq> 0"
      if "e < (j' + 2 ^ n - slot_index (mix_hash (hf (keys t ! j'))) (2 ^ n)) mod 2 ^ n" for e
      using keep [of "(slot_index (mix_hash (hf (keys t ! j'))) (2 ^ n) + e) mod 2 ^ n"] that
      by simp
    then show ?thesis unfolding k by blast
  qed
  then show ?thesis unfolding chain_ok_def by simp
qed

lemma insert_one_local_inv:
  assumes ok: "table_ok n t" and ch: "chain_ok n hf t" and room: "length (filled t) < 2 ^ n"
    and key: "key \<noteq> 0"
  shows "\<exists>t'. insert_one_local t hf key v = Some t' \<and> table_ok n t' \<and> chain_ok n hf t'
           \<and> table_gc_type t' = table_gc_type t
           \<and> mset (filled t') = add_mset (key, v) (mset (filled t))"
proof -
  let ?home = "slot_index (mix_hash (hf key)) (2 ^ n)"
  from insert_one_local_total [OF ok room, of hf key v] obtain d where
    d: "d < 2 ^ n" "keys t ! ((?home + d) mod 2 ^ n) = 0"
       "\<forall>e<d. keys t ! ((?home + e) mod 2 ^ n) \<noteq> 0"
    and r: "insert_one_local t hf key v
         = Some (t \<lparr> keys := (keys t)[(?home + d) mod 2 ^ n := key],
                     vals := (vals t)[(?home + d) mod 2 ^ n := v] \<rparr>)"
    by blast
  let ?t' = "t \<lparr> keys := (keys t)[(?home + d) mod 2 ^ n := key],
                  vals := (vals t)[(?home + d) mod 2 ^ n := v] \<rparr>"
  from ok have lk: "length (keys t) = 2 ^ n" and lv: "length (vals t) = 2 ^ n"
    by (simp_all add: table_ok_def)
  have "table_ok n ?t'" using ok by (simp add: table_ok_def)
  moreover have "chain_ok n hf ?t'" by (rule chain_ok_insert [OF ok ch key d(1,3)])
  moreover have "mset (filled ?t') = add_mset (key, v) (mset (filled t))"
    by (rule filled_update) (use lk lv d key in simp_all)
  ultimately show ?thesis using r by simp
qed

lemma live_at_Cons:
  "live_at eph h old (i # rest) =
     (if slot_free eph h (keys old ! i) then live_at eph h old rest
      else (keys old ! i, vals old ! i) # live_at eph h old rest)"
  by (simp add: live_at_def)

lemma filled_le: "length (filled t) \<le> length (keys t)"
  unfolding filled_def
  by (rule order_trans [OF length_filter_le]) simp

lemma rehash_slots_total:
  assumes "table_ok n new" "chain_ok n (hash_func h) new"
    "length (filled new) + length idxs < 2 ^ n"
  shows "\<exists>new'. rehash_slots eph h old idxs new = Some new' \<and> table_ok n new'
           \<and> chain_ok n (hash_func h) new' \<and> table_gc_type new' = table_gc_type new
           \<and> mset (filled new') = mset (filled new) + mset (live_at eph h old idxs)"
  using assms
proof (induction idxs arbitrary: new)
  case Nil
  then show ?case by (simp add: live_at_def)
next
  case (Cons i rest)
  show ?case
  proof (cases "slot_free eph h (keys old ! i)")
    case True
    then have r: "rehash_slots eph h old (i # rest) new = rehash_slots eph h old rest new"
      by (auto simp: slot_free_def)
    from Cons.prems have "length (filled new) + length rest < 2 ^ n" by simp
    from Cons.IH [OF Cons.prems(1,2) this] True show ?thesis
      unfolding r by (simp add: live_at_Cons)
  next
    case False
    then have key: "keys old ! i \<noteq> 0" and nt: "\<not> key_is_tombstone eph h (keys old ! i)"
      by (simp_all add: slot_free_def)
    from Cons.prems have room: "length (filled new) < 2 ^ n" by simp
    from insert_one_local_inv [OF Cons.prems(1,2) room key, of "vals old ! i"] obtain mid where
      m: "insert_one_local new (hash_func h) (keys old ! i) (vals old ! i) = Some mid"
      and mok: "table_ok n mid" and mch: "chain_ok n (hash_func h) mid"
      and mgc: "table_gc_type mid = table_gc_type new"
      and mfill: "mset (filled mid) = add_mset (keys old ! i, vals old ! i) (mset (filled new))"
      by blast
    from mfill have "size (mset (filled mid)) = Suc (size (mset (filled new)))" by simp
    then have "length (filled mid) = Suc (length (filled new))" by simp
    with Cons.prems have "length (filled mid) + length rest < 2 ^ n" by simp
    from Cons.IH [OF mok mch this] obtain new' where
      r: "rehash_slots eph h old rest mid = Some new'" and ok': "table_ok n new'"
      and ch': "chain_ok n (hash_func h) new'" and gc': "table_gc_type new' = table_gc_type mid"
      and fill': "mset (filled new') = mset (filled mid) + mset (live_at eph h old rest)"
      by blast
    have "rehash_slots eph h old (i # rest) new = Some new'"
      using key nt m r by simp
    moreover have "mset (filled new') = mset (filled new) + mset (live_at eph h old (i # rest))"
      using fill' mfill False by (simp add: live_at_Cons)
    ultimately show ?thesis using ok' ch' gc' mgc by simp
  qed
qed

lemma int32_pow2:
  assumes "n \<le> 30" shows "int32 (2 ^ n) = 2 ^ n"
proof (rule int32_id)
  from assms have "(2::int) ^ n \<le> 2 ^ 30" by (intro power_increasing) auto
  also have "(2::int) ^ 30 < 2147483648" by simp
  finally show "(2::int) ^ n < 2147483648" .
  have "(0::int) < 2 ^ n" by simp
  then show "- 2147483648 \<le> (2::int) ^ n" by linarith
qed

lemma nat_pow2: "nat ((2::int) ^ n) = 2 ^ n"
  by (metis nat_int of_nat_numeral of_nat_power)

lemma expand_table_total:
  assumes ok: "table_ok n (table h)" and n: "n < 30"
  shows "\<exists>t1. expand_table eph h
             = Some (Inr (h \<lparr> table := t1, overflow_count := load_threshold (2 ^ Suc n) \<rparr>))
           \<and> table_ok (Suc n) t1 \<and> chain_ok (Suc n) (hash_func h) t1
           \<and> table_gc_type t1 = gc_type h
           \<and> mset (filled t1) = mset (live_entries eph h)"
proof -
  from ok have ts: "table_size (table h) = 2 ^ n" and lk: "length (keys (table h)) = 2 ^ n"
    and lv: "length (vals (table h)) = 2 ^ n" by (simp_all add: table_ok_def)
  let ?new = "\<lparr> table_size = 2 ^ Suc n, table_gc_type = gc_type h,
                keys = replicate (2 ^ Suc n) (0::gpointer), vals = replicate (2 ^ Suc n) (0::gpointer) \<rparr>"
  have sz: "int32 (table_size (table h) * EXPAND_RATIO) = 2 ^ Suc n"
    using int32_pow2 [of "Suc n"] n by (simp add: ts EXPAND_RATIO_def mult.commute)
  have new: "conc_table_new h (int32 (table_size (table h) * EXPAND_RATIO)) = Inr ?new"
    unfolding sz conc_table_new_def using nat_pow2 [of "Suc n"] by simp
  have nok: "table_ok (Suc n) ?new" by (simp add: table_ok_def)
  have nch: "chain_ok (Suc n) (hash_func h) ?new" by (simp add: chain_ok_def)
  have nfill: "filled ?new = []"
    by (auto simp: filled_def filter_empty_conv dest!: set_zip_leftD)
  have idx: "[0 ..< nat (table_size (table h))] = [0 ..< length (keys (table h))]"
    by (simp add: ts lk nat_pow2)
  have "length (filled ?new) + length [0 ..< length (keys (table h))] < 2 ^ Suc n"
    by (simp only: nfill) (simp add: lk)
  from rehash_slots_total [OF nok nch this, of eph "table h"] obtain t1 where
    r: "rehash_slots eph h (table h) [0 ..< length (keys (table h))] ?new = Some t1"
    and ok1: "table_ok (Suc n) t1" and ch1: "chain_ok (Suc n) (hash_func h) t1"
    and gc1: "table_gc_type t1 = gc_type h"
    and fill1: "mset (filled t1) = mset (filled ?new)
        + mset (live_at eph h (table h) [0 ..< length (keys (table h))])"
    by auto
  have "mset (filled t1) = mset (live_entries eph h)"
    using live_at_all [of h eph] lk lv by (simp only: fill1 nfill) simp
  moreover from ok1 have "table_size t1 = 2 ^ Suc n" by (simp add: table_ok_def)
  then have "expand_table eph h
      = Some (Inr (h \<lparr> table := t1, overflow_count := load_threshold (2 ^ Suc n) \<rparr>))"
    unfolding expand_table_def Let_def new idx using r by simp
  ultimately show ?thesis using ok1 ch1 gc1 by blast
qed

section \<open>Insert, then lookup\<close>

lemma insert_skip:
  assumes ok: "table_ok n (table h)" and i: "i < 2 ^ n"
    and d: "\<forall>e<d. \<not> insert_stop eph h key ((i + e) mod 2 ^ n)"
  shows "insert_probe eph h key v i = insert_probe eph h key v ((i + d) mod 2 ^ n)"
proof (rule probe_skip [where S = "insert_stop eph h key", OF _ i d])
  fix s :: nat assume "s < 2 ^ n" "\<not> insert_stop eph h key s"
  then have "insert_probe eph h key v s
      = insert_probe eph h key v (next_slot s (table_size (table h)))"
    by (intro insert_probe_step) (auto simp: insert_stop_def)
  with ok show "insert_probe eph h key v s = insert_probe eph h key v ((s + 1) mod 2 ^ n)"
    by (simp add: table_ok_def next_slot_pow2)
qed

lemma present_iff:
  "present eph h key \<longleftrightarrow>
     (\<exists>ck\<in>set (keys (table h)). \<not> slot_free eph h ck \<and> insert_match h key ck)"
  by (simp add: present_def list_ex_iff)

lemma lookup_match_cong:
  "gc_type h' = gc_type h \<Longrightarrow> equal_func h' = equal_func h
     \<Longrightarrow> lookup_match eph h' = lookup_match eph h"
  by (intro ext) (simp add: lookup_match_def key_is_tombstone_def split: option.splits)

lemma lookup_match_imp_insert_match:
  "lookup_match eph h key ck \<Longrightarrow> insert_match h key ck"
  by (auto simp: lookup_match_def insert_match_def split: option.splits)

lemma set_cells_insert:
  "set_key (set_value t j v) j key = t \<lparr> keys := (keys t)[j := key], vals := (vals t)[j := v] \<rparr>"
  by (simp add: set_key_def set_value_def)

lemma insert_then_lookup_probe:
  assumes ok: "table_ok n (table h)" and i: "i < 2 ^ n"
    and free: "j < 2 ^ n" "slot_free eph h (keys (table h) ! j)"
    and absent: "\<not> present eph h k"
    and k: "k \<noteq> 0" "\<not> key_is_tombstone eph h k" and v: "v \<noteq> 0"
    and refl: "insert_match h k k"
  shows "\<exists>h'. insert_probe eph h k v i = Some (0, h')
           \<and> lookup_probe eph h' k hash i = Some (True, k, v)
           \<and> frame h h'"
proof -
  from ok have ts: "table_size (table h) = 2 ^ n" and lk: "length (keys (table h)) = 2 ^ n"
    and lv: "length (vals (table h)) = 2 ^ n" by (simp_all add: table_ok_def)
  have sj: "insert_stop eph h k j" using free(2) by (simp add: insert_stop_def)
  from first_stop [of j "2 ^ n" "insert_stop eph h k" i, OF free(1) sj i] obtain d where
    d: "d < 2 ^ n" "insert_stop eph h k ((i + d) mod 2 ^ n)"
       "\<forall>e<d. \<not> insert_stop eph h k ((i + e) mod 2 ^ n)"
    by blast
  let ?s = "(i + d) mod 2 ^ n"
  have s: "?s < 2 ^ n" by simp
  have nomatch: "\<not> insert_match h k (keys (table h) ! t)"
    if "t < 2 ^ n" "\<not> slot_free eph h (keys (table h) ! t)" for t
    using absent that lk unfolding present_iff by (metis nth_mem)
  from d(2) nomatch [OF s] have fs: "slot_free eph h (keys (table h) ! ?s)"
    by (auto simp: insert_stop_def)
  let ?h' = "h \<lparr> table := set_key (set_value (table h) ?s v) ?s k,
                  element_count := int32 (element_count h + 1) \<rparr>"
  have ins: "insert_probe eph h k v i = Some (0, ?h')"
    using insert_skip [OF ok i d(3), of v] insert_probe_free [OF fs, of k v] by simp
  have ok': "table_ok n (table ?h')" using ok by (simp add: table_ok_def set_cells_insert)
  have keys': "keys (set_key (set_value (table h) ?s v) ?s k) = (keys (table h))[?s := k]"
    and vals': "vals (set_key (set_value (table h) ?s v) ?s k) = (vals (table h))[?s := v]"
    by (simp_all add: set_cells_insert)
  have lm: "lookup_match eph ?h' = lookup_match eph h" by (rule lookup_match_cong) simp_all
  have "\<not> lookup_stop eph ?h' k ((i + e) mod 2 ^ n)" if e: "e < d" for e
  proof -
    let ?t = "(i + e) mod 2 ^ n"
    from d(3) e have ns: "\<not> insert_stop eph h k ?t" by blast
    with fs have ne: "?t \<noteq> ?s" by (auto simp: insert_stop_def)
    from ns have "keys (table h) ! ?t \<noteq> 0" "\<not> insert_match h k (keys (table h) ! ?t)"
      by (auto simp: insert_stop_def slot_free_def)
    with ne lookup_match_imp_insert_match [of eph h k "keys (table h) ! ?t"] show ?thesis
      by (auto simp: lookup_stop_def keys' lm)
  qed
  then have "\<forall>e<d. \<not> lookup_stop eph ?h' k ((i + e) mod 2 ^ n)" by blast
  from lookup_skip [OF ok' i this, of hash]
  have "lookup_probe eph ?h' k hash i = lookup_probe eph ?h' k hash ?s" .
  also have "\<dots> = Some (True, keys (table ?h') ! ?s, vals (table ?h') ! ?s)"
  proof (rule lookup_probe_found)
    show "keys (table ?h') ! ?s \<noteq> 0" using k s lk by (simp add: keys')
    show "lookup_match eph ?h' k (keys (table ?h') ! ?s)"
      using k refl s lk
      by (auto simp: keys' lm lookup_match_def insert_match_def split: option.splits)
    show "vals (table ?h') ! ?s \<noteq> 0" using v s lv by (simp add: vals')
  qed
  also have "\<dots> = Some (True, k, v)" using s lk lv by (simp add: keys' vals')
  finally have "lookup_probe eph ?h' k hash i = Some (True, k, v)" .
  moreover have "frame h ?h'" by (rule frame_insert_at)
  ultimately show ?thesis using ins by blast
qed

lemma free_slot_exists:
  assumes "live_count eph h < length (keys (table h))"
  shows "\<exists>j<length (keys (table h)). slot_free eph h (keys (table h) ! j)"
proof (rule ccontr)
  assume "\<not> (\<exists>j<length (keys (table h)). slot_free eph h (keys (table h) ! j))"
  then have "\<forall>ck\<in>set (keys (table h)). \<not> slot_free eph h ck" by (auto simp: in_set_conv_nth)
  then have "filter (\<lambda>ck. \<not> slot_free eph h ck) (keys (table h)) = keys (table h)"
    by (simp add: filter_True)
  with assms show False by (simp add: live_count_def)
qed

lemma live_count_entries:
  assumes "length (keys (table h)) = length (vals (table h))"
  shows "live_count eph h = length (live_entries eph h)"
  using filled_keys [OF assms, of "\<lambda>ck. \<not> slot_free eph h ck"]
  unfolding live_count_def live_entries_def by (metis length_map)

lemma load_threshold_lt: "load_threshold (2 ^ n) < 2 ^ n"
proof -
  have "x * 3 div 4 < x" if "0 < x" for x :: int using that by linarith
  from this [of "2 ^ n"] show ?thesis by (simp add: load_threshold_def)
qed

lemma filled_key_set:
  assumes "length (keys t) = length (vals t)"
  shows "fst ` set (filled t) = {ck \<in> set (keys t). ck \<noteq> 0}"
proof -
  have "set (map fst (filled t)) = set (filter (\<lambda>ck. ck \<noteq> 0) (keys t))"
    unfolding filled_def using filled_keys [OF assms, of "\<lambda>ck. ck \<noteq> 0"] by simp
  then show ?thesis by auto
qed

lemma live_key_set:
  assumes "length (keys (table h)) = length (vals (table h))"
  shows "fst ` set (live_entries eph h) = {ck \<in> set (keys (table h)). \<not> slot_free eph h ck}"
proof -
  have "set (map fst (live_entries eph h))
      = set (filter (\<lambda>ck. \<not> slot_free eph h ck) (keys (table h)))"
    unfolding live_entries_def using filled_keys [OF assms, of "\<lambda>ck. \<not> slot_free eph h ck"]
    by simp
  then show ?thesis by auto
qed

lemma insert_match_cong:
  "equal_func h' = equal_func h \<Longrightarrow> insert_match h' = insert_match h"
  by (intro ext) (simp add: insert_match_def)

lemma key_is_tombstone_cong:
  "gc_type h' = gc_type h \<Longrightarrow> key_is_tombstone eph h' = key_is_tombstone eph h"
  by (intro ext) (simp add: key_is_tombstone_def)

text \<open>What a resize gives, in terms of the handle before it.\<close>

lemma expand_table_handle:
  assumes ok: "table_ok n (table h)" and n: "n < 30"
  obtains h1 where "expand_table eph h = Some (Inr h1)"
    "table_ok (Suc n) (table h1)" "chain_ok (Suc n) (hash_func h) (table h1)"
    "table_gc_type (table h1) = gc_type h"
    "mset (filled (table h1)) = mset (live_entries eph h)"
    "same_config h h1" "element_count h1 = element_count h"
    "overflow_count h1 = load_threshold (2 ^ Suc n)"
proof -
  from expand_table_total [OF ok n, of eph] obtain t1 where
    e: "expand_table eph h
          = Some (Inr (h \<lparr> table := t1, overflow_count := load_threshold (2 ^ Suc n) \<rparr>))"
    and r: "table_ok (Suc n) t1" "chain_ok (Suc n) (hash_func h) t1"
      "table_gc_type t1 = gc_type h" "mset (filled t1) = mset (live_entries eph h)"
    by blast
  show thesis
    by (rule that [OF e]) (use r in \<open>simp_all add: same_config_def\<close>)
qed

lemma expand_keeps_absent:
  assumes lens: "length (keys (table h)) = length (vals (table h))"
    "length (keys (table h1)) = length (vals (table h1))"
    and fill: "mset (filled (table h1)) = mset (live_entries eph h)"
    and cfg: "same_config h h1"
    and absent: "\<not> present eph h k"
  shows "\<not> present eph h1 k"
proof
  assume "present eph h1 k"
  then obtain ck where ck: "ck \<in> set (keys (table h1))" "\<not> slot_free eph h1 ck"
    "insert_match h1 k ck" unfolding present_iff by blast
  from ck(2) have "ck \<noteq> 0" by (simp add: slot_free_def)
  with ck(1) have "ck \<in> fst ` set (filled (table h1))"
    unfolding filled_key_set [OF lens(2)] by simp
  also have "set (filled (table h1)) = set (live_entries eph h)"
    using fill by (rule mset_eq_setD)
  finally have "ck \<in> set (keys (table h))" "\<not> slot_free eph h ck"
    unfolding live_key_set [OF lens(1)] by simp_all
  moreover from cfg ck(3) have "insert_match h k ck"
    using insert_match_cong [of h1 h] by (simp add: same_config_def)
  ultimately show False using absent unfolding present_iff by blast
qed

section \<open>Lookup after a resize\<close>

lemma lookup_in_chain:
  assumes ok: "table_ok m (table g)" and ch: "chain_ok m (hash_func g) (table g)"
    and j: "j < 2 ^ m" "keys (table g) ! j = k" and k: "k \<noteq> 0"
    and vj: "vals (table g) ! j \<noteq> 0"
    and match: "lookup_match eph g k k"
    and uniq: "\<And>s. s < 2 ^ m \<Longrightarrow> s \<noteq> j \<Longrightarrow> keys (table g) ! s \<noteq> 0
                 \<Longrightarrow> \<not> lookup_match eph g k (keys (table g) ! s)"
  shows "mono_conc_g_hash_table_lookup_extended eph g k = Some (True, k, vals (table g) ! j)"
proof -
  let ?hash = "mix_hash (hash_func g k)"
  let ?home = "slot_index ?hash (2 ^ m)"
  let ?D = "(j + 2 ^ m - ?home) mod 2 ^ m"
  from ok have ts: "table_size (table g) = 2 ^ m" by (simp add: table_ok_def)
  have home: "?home < 2 ^ m" by (rule slot_index_lt)
  have D: "?D < 2 ^ m" by simp
  have reach: "(?home + ?D) mod 2 ^ m = j" by (rule cyclic_reach [OF home j(1)])
  have "\<not> lookup_stop eph g k ((?home + e) mod 2 ^ m)" if e: "e < ?D" for e
  proof -
    let ?s = "(?home + e) mod 2 ^ m"
    from ch j k e have ne: "keys (table g) ! ?s \<noteq> 0"
      unfolding chain_ok_def by blast
    have "e < 2 ^ m" using e D by (rule less_trans)
    from cyclic_offset_inj [OF home D this] e reach have "?s \<noteq> j" by auto
    from uniq [OF _ this ne] ne show ?thesis by (simp add: lookup_stop_def)
  qed
  then have "\<forall>e<?D. \<not> lookup_stop eph g k ((?home + e) mod 2 ^ m)" by blast
  from lookup_skip [OF ok home this, of ?hash] reach
  have "lookup_probe eph g k ?hash ?home = lookup_probe eph g k ?hash j" by simp
  also have "\<dots> = Some (True, keys (table g) ! j, vals (table g) ! j)"
    by (rule lookup_probe_found) (use j k vj match in simp_all)
  finally show ?thesis using j(2) by (simp add: mono_conc_g_hash_table_lookup_extended_def ts)
qed

lemma lookup_absent:
  assumes ok: "table_ok m (table g)" and empty: "j < 2 ^ m" "keys (table g) ! j = 0"
    and nomatch: "\<And>s. s < 2 ^ m \<Longrightarrow> keys (table g) ! s \<noteq> 0
                    \<Longrightarrow> \<not> lookup_match eph g k (keys (table g) ! s)"
  shows "mono_conc_g_hash_table_lookup_extended eph g k = Some (False, 0, 0)"
proof -
  let ?hash = "mix_hash (hash_func g k)"
  let ?home = "slot_index ?hash (2 ^ m)"
  from ok have ts: "table_size (table g) = 2 ^ m" by (simp add: table_ok_def)
  have home: "?home < 2 ^ m" by (rule slot_index_lt)
  have sj: "lookup_stop eph g k j" using empty(2) by (simp add: lookup_stop_def)
  from first_stop [of j "2 ^ m" "lookup_stop eph g k" ?home, OF empty(1) sj home] obtain d where
    d: "d < 2 ^ m" "lookup_stop eph g k ((?home + d) mod 2 ^ m)"
       "\<forall>e<d. \<not> lookup_stop eph g k ((?home + e) mod 2 ^ m)"
    by blast
  let ?s = "(?home + d) mod 2 ^ m"
  have "?s < 2 ^ m" by simp
  with d(2) nomatch [of ?s] have "keys (table g) ! ?s = 0" by (auto simp: lookup_stop_def)
  then have "lookup_probe eph g k ?hash ?s = Some (False, 0, 0)" by (rule lookup_probe_empty)
  with lookup_skip [OF ok home d(3), of ?hash] show ?thesis
    by (simp add: mono_conc_g_hash_table_lookup_extended_def ts)
qed

lemma distinct_filter_nth:
  assumes "distinct (filter P xs)" "i < length xs" "j < length xs" "i \<noteq> j"
    "P (xs ! i)" "P (xs ! j)"
  shows "xs ! i \<noteq> xs ! j"
  using assms
proof (induction xs arbitrary: i j)
  case Nil
  then show ?case by simp
next
  case (Cons x xs)
  show ?case
  proof (cases i)
    case 0
    with Cons.prems obtain j' where j': "j = Suc j'" by (cases j) auto
    with Cons.prems 0 have "P x" "xs ! j' \<in> set (filter P xs)" by auto
    with Cons.prems(1) 0 j' show ?thesis by auto
  next
    case (Suc i')
    show ?thesis
    proof (cases j)
      case 0
      with Cons.prems Suc have "P x" "xs ! i' \<in> set (filter P xs)" by auto
      with Cons.prems(1) 0 Suc show ?thesis by auto
    next
      case (Suc j')
      with Cons.prems \<open>i = Suc i'\<close> have "distinct (filter P xs)" "i' < length xs" "j' < length xs"
        "i' \<noteq> j'" "P (xs ! i')" "P (xs ! j')" by (auto split: if_splits)
      from Cons.IH [OF this] Suc \<open>i = Suc i'\<close> show ?thesis by simp
    qed
  qed
qed

lemma slot_inv_live_value:
  assumes "slot_inv eph h" "(ck, v) \<in> set (live_entries eph h)"
  shows "v \<noteq> 0"
proof -
  from assms(2) have z: "(ck, v) \<in> set (zip (keys (table h)) (vals (table h)))"
    and nf: "\<not> slot_free eph h ck" by (auto simp: live_entries_def)
  from assms(1) z have "(v = 0) = slot_free eph h ck"
    unfolding slot_inv_def by (auto simp: list_all2_iff)
  with nf show ?thesis by simp
qed

lemma distinct_keys_iff:
  "distinct_keys eph h \<longleftrightarrow>
     distinct (map fst (live_entries eph h))
     \<and> (\<forall>a\<in>fst ` set (live_entries eph h). \<forall>b\<in>fst ` set (live_entries eph h).
           insert_match h a b = (a = b))"
  by (simp add: distinct_keys_def list_all_iff)

section \<open>The slot invariant across a resize\<close>

lemma rehash_slots_slot_inv:
  assumes "rehash_slots eph h old idxs new = Some new'"
    and "list_all2 (\<lambda>ck v. (v = 0) = slot_free eph h ck) (keys new) (vals new)"
    and "\<forall>i\<in>set idxs. \<not> slot_free eph h (keys old ! i) \<longrightarrow> vals old ! i \<noteq> 0"
  shows "list_all2 (\<lambda>ck v. (v = 0) = slot_free eph h ck) (keys new') (vals new')"
  using assms
proof (induction idxs arbitrary: new)
  case Nil
  then show ?case by simp
next
  case (Cons i rest)
  show ?case
  proof (cases "slot_free eph h (keys old ! i)")
    case True
    with Cons.prems(1) have "rehash_slots eph h old rest new = Some new'"
      by (auto simp: slot_free_def)
    from Cons.IH [OF this Cons.prems(2)] Cons.prems(3) show ?thesis by simp
  next
    case False
    then have key: "keys old ! i \<noteq> 0" and nt: "\<not> key_is_tombstone eph h (keys old ! i)"
      by (simp_all add: slot_free_def)
    with Cons.prems(1) obtain mid where
      m: "insert_one_local new (hash_func h) (keys old ! i) (vals old ! i) = Some mid"
      and r: "rehash_slots eph h old rest mid = Some new'"
      by (auto split: option.splits)
    from m obtain j where
      mid: "mid = new \<lparr> keys := (keys new)[j := keys old ! i],
                         vals := (vals new)[j := vals old ! i] \<rparr>"
      by (auto simp: insert_one_local_def set_cells split: option.splits)
    from Cons.prems(3) False have "vals old ! i \<noteq> 0" by simp
    with False have "(vals old ! i = 0) = slot_free eph h (keys old ! i)" by simp
    with Cons.prems(2) have
      "list_all2 (\<lambda>ck v. (v = 0) = slot_free eph h ck) (keys mid) (vals mid)"
      unfolding mid by (simp add: list_all2_update_cong)
    from Cons.IH [OF r this] Cons.prems(3) show ?thesis by simp
  qed
qed

lemma slot_inv_nth:
  assumes "slot_inv eph h" "i < length (keys (table h))"
  shows "(vals (table h) ! i = 0) = slot_free eph h (keys (table h) ! i)"
  using assms unfolding slot_inv_def by (simp add: list_all2_conv_all_nth)

lemma expand_table_slot_inv:
  assumes ok: "table_ok n (table h)" and inv: "slot_inv eph h"
    and e: "expand_table eph h = Some (Inr h1)"
  shows "slot_inv eph h1 \<and> modes_agree h1"
proof -
  from ok have ts: "table_size (table h) = 2 ^ n" and lk: "length (keys (table h)) = 2 ^ n"
    by (simp_all add: table_ok_def)
  let ?sz = "int32 (table_size (table h) * EXPAND_RATIO)"
  from e obtain new new' where
    n: "conc_table_new h ?sz = Inr new"
    and r: "rehash_slots eph h (table h) [0 ..< nat (table_size (table h))] new = Some new'"
    and h1: "h1 = h \<lparr> table := new', overflow_count := load_threshold (table_size new') \<rparr>"
    by (auto simp: expand_table_def Let_def split: sum.splits option.splits)
  from n have new: "new = \<lparr> table_size = ?sz, table_gc_type = gc_type h,
        keys = replicate (nat ?sz) 0, vals = replicate (nat ?sz) 0 \<rparr>"
    by (auto simp: conc_table_new_def split: if_splits)
  have i0: "list_all2 (\<lambda>ck v. (v = 0) = slot_free eph h ck) (keys new) (vals new)"
    unfolding new by (simp add: list_all2_conv_all_nth slot_free_def)
  have live: "\<forall>i\<in>set [0 ..< nat (table_size (table h))].
      \<not> slot_free eph h (keys (table h) ! i) \<longrightarrow> vals (table h) ! i \<noteq> 0"
    using slot_inv_nth [OF inv] by (simp add: ts lk nat_pow2)
  from rehash_slots_slot_inv [OF r i0 live]
  have "list_all2 (\<lambda>ck v. (v = 0) = slot_free eph h ck) (keys new') (vals new')" .
  moreover have "slot_free eph h1 = slot_free eph h" by (rule slot_free_cong) (simp add: h1)
  ultimately have "slot_inv eph h1" by (simp add: slot_inv_def h1)
  moreover from rehash_slots_frame [OF r] new have "table_gc_type new' = gc_type h"
    by (simp add: same_shape_def)
  then have "modes_agree h1" by (simp add: modes_agree_def h1)
  ultimately show ?thesis by simp
qed

lemma frame_modes_agree: "frame h h' \<Longrightarrow> modes_agree h \<Longrightarrow> modes_agree h'"
  by (simp add: frame_def same_config_def same_shape_def modes_agree_def)

lemma insert_slot_inv:
  assumes ok: "table_ok n (table h)" and inv: "slot_inv eph h"
    and k: "\<not> key_is_tombstone eph h k"
    and i: "mono_conc_g_hash_table_insert eph h k v = Some (Inr (r, h'))"
  shows "slot_inv eph h' \<and> (modes_agree h \<longrightarrow> modes_agree h')"
proof -
  from i have nz: "k \<noteq> 0" "v \<noteq> 0"
    by (auto simp: mono_conc_g_hash_table_insert_def split: if_splits)
  from i show ?thesis
  proof (cases rule: insert_cases)
    case same
    from insert_probe_slot_inv [OF same(2)] inv nz k have "slot_inv eph h'" by simp
    with insert_probe_frame [OF same(2)] frame_modes_agree [of h h'] show ?thesis by simp
  next
    case (grown h1)
    from expand_table_slot_inv [OF ok inv grown(2)] have i1: "slot_inv eph h1"
      and m1: "modes_agree h1" by simp_all
    from expand_table_frame [OF grown(2)] have "gc_type h1 = gc_type h"
      by (simp add: same_config_def)
    with k have k1: "\<not> key_is_tombstone eph h1 k" by (simp add: key_is_tombstone_def)
    from insert_probe_slot_inv [OF grown(3)] i1 nz k1 have "slot_inv eph h'" by simp
    with insert_probe_frame [OF grown(3)] frame_modes_agree [OF _ m1, of h'] show ?thesis by simp
  qed
qed

lemma remove_slot_inv:
  assumes inv: "slot_inv eph h" and m: "modes_agree h"
    and r: "mono_conc_g_hash_table_remove eph h k = Some (Inr (r, h'))"
  shows "slot_inv eph h' \<and> modes_agree h'"
proof -
  from r have "remove_probe eph h k
      (slot_index (mix_hash (hash_func h k)) (table_size (table h))) = Some (r, h')"
    by (auto simp: mono_conc_g_hash_table_remove_def split: if_splits option.splits)
  from remove_probe_slot_inv [OF this] inv m show ?thesis by simp
qed

lemma new_is_h_new: "mono_conc_g_hash_table_new_type None None MONO_HASH_CONSERVATIVE_GC = Inr h_new"
  by (simp add: h_new_def eval_defs list_eval)

lemma insert_new: "mono_conc_g_hash_table_insert 99 h_new 1 7 = Some (Inr (0, h_one))"
  by (simp add: h_new_def h_one_def eval_defs list_eval)

lemma remove_one: "mono_conc_g_hash_table_remove 99 h_one 1 = Some (Inr (7, h_id_removed))"
  by (simp add: h_one_def h_id_removed_def eval_defs list_eval)

lemma expand_full: "expand_table 99 h_full = Some (Inr h_expanded)"
  by (simp add: h_full_def h_expanded_def eval_defs list_eval expand_defs)

lemma lookup_match_identity:
  "equal_func h = None \<Longrightarrow> lookup_match eph h key ck = (key = ck)"
  by (simp add: lookup_match_def)

lemma insert_match_identity:
  "equal_func h = None \<Longrightarrow> insert_match h key ck = (key = ck)"
  by (simp add: insert_match_def)

lemma key_is_tombstone_untracked:
  "gc_type h = 0 \<Longrightarrow> key_is_tombstone eph h ck = (ck = - 1)"
  by (simp add: key_is_tombstone_def PTR_TOMBSTONE_def)

lemma modes_agree_untracked:
  "gc_type h = 0 \<Longrightarrow> table_gc_type (table h) = 0 \<Longrightarrow> modes_agree h"
  by (simp add: modes_agree_def)

lemma h_full_facts:
  "table_ok 5 (table h_full)" "gc_type h_full = 0" "equal_func h_full = None"
  "slot_inv 99 h_full" "distinct_keys 99 h_full" "0 \<in> set (keys (table h_full))"
  "match_has_value 99 h_full 17" "\<not> present 99 h_full 30"
  "(17, 117) \<in> set (live_entries 99 h_full)"
proof -
  show ok: "table_ok 5 (table h_full)" by (simp add: h_full_def table_ok_def)
  show gc: "gc_type h_full = 0" and ef: "equal_func h_full = None"
    by (simp_all add: h_full_def)
  show "slot_inv 99 h_full"
    by (simp add: slot_inv_def slot_free_untracked [OF gc]) (simp add: h_full_def)
  show "distinct_keys 99 h_full"
    by (simp add: distinct_keys_def live_entries_def slot_free_untracked [OF gc]
          insert_match_identity [OF ef])
       (simp add: h_full_def)
  show "0 \<in> set (keys (table h_full))" by (simp add: h_full_def)
  show "match_has_value 99 h_full 17"
    by (simp add: match_has_value_def lookup_match_identity [OF ef]) (simp add: h_full_def)
  show "\<not> present 99 h_full 30"
    by (simp add: present_def slot_free_untracked [OF gc] insert_match_identity [OF ef])
       (simp add: h_full_def)
  show "(17, 117) \<in> set (live_entries 99 h_full)"
    by (simp add: live_entries_def slot_free_untracked [OF gc]) (simp add: h_full_def)
qed

lemma h_id_removed_facts:
  "capacity_ok 5 h_id_removed" "count_ok 99 h_id_removed"
  "\<not> key_is_tombstone 99 h_id_removed 1" "\<not> present 99 h_id_removed 1"
  "insert_match h_id_removed 1 1"
proof -
  have gc: "gc_type h_id_removed = 0" and ef: "equal_func h_id_removed = None"
    by (simp_all add: h_id_removed_def)
  show "capacity_ok 5 h_id_removed"
    by (simp add: h_id_removed_def capacity_ok_def table_ok_def load_threshold_def)
  show "count_ok 99 h_id_removed"
    by (simp add: count_ok_def live_count_def slot_free_untracked [OF gc])
       (simp add: h_id_removed_def)
  show "\<not> key_is_tombstone 99 h_id_removed 1" by (simp add: key_is_tombstone_untracked [OF gc])
  show "\<not> present 99 h_id_removed 1"
    by (simp add: present_def slot_free_untracked [OF gc] insert_match_identity [OF ef])
       (simp add: h_id_removed_def)
  show "insert_match h_id_removed 1 1" by (simp add: insert_match_identity [OF ef])
qed

lemma h_one_facts:
  "table_ok 5 (table h_one)" "slot_inv 99 h_one" "modes_agree h_one"
proof -
  have gc: "gc_type h_one = 0" by (simp add: h_one_def)
  show "table_ok 5 (table h_one)" by (simp add: h_one_def table_ok_def)
  show "slot_inv 99 h_one"
    by (simp add: slot_inv_def slot_free_untracked [OF gc]) (simp add: h_one_def)
  show "modes_agree h_one" by (rule modes_agree_untracked) (simp_all add: h_one_def)
qed

section \<open>Counting live slots\<close>

lemma filter_update_le:
  "length (filter P (xs[i := x])) \<le> Suc (length (filter P xs))"
  by (induction xs arbitrary: i) (auto split: nat.splits)

lemma filter_update_drop:
  "i < length xs \<Longrightarrow> P (xs ! i) \<Longrightarrow> \<not> P m
     \<Longrightarrow> Suc (length (filter P (xs[i := m]))) = length (filter P xs)"
  by (induction xs arbitrary: i) (auto split: nat.splits)

lemma live_count_insert_at:
  "live_count eph (h \<lparr> table := set_key (set_value (table h) i v) i key, element_count := c \<rparr>)
     \<le> Suc (live_count eph h)"
proof -
  have "slot_free eph (h \<lparr> table := set_key (set_value (table h) i v) i key,
      element_count := c \<rparr>) = slot_free eph h"
    by (rule slot_free_cong) simp
  then show ?thesis
    by (simp add: live_count_def set_cells_insert filter_update_le)
qed

lemma load_threshold_bound: "n \<le> 30 \<Longrightarrow> load_threshold (2 ^ n) \<le> 805306368"
proof -
  assume "n \<le> 30"
  then have "(2::int) ^ n \<le> 2 ^ 30" by (intro power_increasing) auto
  then show ?thesis by (simp add: load_threshold_def)
qed

lemma count_ok_insert_at:
  assumes "count_ok eph h"
  shows "count_ok eph (h \<lparr> table := set_key (set_value (table h) i v) i key,
                            element_count := element_count h + 1 \<rparr>)"
  using assms live_count_insert_at
    [where eph = eph and h = h and i = i and v = v and key = key and c = "element_count h + 1"]
  by (simp add: count_ok_def)

lemma int32_succ:
  assumes "0 \<le> c" "c \<le> 805306368" shows "int32 (c + 1) = c + 1"
  using assms by (intro int32_id) simp_all

lemma insert_probe_count:
  assumes "insert_probe eph h key v i = Some y"
  shows "count_ok eph h \<and> element_count h \<le> 805306368
           \<longrightarrow> count_ok eph (snd y) \<and> element_count (snd y) \<le> element_count h + 1"
proof (rule insert_probe.raw_induct
    [where P = "\<lambda>eph h key v _ y. count_ok eph h \<and> element_count h \<le> 805306368
           \<longrightarrow> count_ok eph (snd y) \<and> element_count (snd y) \<le> element_count h + 1",
     OF _ assms], goal_cases)
  case (1 f eph h key v i y)
  show ?case
  proof (intro impI)
    assume a: "count_ok eph h \<and> element_count h \<le> 805306368"
    then have nn: "0 \<le> element_count h" by (simp add: count_ok_def)
    note s = int32_succ [OF nn] count_ok_insert_at
    from 1 a show "count_ok eph (snd y) \<and> element_count (snd y) \<le> element_count h + 1"
      by (cases "equal_func h") (auto split: if_splits simp: s)
  qed
qed

lemma live_count_remove_at:
  assumes "modes_agree h" "i < length (keys (table h))" "\<not> slot_free eph h (keys (table h) ! i)"
    and "gc_type h' = gc_type h"
    and "table h' = set_key_to_tombstone eph ((table h) \<lparr> vals := (vals (table h))[i := 0] \<rparr>) i"
  shows "Suc (live_count eph h') = live_count eph h"
proof -
  let ?m = "if table_gc_type (table h) AND MONO_HASH_KEY_GC \<noteq> 0 then eph else PTR_TOMBSTONE"
  have sf: "slot_free eph h' = slot_free eph h" using assms(4) by (rule slot_free_cong)
  have k: "keys (table h') = (keys (table h))[i := ?m]"
    by (simp add: assms(5) set_key_to_tombstone_def)
  have "\<not> (\<lambda>ck. \<not> slot_free eph h ck) ?m" using tombstone_marker_free [OF assms(1)] by simp
  from filter_update_drop [of i "keys (table h)" "\<lambda>ck. \<not> slot_free eph h ck" ?m, OF assms(2) assms(3) this]
  show ?thesis by (simp add: live_count_def sf k)
qed

lemma count_ok_remove_shapes:
  assumes "count_ok eph h" "modes_agree h" "i < length (keys (table h))"
    "\<not> slot_free eph h (keys (table h) ! i)" "element_count h \<le> 805306368"
  shows "count_ok eph (h \<lparr> table := set_key_to_tombstone eph
              ((table h) \<lparr> vals := (vals (table h))[i := 0] \<rparr>) i,
            element_count := int32 (element_count h - 1), destroy_calls := d \<rparr>)"
    and "count_ok eph (h \<lparr> table := set_key_to_tombstone eph
              ((table h) \<lparr> vals := (vals (table h))[i := 0] \<rparr>) i,
            destroy_calls := d \<rparr>)"
    and "int32 (element_count h - 1) \<le> element_count h"
proof -
  let ?t = "set_key_to_tombstone eph ((table h) \<lparr> vals := (vals (table h))[i := 0] \<rparr>) i"
  have l1: "Suc (live_count eph (h \<lparr> table := ?t, element_count := int32 (element_count h - 1),
      destroy_calls := d \<rparr>)) = live_count eph h"
    by (rule live_count_remove_at [OF assms(2,3,4)]) simp_all
  have l2: "Suc (live_count eph (h \<lparr> table := ?t, destroy_calls := d \<rparr>)) = live_count eph h"
    by (rule live_count_remove_at [OF assms(2,3,4)]) simp_all
  from l1 have "1 \<le> int (live_count eph h)" by linarith
  with assms(1) have ge: "1 \<le> element_count h" by (simp add: count_ok_def)
  with assms(5) have i32: "int32 (element_count h - 1) = element_count h - 1"
    by (intro int32_id) simp_all
  from l1 assms(1) show "count_ok eph (h \<lparr> table := ?t,
      element_count := int32 (element_count h - 1), destroy_calls := d \<rparr>)"
    unfolding count_ok_def i32 by (simp, linarith?)
  from l2 assms(1) show "count_ok eph (h \<lparr> table := ?t, destroy_calls := d \<rparr>)"
    unfolding count_ok_def by (simp, linarith?)
  from i32 show "int32 (element_count h - 1) \<le> element_count h" by simp
qed

lemma next_slot_lt: "next_slot i (2 ^ n) < 2 ^ n"
  by (simp add: next_slot_pow2)

lemma remove_probe_count:
  assumes "remove_probe eph h key i = Some y"
  shows "table_ok n (table h) \<and> i < 2 ^ n \<and> count_ok eph h \<and> modes_agree h \<and> key \<noteq> 0
           \<and> \<not> key_is_tombstone eph h key \<and> element_count h \<le> 805306368
         \<longrightarrow> count_ok eph (snd y) \<and> element_count (snd y) \<le> element_count h"
proof (rule remove_probe.raw_induct
    [where P = "\<lambda>eph h key i y. table_ok n (table h) \<and> i < 2 ^ n \<and> count_ok eph h
           \<and> modes_agree h \<and> key \<noteq> 0 \<and> \<not> key_is_tombstone eph h key
           \<and> element_count h \<le> 805306368
         \<longrightarrow> count_ok eph (snd y) \<and> element_count (snd y) \<le> element_count h",
     OF _ assms], goal_cases)
  case (1 f eph h key i y)
  show ?case
  proof (intro impI)
    assume a: "table_ok n (table h) \<and> i < 2 ^ n \<and> count_ok eph h \<and> modes_agree h \<and> key \<noteq> 0
           \<and> \<not> key_is_tombstone eph h key \<and> element_count h \<le> 805306368"
    then have ts: "table_size (table h) = 2 ^ n" and il: "i < length (keys (table h))"
      by (simp_all add: table_ok_def)
    have nx: "next_slot i (table_size (table h)) < 2 ^ n" unfolding ts by (rule next_slot_lt)
    have live: "\<not> slot_free eph h (keys (table h) ! i)"
      if "keys (table h) ! i \<noteq> 0" "\<not> key_is_tombstone eph h (keys (table h) ! i)"
      using that by (simp add: slot_free_def)
    note s = count_ok_remove_shapes [OF _ _ il]
    from 1 a nx live show "count_ok eph (snd y) \<and> element_count (snd y) \<le> element_count h"
      by (cases "equal_func h") (auto split: if_splits simp: s)
  qed
qed


section \<open>The invariant of a table in use\<close>

lemma expand_live_entries:
  assumes ok: "table_ok n (table h)" and n: "n < 30"
    and e: "expand_table eph h = Some (Inr h1)"
  shows "mset (live_entries eph h1) = mset (live_entries eph h)"
proof -
  from ok have lk: "length (keys (table h)) = 2 ^ n" and lv: "length (vals (table h)) = 2 ^ n"
    by (simp_all add: table_ok_def)
  from expand_table_handle [OF ok n, of eph] e have ok1: "table_ok (Suc n) (table h1)"
    and fill: "mset (filled (table h1)) = mset (live_entries eph h)"
    and cfg: "same_config h h1"
    by (metis option.inject sum.inject(2))+
  from ok1 have lk1: "length (keys (table h1)) = 2 ^ Suc n"
    and lv1: "length (vals (table h1)) = 2 ^ Suc n" by (simp_all add: table_ok_def)
  have len1: "length (keys (table h1)) = length (vals (table h1))" by (simp add: lk1 lv1)
  have len: "length (keys (table h)) = length (vals (table h))" by (simp add: lk lv)
  from cfg have gc: "gc_type h1 = gc_type h" by (simp add: same_config_def)
  have sf: "slot_free eph h1 = slot_free eph h" using gc by (rule slot_free_cong)
  have sets: "set (filled (table h1)) = set (live_entries eph h)"
    using fill by (rule mset_eq_setD)
  have "live_entries eph h1 = filled (table h1)"
    unfolding live_entries_def filled_def
  proof (rule filter_cong [OF refl])
    fix x assume x: "x \<in> set (zip (keys (table h1)) (vals (table h1)))"
    obtain ck v where xv: "x = (ck, v)" by (cases x)
    with x have mem: "ck \<in> set (keys (table h1))" by (auto dest: set_zip_leftD)
    have "(\<not> slot_free eph h1 ck) = (ck \<noteq> 0)"
    proof (cases "ck = 0")
      case True
      then show ?thesis by (simp add: slot_free_def)
    next
      case False
      with mem have "ck \<in> {ck \<in> set (keys (table h1)). ck \<noteq> 0}" by simp
      then have "ck \<in> fst ` set (live_entries eph h)"
        unfolding filled_key_set [OF len1, symmetric] sets .
      then have "\<not> slot_free eph h ck" unfolding live_key_set [OF len] by simp
      with False show ?thesis by (simp add: sf)
    qed
    then show "(case x of (ck, v) \<Rightarrow> \<not> slot_free eph h1 ck) = (case x of (ck, v) \<Rightarrow> ck \<noteq> 0)"
      by (simp add: xv)
  qed
  with fill show ?thesis by simp
qed

lemma load_threshold_pow2: "2 \<le> n \<Longrightarrow> load_threshold (2 ^ n) = 3 * 2 ^ (n - 2)"
proof -
  assume "2 \<le> n"
  then obtain m where n: "n = m + 2" by (metis add.commute le_Suc_ex)
  have "(2::int) ^ (m + 2) = 4 * 2 ^ m" by (simp add: power_add)
  then show ?thesis by (simp add: n load_threshold_def)
qed

lemma load_threshold_grows:
  assumes "5 \<le> n" shows "load_threshold (2 ^ n) + 1 \<le> load_threshold (2 ^ Suc n)"
proof -
  from assms have "2 \<le> n" by simp
  then obtain m where n: "n = m + 2" by (metis add.commute le_Suc_ex)
  have "load_threshold (2 ^ n) = 3 * 2 ^ m" using load_threshold_pow2 [of n] n by simp
  moreover have "load_threshold (2 ^ Suc n) = 3 * 2 ^ Suc m"
    using load_threshold_pow2 [of "Suc n"] n by simp
  moreover have "(1::int) \<le> 2 ^ m" by simp
  then have "(1::int) \<le> 3 * 2 ^ m" by linarith
  ultimately show ?thesis by simp
qed

lemma handle_inv_new:
  assumes "mono_conc_g_hash_table_new_type hf ef ty = Inr h" "ty AND MONO_HASH_KEY_GC = 0"
  shows "handle_inv 5 eph h"
proof -
  from assms have "modes_agree h \<and> count_ok eph h \<and> element_count h \<le> overflow_count h"
    by (auto simp: mono_conc_g_hash_table_new_type_def conc_table_new_def INITIAL_SIZE_def Let_def
          modes_agree_def count_ok_def live_count_def slot_free_def load_threshold_def
        split: if_splits)
  with new_type_capacity [OF assms(1)] slot_inv_new_type [OF assms(1)] show ?thesis
    by (simp add: handle_inv_def)
qed

lemma handle_inv_expand:
  assumes inv: "handle_inv n eph h" and e: "expand_table eph h = Some (Inr h1)"
  shows "capacity_ok (Suc n) h1 \<and> slot_inv eph h1 \<and> modes_agree h1 \<and> count_ok eph h1
           \<and> element_count h1 = element_count h \<and> gc_type h1 = gc_type h"
proof -
  from inv have cap: "capacity_ok n h" and si: "slot_inv eph h" and cnt: "count_ok eph h"
    by (simp_all add: handle_inv_def)
  from cap have ok: "table_ok n (table h)" by (simp add: capacity_ok_def)
  from ok have lk: "length (keys (table h)) = 2 ^ n" and lv: "length (vals (table h)) = 2 ^ n"
    by (simp_all add: table_ok_def)
  from expand_capacity [OF cap e] have cap1: "capacity_ok (Suc n) h1" .
  then have n30: "n < 30" and ok1: "table_ok (Suc n) (table h1)" by (simp_all add: capacity_ok_def)
  from ok1 have lk1: "length (keys (table h1)) = 2 ^ Suc n"
    and lv1: "length (vals (table h1)) = 2 ^ Suc n" by (simp_all add: table_ok_def)
  from expand_live_entries [OF ok n30 e]
  have "size (mset (live_entries eph h1)) = size (mset (live_entries eph h))" by simp
  then have "live_count eph h1 = live_count eph h"
    using live_count_entries [of h eph] live_count_entries [of h1 eph] lk lv lk1 lv1 by simp
  moreover from expand_table_frame [OF e] have f: "element_count h1 = element_count h"
    "gc_type h1 = gc_type h" by (simp_all add: same_config_def)
  ultimately have "count_ok eph h1" using cnt by (simp add: count_ok_def)
  with cap1 expand_table_slot_inv [OF ok si e] f show ?thesis by simp
qed

lemma handle_inv_insert:
  assumes inv: "handle_inv n eph h" and k: "\<not> key_is_tombstone eph h k"
    and i: "mono_conc_g_hash_table_insert eph h k v = Some (Inr (r, h'))"
  shows "handle_inv (if overflow_count h \<le> element_count h then Suc n else n) eph h'"
proof -
  from inv have cap: "capacity_ok n h" and si: "slot_inv eph h" and ma: "modes_agree h"
    and cnt: "count_ok eph h" and le: "element_count h \<le> overflow_count h"
    by (simp_all add: handle_inv_def)
  from cap have ok: "table_ok n (table h)" and oc: "overflow_count h = load_threshold (2 ^ n)"
    and n5: "5 \<le> n" and n30: "n \<le> 30" by (simp_all add: capacity_ok_def)
  from le oc load_threshold_bound [OF n30] have b: "element_count h \<le> 805306368" by simp
  note cap' = insert_capacity [OF cap i]
  from insert_slot_inv [OF ok si k i] ma have si': "slot_inv eph h'" and ma': "modes_agree h'"
    by simp_all
  from i have "count_ok eph h' \<and> element_count h' \<le> overflow_count h'"
  proof (cases rule: insert_cases)
    case same
    from insert_probe_count [OF same(2)] cnt b have "count_ok eph h'"
      "element_count h' \<le> element_count h + 1" by simp_all
    moreover from insert_probe_frame [OF same(2)] have "overflow_count h' = overflow_count h"
      by (simp add: frame_def)
    ultimately show ?thesis using same(1) by simp
  next
    case (grown h1)
    from handle_inv_expand [OF inv grown(2)] have c1: "count_ok eph h1"
      and e1: "element_count h1 = element_count h" and cap1: "capacity_ok (Suc n) h1" by simp_all
    from insert_probe_count [OF grown(3)] c1 e1 b have "count_ok eph h'"
      "element_count h' \<le> element_count h + 1" by simp_all
    moreover from insert_probe_frame [OF grown(3)] cap1
    have "overflow_count h' = load_threshold (2 ^ Suc n)"
      by (simp add: frame_def capacity_ok_def)
    ultimately show ?thesis using le oc load_threshold_grows [OF n5] by simp
  qed
  with cap' si' ma' show ?thesis by (simp add: handle_inv_def)
qed

lemma handle_inv_remove:
  assumes inv: "handle_inv n eph h" and k: "\<not> key_is_tombstone eph h k"
    and r: "mono_conc_g_hash_table_remove eph h k = Some (Inr (r, h'))"
  shows "handle_inv n eph h'"
proof -
  from inv have cap: "capacity_ok n h" and si: "slot_inv eph h" and ma: "modes_agree h"
    and cnt: "count_ok eph h" and le: "element_count h \<le> overflow_count h"
    by (simp_all add: handle_inv_def)
  from cap have ok: "table_ok n (table h)" and oc: "overflow_count h = load_threshold (2 ^ n)"
    and n30: "n \<le> 30" by (simp_all add: capacity_ok_def)
  from ok have ts: "table_size (table h) = 2 ^ n" by (simp add: table_ok_def)
  from le oc load_threshold_bound [OF n30] have b: "element_count h \<le> 805306368" by simp
  from r have k0: "k \<noteq> 0" and p: "remove_probe eph h k
      (slot_index (mix_hash (hash_func h k)) (table_size (table h))) = Some (r, h')"
    by (auto simp: mono_conc_g_hash_table_remove_def split: if_splits option.splits)
  have "slot_index (mix_hash (hash_func h k)) (table_size (table h)) < 2 ^ n"
    unfolding ts by (rule slot_index_lt)
  with remove_probe_count [OF p, of n] ok cnt ma k0 k b have "count_ok eph h'"
    "element_count h' \<le> element_count h" by simp_all
  moreover from remove_frame [OF r] have "overflow_count h' = overflow_count h" by simp
  ultimately show ?thesis
    using remove_capacity [OF cap r] remove_slot_inv [OF si ma r] le
    by (simp add: handle_inv_def)
qed

lemma usable_handle_inv: "usable eph h \<Longrightarrow> \<exists>n. handle_inv n eph h"
proof (induction rule: usable.induct)
  case (usable_new hf ef ty h)
  from handle_inv_new [OF this] show ?case ..
next
  case (usable_insert h k v r h')
  then obtain n where "handle_inv n eph h" by blast
  from handle_inv_insert [OF this usable_insert.hyps(2,3)] show ?case ..
next
  case (usable_remove h k r h')
  then obtain n where "handle_inv n eph h" by blast
  from handle_inv_remove [OF this usable_remove.hyps(2,3)] show ?case ..
qed

lemma slot_inv_match_has_value:
  assumes "slot_inv eph h" "\<not> key_is_tombstone eph h k"
  shows "match_has_value eph h k"
proof -
  have "ck \<noteq> 0 \<and> lookup_match eph h k ck \<longrightarrow> v \<noteq> 0"
    if "(v = 0) = slot_free eph h ck" for ck v
    using that assms(2)
    by (auto simp: slot_free_def lookup_match_def split: option.splits)
  with assms(1) show ?thesis
    unfolding slot_inv_def match_has_value_def
    by (auto elim!: list_all2_mono)
qed


section \<open>Tables in use\<close>

lemma usable_gc_type: "usable eph h \<Longrightarrow> gc_type h AND MONO_HASH_KEY_GC = 0"
proof (induction rule: usable.induct)
  case (usable_new hf ef ty h)
  then show ?case
    by (auto simp: mono_conc_g_hash_table_new_type_def conc_table_new_def INITIAL_SIZE_def Let_def
        split: if_splits)
next
  case (usable_insert h k v r h')
  with insert_frame [OF usable_insert.hyps(3)] show ?case by (simp add: same_config_def)
next
  case (usable_remove h k r h')
  with remove_frame [OF usable_remove.hyps(3)] show ?case by (simp add: same_config_def)
qed

lemma usable_tombstone: "usable eph h \<Longrightarrow> key_is_tombstone eph h k = (k = PTR_TOMBSTONE)"
  using usable_gc_type [of eph h] by (simp add: key_is_tombstone_def)

lemma run_ops_usable:
  "usable eph h \<Longrightarrow> list_all (\<lambda>x. op_key x \<noteq> PTR_TOMBSTONE) ops
     \<Longrightarrow> run_ops eph h ops = Some (rs, h') \<Longrightarrow> usable eph h'"
proof (induction ops arbitrary: h rs)
  case Nil
  then show ?case by simp
next
  case (Cons x xs)
  from Cons.prems(3) obtain r h1 rs' where
    step: "apply_op eph h x = Some (Inr (r, h1))" and rest: "run_ops eph h1 xs = Some (rs', h')"
    by (auto split: option.splits sum.splits prod.splits)
  from Cons.prems(2) have kx: "\<not> key_is_tombstone eph h (op_key x)"
    and more: "list_all (\<lambda>x. op_key x \<noteq> PTR_TOMBSTONE) xs"
    using usable_tombstone [OF Cons.prems(1)] by simp_all
  have "usable eph h1"
  proof (cases x)
    case (Insert k v)
    with step kx Cons.prems(1) show ?thesis by (auto intro: usable_insert)
  next
    case (Remove k)
    with step kx Cons.prems(1) show ?thesis by (auto intro: usable_remove)
  qed
  from Cons.IH [OF this more rest] show ?case .
qed

lemma run_new_usable:
  assumes "run_new eph hf ef ty ops = Some (rs, h)" "ty AND MONO_HASH_KEY_GC = 0"
    "list_all (\<lambda>x. op_key x \<noteq> PTR_TOMBSTONE) ops"
  shows "usable eph h"
proof -
  from assms(1) obtain h0 where n: "mono_conc_g_hash_table_new_type hf ef ty = Inr h0"
    and r: "run_ops eph h0 ops = Some (rs, h)"
    by (auto simp: run_new_def split: sum.splits)
  from usable_new [OF n assms(2)] have "usable eph h0" .
  from run_ops_usable [OF this assms(3) r] show ?thesis .
qed

lemma usable_full: "usable 99 h_full"
proof (rule run_new_usable [OF run_full])
  show "MONO_HASH_CONSERVATIVE_GC AND MONO_HASH_KEY_GC = 0"
    by (simp add: MONO_HASH_CONSERVATIVE_GC_def)
  show "list_all (\<lambda>x. op_key x \<noteq> PTR_TOMBSTONE) filling_ops"
    by (simp add: filling_ops_def upt_conv_Cons PTR_TOMBSTONE_def)
qed

lemma usable_id_removed: "usable 99 h_id_removed"
proof (rule run_new_usable [OF run_id_removed])
  show "MONO_HASH_CONSERVATIVE_GC AND MONO_HASH_KEY_GC = 0"
    by (simp add: MONO_HASH_CONSERVATIVE_GC_def)
  show "list_all (\<lambda>x. op_key x \<noteq> PTR_TOMBSTONE) [Insert 1 7, Remove 1]"
    by (simp add: PTR_TOMBSTONE_def)
qed

lemma capacity_ok_lt:
  assumes "capacity_ok n h" "table_size (table h) < 2 ^ 30" shows "n < 30"
proof (rule ccontr)
  assume "\<not> n < 30"
  then have "(2::int) ^ 30 \<le> 2 ^ n" by (intro power_increasing) simp_all
  with assms show False by (simp add: capacity_ok_def table_ok_def)
qed


section \<open>Inserting an absent key\<close>

lemma insert_absent_lookup:
  assumes cap: "capacity_ok n h" and n: "n < 30 \<or> element_count h < overflow_count h"
    and cnt: "count_ok eph h"
    and k: "k \<noteq> 0" "\<not> key_is_tombstone eph h k" and v: "v \<noteq> 0"
    and absent: "\<not> present eph h k" and refl: "insert_match h k k"
  shows "\<exists>h'. mono_conc_g_hash_table_insert eph h k v = Some (Inr (0, h'))
           \<and> mono_conc_g_hash_table_lookup_extended eph h' k = Some (True, k, v)"
proof -
  let ?hash = "mix_hash (hash_func h k)"
  from cap have ok: "table_ok n (table h)" and oc: "overflow_count h = load_threshold (2 ^ n)"
    by (simp_all add: capacity_ok_def)
  from ok have ts: "table_size (table h) = 2 ^ n" and lk: "length (keys (table h)) = 2 ^ n"
    and lv: "length (vals (table h)) = 2 ^ n" by (simp_all add: table_ok_def)
  have found: "\<exists>h'. insert_probe eph g k v (slot_index ?hash (table_size (table g))) = Some (0, h')
      \<and> mono_conc_g_hash_table_lookup_extended eph h' k = Some (True, k, v)"
    if g: "table_ok m (table g)" "same_config h g" "\<not> present eph g k"
      "j < 2 ^ m" "slot_free eph g (keys (table g) ! j)" for g m j
  proof -
    from g(1) have gts: "table_size (table g) = 2 ^ m" by (simp add: table_ok_def)
    from g(2) have cfg: "gc_type g = gc_type h" "equal_func g = equal_func h"
      "hash_func g = hash_func h" by (simp_all add: same_config_def)
    have home: "slot_index ?hash (2 ^ m) < 2 ^ m" by (rule slot_index_lt)
    have kt: "\<not> key_is_tombstone eph g k"
      using k(2) key_is_tombstone_cong [OF cfg(1), of eph] by simp
    have rf: "insert_match g k k" using refl insert_match_cong [OF cfg(2)] by simp
    from insert_then_lookup_probe [OF g(1) home g(4,5,3) k(1) kt v rf, of ?hash] obtain h' where
      i: "insert_probe eph g k v (slot_index ?hash (2 ^ m)) = Some (0, h')"
      and l: "lookup_probe eph h' k ?hash (slot_index ?hash (2 ^ m)) = Some (True, k, v)"
      and f: "frame g h'" by blast
    from f cfg gts have "hash_func h' = hash_func h" "table_size (table h') = 2 ^ m"
      by (simp_all add: frame_def same_config_def same_shape_def)
    with l have "mono_conc_g_hash_table_lookup_extended eph h' k = Some (True, k, v)"
      by (simp add: mono_conc_g_hash_table_lookup_extended_def)
    with i show ?thesis unfolding gts by blast
  qed
  show ?thesis
  proof (cases "element_count h < overflow_count h")
    case True
    from cnt True oc load_threshold_lt [of n] have "int (live_count eph h) < 2 ^ n"
      unfolding count_ok_def by linarith
    then have "live_count eph h < length (keys (table h))" unfolding lk
      by (metis of_nat_less_iff of_nat_numeral of_nat_power)
    from free_slot_exists [OF this] lk obtain j where
      j: "j < 2 ^ n" "slot_free eph h (keys (table h) ! j)" by auto
    from found [OF ok same_config_refl absent j] True k(1) v show ?thesis
      by (auto simp: mono_conc_g_hash_table_insert_def)
  next
    case False
    with n have n30: "n < 30" by simp
    from expand_table_handle [OF ok n30, of eph] obtain h1 where
      e: "expand_table eph h = Some (Inr h1)" and ok1: "table_ok (Suc n) (table h1)"
      and fill: "mset (filled (table h1)) = mset (live_entries eph h)"
      and cfg: "same_config h h1"
      by metis
    from ok1 have lk1: "length (keys (table h1)) = 2 ^ Suc n"
      and lv1: "length (vals (table h1)) = 2 ^ Suc n" by (simp_all add: table_ok_def)
    from fill have "size (mset (filled (table h1))) = size (mset (live_entries eph h))" by simp
    then have "length (filled (table h1)) = live_count eph h"
      using live_count_entries [of h eph] lk lv by simp
    also have "live_count eph h \<le> 2 ^ n"
      unfolding live_count_def using length_filter_le [of _ "keys (table h)"] lk by simp
    also have "(2::nat) ^ n < 2 ^ Suc n" by simp
    finally have "length (filled (table h1)) < length (keys (table h1))" by (simp add: lk1)
    from empty_slot_exists [OF _ this] lk1 lv1 obtain j where
      j: "j < 2 ^ Suc n" "keys (table h1) ! j = 0" by auto
    then have fj: "slot_free eph h1 (keys (table h1) ! j)" by (simp add: slot_free_def)
    have ab1: "\<not> present eph h1 k"
      by (rule expand_keeps_absent [OF _ _ fill cfg absent]) (simp_all add: lk lv lk1 lv1)
    from found [OF ok1 cfg ab1 j(1) fj] False e k(1) v show ?thesis
      by (auto simp: mono_conc_g_hash_table_insert_def)
  qed
qed


section \<open>The first stop of a probe\<close>

lemma probe_path_all:
  "list_all P (probe_path n home d) = (\<forall>e<d. P ((home + e) mod 2 ^ n))"
  by (auto simp: probe_path_def list_all_iff)

lemma home_slot_lt: "home_slot hf n key < 2 ^ n"
  unfolding home_slot_def slot_index_pow2 [symmetric] by (rule slot_index_lt)

lemma remove_probe_found_at:
  assumes "keys (table h) ! i \<noteq> 0" "lookup_match eph h key (keys (table h) ! i)"
  shows "remove_probe eph h key i = Some (vals (table h) ! i, remove_at eph h i)"
proof (cases "equal_func h")
  case None
  with assms show ?thesis
    by (subst remove_probe.simps) (auto simp: lookup_match_def remove_at_def)
next
  case (Some eq)
  with assms show ?thesis
    by (subst remove_probe.simps) (auto simp: lookup_match_def remove_at_def)
qed

lemma lookup_first_stop:
  assumes ok: "table_ok n (table h)" and d: "d < 2 ^ n"
    and path: "list_all (\<lambda>j. \<not> lookup_stop eph h k j) (probe_path n (home_slot (hash_func h) n k) d)"
    and stop: "lookup_stop eph h k ((home_slot (hash_func h) n k + d) mod 2 ^ n)"
    and mv: "match_has_value eph h k"
  shows "mono_conc_g_hash_table_lookup_extended eph h k
           = Some (let s = (home_slot (hash_func h) n k + d) mod 2 ^ n in
                   if keys (table h) ! s = 0 then (False, 0, 0)
                   else (True, keys (table h) ! s, vals (table h) ! s))"
proof -
  let ?hash = "mix_hash (hash_func h k)"
  let ?home = "home_slot (hash_func h) n k"
  let ?s = "(?home + d) mod 2 ^ n"
  from ok have ts: "table_size (table h) = 2 ^ n" and lk: "length (keys (table h)) = 2 ^ n"
    and lv: "length (vals (table h)) = 2 ^ n" by (simp_all add: table_ok_def)
  have hs: "slot_index ?hash (2 ^ n) = ?home" by (simp add: home_slot_def slot_index_pow2)
  have home: "?home < 2 ^ n" by (rule home_slot_lt)
  from path have p: "\<forall>e<d. \<not> lookup_stop eph h k ((?home + e) mod 2 ^ n)"
    by (simp add: probe_path_all)
  have s: "?s < 2 ^ n" by simp
  have "mono_conc_g_hash_table_lookup_extended eph h k = lookup_probe eph h k ?hash ?s"
    unfolding mono_conc_g_hash_table_lookup_extended_def ts hs
    by (rule lookup_skip [OF ok home p])
  also have "\<dots> = Some (if keys (table h) ! ?s = 0 then (False, 0, 0)
              else (True, keys (table h) ! ?s, vals (table h) ! ?s))"
  proof (cases "keys (table h) ! ?s = 0")
    case True
    then show ?thesis by (simp add: lookup_probe_empty)
  next
    case False
    with stop have m: "lookup_match eph h k (keys (table h) ! ?s)" by (simp add: lookup_stop_def)
    from mv s lk have "keys (table h) ! ?s \<noteq> 0 \<and> lookup_match eph h k (keys (table h) ! ?s)
        \<longrightarrow> vals (table h) ! ?s \<noteq> 0"
      unfolding match_has_value_def by (simp add: list_all2_conv_all_nth)
    with False m have "vals (table h) ! ?s \<noteq> 0" by simp
    from lookup_probe_found [OF False m this] False show ?thesis by simp
  qed
  finally show ?thesis by (simp add: Let_def)
qed

lemma remove_first_stop:
  assumes ok: "table_ok n (table h)" and d: "d < 2 ^ n"
    and path: "list_all (\<lambda>j. \<not> lookup_stop eph h k j) (probe_path n (home_slot (hash_func h) n k) d)"
    and stop: "lookup_stop eph h k ((home_slot (hash_func h) n k + d) mod 2 ^ n)"
    and k: "k \<noteq> 0"
  shows "mono_conc_g_hash_table_remove eph h k
           = Some (Inr (let s = (home_slot (hash_func h) n k + d) mod 2 ^ n in
                        if keys (table h) ! s = 0 then (0, h)
                        else (vals (table h) ! s, remove_at eph h s)))"
proof -
  let ?hash = "mix_hash (hash_func h k)"
  let ?home = "home_slot (hash_func h) n k"
  let ?s = "(?home + d) mod 2 ^ n"
  from ok have ts: "table_size (table h) = 2 ^ n" by (simp add: table_ok_def)
  have hs: "slot_index ?hash (2 ^ n) = ?home" by (simp add: home_slot_def slot_index_pow2)
  have home: "?home < 2 ^ n" by (rule home_slot_lt)
  from path have p: "\<forall>e<d. \<not> lookup_stop eph h k ((?home + e) mod 2 ^ n)"
    by (simp add: probe_path_all)
  have "remove_probe eph h k ?home = remove_probe eph h k ?s"
    by (rule remove_skip [OF ok home p])
  also have "\<dots> = Some (if keys (table h) ! ?s = 0 then (0, h)
              else (vals (table h) ! ?s, remove_at eph h ?s))"
  proof (cases "keys (table h) ! ?s = 0")
    case True
    then show ?thesis by (simp add: remove_probe_empty)
  next
    case False
    with stop have m: "lookup_match eph h k (keys (table h) ! ?s)" by (simp add: lookup_stop_def)
    from remove_probe_found_at [OF False m] False show ?thesis by simp
  qed
  finally show ?thesis using k by (simp add: mono_conc_g_hash_table_remove_def ts hs Let_def)
qed

lemma insert_first_stop:
  assumes k: "k \<noteq> 0" and v: "v \<noteq> 0"
    and g: "if overflow_count h \<le> element_count h then expand_table eph h = Some (Inr g)
            else g = h"
    and ok: "table_ok m (table g)" and d: "d < 2 ^ m"
    and path: "list_all (\<lambda>j. \<not> insert_stop eph g k j) (probe_path m (home_slot (hash_func h) m k) d)"
    and stop: "insert_stop eph g k ((home_slot (hash_func h) m k + d) mod 2 ^ m)"
  shows "mono_conc_g_hash_table_insert eph h k v
           = Some (Inr (let s = (home_slot (hash_func h) m k + d) mod 2 ^ m in
                        if slot_free eph g (keys (table g) ! s) then (0, insert_at g s k v)
                        else (vals (table g) ! s, g)))"
proof -
  let ?hash = "mix_hash (hash_func h k)"
  let ?home = "home_slot (hash_func h) m k"
  let ?s = "(?home + d) mod 2 ^ m"
  from ok have ts: "table_size (table g) = 2 ^ m" by (simp add: table_ok_def)
  have hs: "slot_index ?hash (2 ^ m) = ?home" by (simp add: home_slot_def slot_index_pow2)
  have home: "?home < 2 ^ m" by (rule home_slot_lt)
  from path have p: "\<forall>e<d. \<not> insert_stop eph g k ((?home + e) mod 2 ^ m)"
    by (simp add: probe_path_all)
  have "insert_probe eph g k v ?home = insert_probe eph g k v ?s"
    by (rule insert_skip [OF ok home p])
  also have "\<dots> = Some (if slot_free eph g (keys (table g) ! ?s) then (0, insert_at g ?s k v)
              else (vals (table g) ! ?s, g))"
  proof (cases "slot_free eph g (keys (table g) ! ?s)")
    case True
    then show ?thesis by (simp add: insert_probe_free insert_at_def)
  next
    case False
    with stop have "insert_match g k (keys (table g) ! ?s)" by (simp add: insert_stop_def)
    from insert_probe_present [OF False this] False show ?thesis by simp
  qed
  finally have probe: "insert_probe eph g k v (slot_index ?hash (table_size (table g)))
      = Some (if slot_free eph g (keys (table g) ! ?s) then (0, insert_at g ?s k v)
              else (vals (table g) ! ?s, g))" by (simp add: ts hs)
  show ?thesis
  proof (cases "overflow_count h \<le> element_count h")
    case True
    with g have "expand_table eph h = Some (Inr g)" by simp
    with True k v probe show ?thesis
      by (simp add: mono_conc_g_hash_table_insert_def Let_def)
  next
    case False
    with g have "g = h" by simp
    with False k v probe show ?thesis
      by (simp add: mono_conc_g_hash_table_insert_def Let_def)
  qed
qed

lemma insert_one_local_first_empty:
  assumes ok: "table_ok n t" and d: "d < 2 ^ n"
    and path: "list_all (\<lambda>j. keys t ! j \<noteq> 0) (probe_path n (home_slot hf n k) d)"
    and stop: "keys t ! ((home_slot hf n k + d) mod 2 ^ n) = 0"
  shows "insert_one_local t hf k v
           = Some (let s = (home_slot hf n k + d) mod 2 ^ n in set_value (set_key t s k) s v)"
proof -
  let ?home = "home_slot hf n k"
  from ok have ts: "table_size t = 2 ^ n" by (simp add: table_ok_def)
  have hs: "slot_index (mix_hash (hf k)) (2 ^ n) = ?home" by (simp add: home_slot_def slot_index_pow2)
  have home: "?home < 2 ^ n" by (rule home_slot_lt)
  from path have p: "\<forall>e<d. keys t ! ((?home + e) mod 2 ^ n) \<noteq> 0" by (simp add: probe_path_all)
  have "probe_empty t ?home = probe_empty t ((?home + d) mod 2 ^ n)"
    by (rule probe_empty_skip [OF ok home p])
  also have "\<dots> = Some ((?home + d) mod 2 ^ n)" using stop by (rule probe_empty_stop)
  finally show ?thesis by (simp add: insert_one_local_def ts hs Let_def)
qed

lemma h_full_probe:
  "home_slot (hash_func h_full) 5 17 = 23" "probe_path 5 23 1 = [23]"
  "\<not> lookup_stop 99 h_full 17 23" "lookup_stop 99 h_full 17 24"
  "keys (table h_full) ! 24 = 17" "vals (table h_full) ! 24 = 117"
  "home_slot (hash_func h_full) 6 25 = 18" "probe_path 6 18 0 = []"
  "overflow_count h_full \<le> element_count h_full"
proof -
  have ef: "equal_func h_full = None" by (simp add: h_full_def)
  show "home_slot (hash_func h_full) 5 17 = 23" "home_slot (hash_func h_full) 6 25 = 18"
    by (simp_all add: h_full_def home_slot_def mix_hash_def g_direct_hash_def)
  show "probe_path 5 23 1 = [23]" "probe_path 6 18 0 = []" by (simp_all add: probe_path_def)
  show "\<not> lookup_stop 99 h_full 17 23" "lookup_stop 99 h_full 17 24"
    by (simp_all add: lookup_stop_def lookup_match_identity [OF ef]) (simp_all add: h_full_def)
  show "keys (table h_full) ! 24 = 17" "vals (table h_full) ! 24 = 117"
    "overflow_count h_full \<le> element_count h_full"
    by (simp_all add: h_full_def)
qed

lemma h_expanded_probe:
  "table_ok 6 (table h_expanded)" "insert_stop 99 h_expanded 25 18"
  "slot_free 99 h_expanded (keys (table h_expanded) ! 18)"
proof -
  have gc: "gc_type h_expanded = 0" by (simp add: h_expanded_def)
  show "table_ok 6 (table h_expanded)" by (simp add: h_expanded_def table_ok_def)
  show "slot_free 99 h_expanded (keys (table h_expanded) ! 18)"
    by (simp add: slot_free_untracked [OF gc]) (simp add: h_expanded_def)
  then show "insert_stop 99 h_expanded 25 18" by (simp add: insert_stop_def)
qed

lemma h_one_probe:
  "home_slot (hash_func h_one) 5 40 = 3" "probe_path 5 3 1 = [3]"
  "\<not> insert_stop 99 h_one 40 3" "insert_stop 99 h_one 40 4"
  "slot_free 99 h_one (keys (table h_one) ! 4)"
  "\<not> overflow_count h_one \<le> element_count h_one"
  "keys (table h_one) ! 3 \<noteq> 0" "keys (table h_one) ! 4 = 0"
  "hash_func h_one = g_direct_hash"
proof -
  have gc: "gc_type h_one = 0" and ef: "equal_func h_one = None" by (simp_all add: h_one_def)
  show "home_slot (hash_func h_one) 5 40 = 3"
    by (simp add: h_one_def home_slot_def mix_hash_def g_direct_hash_def)
  show "probe_path 5 3 1 = [3]" by (simp add: probe_path_def)
  show "\<not> insert_stop 99 h_one 40 3" "insert_stop 99 h_one 40 4"
    "slot_free 99 h_one (keys (table h_one) ! 4)"
    by (simp_all add: insert_stop_def slot_free_untracked [OF gc] insert_match_identity [OF ef])
       (simp_all add: h_one_def)
  show "\<not> overflow_count h_one \<le> element_count h_one"
    "keys (table h_one) ! 3 \<noteq> 0" "keys (table h_one) ! 4 = 0" "hash_func h_one = g_direct_hash"
    by (simp_all add: h_one_def)
qed


section \<open>Probes that stop and probes that do not\<close>

lemma can_stop_iff:
  assumes "table_ok n (table h)"
  shows "can_stop eph h k \<longleftrightarrow> (\<exists>j<2 ^ n. lookup_stop eph h k j)"
proof -
  from assms have lk: "length (keys (table h)) = 2 ^ n" by (simp add: table_ok_def)
  show ?thesis
    unfolding can_stop_def lookup_stop_def list_ex_iff
    by (metis (no_types, lifting) in_set_conv_nth lk)
qed

lemma lookup_probe_no_stop:
  assumes "lookup_probe eph h key hash i = Some y"
  shows "\<not> (table_ok n (table h) \<and> (\<forall>j<2 ^ n. \<not> lookup_stop eph h key j) \<and> i < 2 ^ n)"
proof (rule lookup_probe.raw_induct
    [where P = "\<lambda>eph h key hash i y.
        \<not> (table_ok n (table h) \<and> (\<forall>j<2 ^ n. \<not> lookup_stop eph h key j) \<and> i < 2 ^ n)",
     OF _ assms])
  fix f :: "gpointer \<Rightarrow> MonoConcGHashTable \<Rightarrow> gpointer \<Rightarrow> 32 word \<Rightarrow> nat \<Rightarrow> (bool \<times> gpointer \<times> gpointer) option"
    and eph h key hash i y
  assume IH: "\<And>eph h key hash i y. f eph h key hash i = Some y \<Longrightarrow>
      \<not> (table_ok n (table h) \<and> (\<forall>j<2 ^ n. \<not> lookup_stop eph h key j) \<and> i < 2 ^ n)"
  assume body: "(case equal_func h of
        None \<Rightarrow>
          (if keys (table h) ! i \<noteq> 0 then
             (if key = keys (table h) ! i then
                (if vals (table h) ! i = 0
                 then f eph h key hash (slot_index hash (table_size (table h)))
                 else Some (True, keys (table h) ! i, vals (table h) ! i))
              else f eph h key hash (next_slot i (table_size (table h))))
           else Some (False, 0, 0))
      | Some equal \<Rightarrow>
          (if keys (table h) ! i \<noteq> 0 then
             (if \<not> key_is_tombstone eph h (keys (table h) ! i) \<and> equal key (keys (table h) ! i) then
                (if vals (table h) ! i = 0
                 then f eph h key hash (slot_index hash (table_size (table h)))
                 else Some (True, keys (table h) ! i, vals (table h) ! i))
              else f eph h key hash (next_slot i (table_size (table h))))
           else Some (False, 0, 0))) = Some y"
  show "\<not> (table_ok n (table h) \<and> (\<forall>j<2 ^ n. \<not> lookup_stop eph h key j) \<and> i < 2 ^ n)"
  proof
    assume a: "table_ok n (table h) \<and> (\<forall>j<2 ^ n. \<not> lookup_stop eph h key j) \<and> i < 2 ^ n"
    then have ts: "table_size (table h) = 2 ^ n" by (simp add: table_ok_def)
    have nx: "next_slot i (2 ^ n) < 2 ^ n" by (simp add: next_slot_pow2)
    from a have "\<not> lookup_stop eph h key i" by simp
    then have k0: "keys (table h) ! i \<noteq> 0" and nm: "\<not> lookup_match eph h key (keys (table h) ! i)"
      by (simp_all add: lookup_stop_def)
    from body k0 nm have "f eph h key hash (next_slot i (2 ^ n)) = Some y"
      by (auto simp: lookup_match_def ts split: option.splits)
    from IH [OF this] a nx show False by simp
  qed
qed

lemma remove_probe_no_stop:
  assumes "remove_probe eph h key i = Some y"
  shows "\<not> (table_ok n (table h) \<and> (\<forall>j<2 ^ n. \<not> lookup_stop eph h key j) \<and> i < 2 ^ n)"
proof (rule remove_probe.raw_induct
    [where P = "\<lambda>eph h key i y.
        \<not> (table_ok n (table h) \<and> (\<forall>j<2 ^ n. \<not> lookup_stop eph h key j) \<and> i < 2 ^ n)",
     OF _ assms])
  fix f :: "gpointer \<Rightarrow> MonoConcGHashTable \<Rightarrow> gpointer \<Rightarrow> nat \<Rightarrow> (gpointer \<times> MonoConcGHashTable) option"
    and eph h key i y
  assume IH: "\<And>eph h key i y. f eph h key i = Some y \<Longrightarrow>
      \<not> (table_ok n (table h) \<and> (\<forall>j<2 ^ n. \<not> lookup_stop eph h key j) \<and> i < 2 ^ n)"
  assume body: "(case equal_func h of
        None \<Rightarrow>
          (if keys (table h) ! i = 0 then Some (0, h)
           else if key = keys (table h) ! i
           then Some (vals (table h) ! i, h
                  \<lparr> table := set_key_to_tombstone eph
                       ((table h) \<lparr> vals := (vals (table h))[i := 0] \<rparr>) i,
                    element_count := int32 (element_count h - 1),
                    destroy_calls := run_destroy h (keys (table h) ! i) (vals (table h) ! i) \<rparr>)
           else f eph h key (next_slot i (table_size (table h))))
      | Some equal \<Rightarrow>
          (if keys (table h) ! i = 0 then Some (0, h)
           else if \<not> key_is_tombstone eph h (keys (table h) ! i) \<and> equal key (keys (table h) ! i)
           then Some (vals (table h) ! i, h
                  \<lparr> table := set_key_to_tombstone eph
                       ((table h) \<lparr> vals := (vals (table h))[i := 0] \<rparr>) i,
                    destroy_calls := run_destroy h (keys (table h) ! i) (vals (table h) ! i) \<rparr>)
           else f eph h key (next_slot i (table_size (table h))))) = Some y"
  show "\<not> (table_ok n (table h) \<and> (\<forall>j<2 ^ n. \<not> lookup_stop eph h key j) \<and> i < 2 ^ n)"
  proof
    assume a: "table_ok n (table h) \<and> (\<forall>j<2 ^ n. \<not> lookup_stop eph h key j) \<and> i < 2 ^ n"
    then have ts: "table_size (table h) = 2 ^ n" by (simp add: table_ok_def)
    have nx: "next_slot i (2 ^ n) < 2 ^ n" by (simp add: next_slot_pow2)
    from a have "\<not> lookup_stop eph h key i" by simp
    then have k0: "keys (table h) ! i \<noteq> 0" and nm: "\<not> lookup_match eph h key (keys (table h) ! i)"
      by (simp_all add: lookup_stop_def)
    from body k0 nm have "f eph h key (next_slot i (2 ^ n)) = Some y"
      by (auto simp: lookup_match_def ts split: option.splits)
    from IH [OF this] a nx show False by simp
  qed
qed

lemma no_stop_no_result:
  assumes ok: "table_ok n (table h)" and ns: "\<not> can_stop eph h k"
  shows "mono_conc_g_hash_table_lookup_extended eph h k = None"
    and "k \<noteq> 0 \<Longrightarrow> mono_conc_g_hash_table_remove eph h k = None"
proof -
  from ok have ts: "table_size (table h) = 2 ^ n" by (simp add: table_ok_def)
  from ns have all: "\<forall>j<2 ^ n. \<not> lookup_stop eph h k j" by (simp add: can_stop_iff [OF ok])
  let ?home = "slot_index (mix_hash (hash_func h k)) (2 ^ n)"
  have home: "?home < 2 ^ n" by (rule slot_index_lt)
  have "lookup_probe eph h k (mix_hash (hash_func h k)) ?home = None"
  proof (cases "lookup_probe eph h k (mix_hash (hash_func h k)) ?home")
    case (Some y)
    from lookup_probe_no_stop [OF this, of n] ok all home show ?thesis by blast
  qed simp
  then show "mono_conc_g_hash_table_lookup_extended eph h k = None"
    by (simp add: mono_conc_g_hash_table_lookup_extended_def ts)
  have "remove_probe eph h k ?home = None"
  proof (cases "remove_probe eph h k ?home")
    case (Some y)
    from remove_probe_no_stop [OF this, of n] ok all home show ?thesis by blast
  qed simp
  then show "k \<noteq> 0 \<Longrightarrow> mono_conc_g_hash_table_remove eph h k = None"
    by (simp add: mono_conc_g_hash_table_remove_def ts)
qed

lemma insert_probe_total:
  assumes ok: "table_ok m (table g)" and j: "j < 2 ^ m" "insert_stop eph g k j"
    and i: "i < 2 ^ m"
  shows "\<exists>r. insert_probe eph g k v i = Some r"
proof -
  from first_stop [of j "2 ^ m" "insert_stop eph g k" i, OF j i] obtain d where
    d: "d < 2 ^ m" "insert_stop eph g k ((i + d) mod 2 ^ m)"
       "\<forall>e<d. \<not> insert_stop eph g k ((i + e) mod 2 ^ m)"
    by blast
  let ?s = "(i + d) mod 2 ^ m"
  have "insert_probe eph g k v i = insert_probe eph g k v ?s"
    by (rule insert_skip [OF ok i d(3)])
  moreover have "\<exists>r. insert_probe eph g k v ?s = Some r"
  proof (cases "slot_free eph g (keys (table g) ! ?s)")
    case True
    then show ?thesis by (simp add: insert_probe_free)
  next
    case False
    with d(2) have "insert_match g k (keys (table g) ! ?s)" by (simp add: insert_stop_def)
    from insert_probe_present [OF False this] show ?thesis by simp
  qed
  ultimately show ?thesis by simp
qed

lemma expand_table_full:
  assumes "table_ok 30 (table h)"
  shows "expand_table eph h = Some (Inl AllocationFailure)"
proof -
  from assms have "table_size (table h) = 1073741824" by (simp add: table_ok_def)
  then show ?thesis
    by (simp add: expand_table_def conc_table_new_def EXPAND_RATIO_def int32_def Let_def)
qed

lemma expand_table_returns:
  assumes "capacity_ok n h" shows "\<exists>r. expand_table eph h = Some r"
proof (cases "n < 30")
  case True
  from assms have "table_ok n (table h)" by (simp add: capacity_ok_def)
  from expand_table_total [OF this True, of eph] show ?thesis by blast
next
  case False
  from assms have "n \<le> 30" and ok: "table_ok n (table h)" by (simp_all add: capacity_ok_def)
  with False have "n = 30" by simp
  with ok have "table_ok 30 (table h)" by simp
  from expand_table_full [OF this, of eph] show ?thesis by simp
qed

lemma handle_inv_insert_returns:
  assumes inv: "handle_inv n eph h"
  shows "\<exists>r. mono_conc_g_hash_table_insert eph h k v = Some r"
proof (cases "k = 0 \<or> v = 0")
  case True
  then show ?thesis by (auto simp: mono_conc_g_hash_table_insert_def)
next
  case False
  then have k: "k \<noteq> 0" and v: "v \<noteq> 0" by simp_all
  from inv have cap: "capacity_ok n h" and cnt: "count_ok eph h" by (simp_all add: handle_inv_def)
  from cap have ok: "table_ok n (table h)" and oc: "overflow_count h = load_threshold (2 ^ n)"
    and n30: "n \<le> 30" by (simp_all add: capacity_ok_def)
  from ok have ts: "table_size (table h) = 2 ^ n" and lk: "length (keys (table h)) = 2 ^ n"
    and lv: "length (vals (table h)) = 2 ^ n" by (simp_all add: table_ok_def)
  show ?thesis
  proof (cases "element_count h < overflow_count h")
    case True
    from cnt True oc load_threshold_lt [of n] have "int (live_count eph h) < 2 ^ n"
      unfolding count_ok_def by linarith
    then have "live_count eph h < length (keys (table h))" unfolding lk
      by (metis of_nat_less_iff of_nat_numeral of_nat_power)
    from free_slot_exists [OF this] lk obtain j where
      j: "j < 2 ^ n" "slot_free eph h (keys (table h) ! j)" by auto
    then have sj: "insert_stop eph h k j" by (simp add: insert_stop_def)
    from insert_probe_total [OF ok j(1) sj slot_index_lt, of v "mix_hash (hash_func h k)"]
    obtain r where "insert_probe eph h k v (slot_index (mix_hash (hash_func h k)) (2 ^ n)) = Some r"
      by blast
    with True k v show ?thesis by (simp add: mono_conc_g_hash_table_insert_def ts)
  next
    case False
    show ?thesis
    proof (cases "n < 30")
      case True
      from expand_table_handle [OF ok True, of eph] obtain h1 where
        e: "expand_table eph h = Some (Inr h1)" and ok1: "table_ok (Suc n) (table h1)"
        and fill: "mset (filled (table h1)) = mset (live_entries eph h)"
        by metis
      from ok1 have ts1: "table_size (table h1) = 2 ^ Suc n"
        and lk1: "length (keys (table h1)) = 2 ^ Suc n"
        and lv1: "length (vals (table h1)) = 2 ^ Suc n" by (simp_all add: table_ok_def)
      from fill have "size (mset (filled (table h1))) = size (mset (live_entries eph h))" by simp
      then have "length (filled (table h1)) = live_count eph h"
        using live_count_entries [of h eph] lk lv by simp
      also have "live_count eph h \<le> 2 ^ n"
        unfolding live_count_def using length_filter_le [of _ "keys (table h)"] lk by simp
      also have "(2::nat) ^ n < 2 ^ Suc n" by simp
      finally have "length (filled (table h1)) < length (keys (table h1))" by (simp add: lk1)
      from empty_slot_exists [OF _ this] lk1 lv1 obtain j where
        j: "j < 2 ^ Suc n" "keys (table h1) ! j = 0" by auto
      then have sj: "insert_stop eph h1 k j" by (simp add: insert_stop_def slot_free_def)
      from insert_probe_total [OF ok1 j(1) sj slot_index_lt, of v "mix_hash (hash_func h k)"]
      obtain r where
        "insert_probe eph h1 k v (slot_index (mix_hash (hash_func h k)) (2 ^ Suc n)) = Some r"
        by blast
      with False e k v show ?thesis by (simp add: mono_conc_g_hash_table_insert_def ts1)
    next
      case n: False
      with n30 ok have "table_ok 30 (table h)" by simp
      from expand_table_full [OF this, of eph] False k v show ?thesis
        by (simp add: mono_conc_g_hash_table_insert_def)
    qed
  qed
qed

lemma lookup_remove_first_stop:
  assumes ok: "table_ok n (table h)" and j: "j < 2 ^ n" and sj: "lookup_stop eph h k j"
    and k: "k \<noteq> 0" and mv: "match_has_value eph h k"
  shows "\<exists>d<2 ^ n.
      (\<forall>e<d. \<not> lookup_stop eph h k ((slot_index (mix_hash (hash_func h k)) (2 ^ n) + e) mod 2 ^ n))
    \<and> lookup_stop eph h k ((slot_index (mix_hash (hash_func h k)) (2 ^ n) + d) mod 2 ^ n)
    \<and> mono_conc_g_hash_table_lookup_extended eph h k
        = Some (if keys (table h) ! ((slot_index (mix_hash (hash_func h k)) (2 ^ n) + d) mod 2 ^ n) = 0
                then (False, 0, 0)
                else (True, keys (table h) ! ((slot_index (mix_hash (hash_func h k)) (2 ^ n) + d) mod 2 ^ n),
                      vals (table h) ! ((slot_index (mix_hash (hash_func h k)) (2 ^ n) + d) mod 2 ^ n)))
    \<and> (\<exists>h'. mono_conc_g_hash_table_remove eph h k
        = Some (Inr (if keys (table h) ! ((slot_index (mix_hash (hash_func h k)) (2 ^ n) + d) mod 2 ^ n) = 0
                     then 0
                     else vals (table h) ! ((slot_index (mix_hash (hash_func h k)) (2 ^ n) + d) mod 2 ^ n), h')))"
proof -
  let ?hash = "mix_hash (hash_func h k)"
  let ?home = "slot_index ?hash (2 ^ n)"
  from ok have ts: "table_size (table h) = 2 ^ n" and lk: "length (keys (table h)) = 2 ^ n"
    and lv: "length (vals (table h)) = 2 ^ n"
    by (simp_all add: table_ok_def)
  have home: "?home < 2 ^ n" by (rule slot_index_lt)
  from first_stop [of j "2 ^ n" "lookup_stop eph h k" ?home, OF j sj home] obtain d where
    d: "d < 2 ^ n" "lookup_stop eph h k ((?home + d) mod 2 ^ n)"
       "\<forall>e<d. \<not> lookup_stop eph h k ((?home + e) mod 2 ^ n)"
    by blast
  let ?s = "(?home + d) mod 2 ^ n"
  have s: "?s < 2 ^ n" by simp
  have look: "lookup_probe eph h k ?hash ?s
      = Some (if keys (table h) ! ?s = 0 then (False, 0, 0)
              else (True, keys (table h) ! ?s, vals (table h) ! ?s))"
  proof (cases "keys (table h) ! ?s = 0")
    case True
    then show ?thesis by (simp add: lookup_probe_empty)
  next
    case False
    with d(2) have m: "lookup_match eph h k (keys (table h) ! ?s)" by (simp add: lookup_stop_def)
    from mv s lk have "keys (table h) ! ?s \<noteq> 0 \<and> lookup_match eph h k (keys (table h) ! ?s)
        \<longrightarrow> vals (table h) ! ?s \<noteq> 0"
      unfolding match_has_value_def by (simp add: list_all2_conv_all_nth)
    with False m have "vals (table h) ! ?s \<noteq> 0" by simp
    from lookup_probe_found [OF False m this] False show ?thesis by simp
  qed
  have rem: "\<exists>h'. remove_probe eph h k ?s
      = Some (if keys (table h) ! ?s = 0 then 0 else vals (table h) ! ?s, h')"
  proof (cases "keys (table h) ! ?s = 0")
    case True
    then show ?thesis by (simp add: remove_probe_empty)
  next
    case False
    with d(2) have m: "lookup_match eph h k (keys (table h) ! ?s)" by (simp add: lookup_stop_def)
    from remove_probe_found [OF False m] False show ?thesis by simp
  qed
  have "mono_conc_g_hash_table_lookup_extended eph h k = lookup_probe eph h k ?hash ?s"
    unfolding mono_conc_g_hash_table_lookup_extended_def ts
    by (rule lookup_skip [OF ok home d(3)])
  with look have l: "mono_conc_g_hash_table_lookup_extended eph h k
      = Some (if keys (table h) ! ?s = 0 then (False, 0, 0)
              else (True, keys (table h) ! ?s, vals (table h) ! ?s))" by simp
  have "remove_probe eph h k ?home = remove_probe eph h k ?s"
    by (rule remove_skip [OF ok home d(3)])
  with rem k have r: "\<exists>h'. mono_conc_g_hash_table_remove eph h k
      = Some (Inr (if keys (table h) ! ?s = 0 then 0 else vals (table h) ! ?s, h'))"
    by (auto simp: mono_conc_g_hash_table_remove_def ts)
  from d l r show ?thesis by blast
qed

lemma usable_saturated: "usable 99 h_saturated"
proof -
  from saturate obtain rs where
    r: "run_new 99 None None MONO_HASH_CONSERVATIVE_GC saturating_ops = Some (rs, h_saturated)"
    by auto
  show ?thesis
  proof (rule run_new_usable [OF r])
    show "MONO_HASH_CONSERVATIVE_GC AND MONO_HASH_KEY_GC = 0"
      by (simp add: MONO_HASH_CONSERVATIVE_GC_def)
    show "list_all (\<lambda>x. op_key x \<noteq> PTR_TOMBSTONE) saturating_ops"
      by (simp add: saturating_ops_def upt_conv_Cons PTR_TOMBSTONE_def)
  qed
qed

lemma insert_saturated:
  "mono_conc_g_hash_table_insert 99 h_saturated 38 138 = Some (Inr (0, h_saturated_one))"
  by (simp add: h_saturated_def h_saturated_one_def eval_defs list_eval)

lemma usable_saturated_one: "usable 99 h_saturated_one"
proof (rule usable_insert [OF usable_saturated _ insert_saturated])
  have "gc_type h_saturated = 0" by (simp add: h_saturated_def)
  then show "\<not> key_is_tombstone 99 h_saturated 38" by (simp add: key_is_tombstone_untracked)
qed

lemma h_saturated_facts:
  "table_ok 5 (table h_saturated)" "\<not> can_stop 99 h_saturated 38"
proof -
  have ef: "equal_func h_saturated = None" by (simp add: h_saturated_def)
  show "table_ok 5 (table h_saturated)" by (simp add: h_saturated_def table_ok_def)
  show "\<not> can_stop 99 h_saturated 38"
    by (simp add: can_stop_def lookup_match_identity [OF ef]) (simp add: h_saturated_def)
qed

lemma h_saturated_one_facts:
  "0 \<notin> set (keys (table h_saturated_one))"
  "\<not> key_is_tombstone 99 h_saturated_one 38" "\<not> key_is_tombstone 99 h_saturated_one 39"
  "can_stop 99 h_saturated_one 38" "\<not> can_stop 99 h_saturated_one 39"
  "list_all2 (\<lambda>ck v. (ck = 0 \<or> lookup_match 99 h_saturated_one 38 ck) = (ck = 38 \<and> v = 138))
     (keys (table h_saturated_one)) (vals (table h_saturated_one))"
proof -
  have gc: "gc_type h_saturated_one = 0" and ef: "equal_func h_saturated_one = None"
    by (simp_all add: h_saturated_one_def)
  show "0 \<notin> set (keys (table h_saturated_one))" by (simp add: h_saturated_one_def)
  show "\<not> key_is_tombstone 99 h_saturated_one 38" "\<not> key_is_tombstone 99 h_saturated_one 39"
    by (simp_all add: key_is_tombstone_untracked [OF gc])
  show "can_stop 99 h_saturated_one 38" "\<not> can_stop 99 h_saturated_one 39"
    by (simp_all add: can_stop_def lookup_match_identity [OF ef]) (simp_all add: h_saturated_one_def)
  show "list_all2 (\<lambda>ck v. (ck = 0 \<or> lookup_match 99 h_saturated_one 38 ck) = (ck = 38 \<and> v = 138))
     (keys (table h_saturated_one)) (vals (table h_saturated_one))"
    by (simp add: lookup_match_identity [OF ef]) (simp add: h_saturated_one_def)
qed

lemma h_id_removed_probe:
  "can_stop 99 h_id_removed 1" "keys (table h_id_removed) ! 3 = PTR_TOMBSTONE"
  "slot_index (mix_hash (hash_func h_id_removed 1)) (2 ^ 5) = 3"
  "list_all (\<lambda>ck. (ck = 0 \<or> lookup_match 99 h_id_removed 1 ck) = (ck = 0))
     (keys (table h_id_removed))"
proof -
  have ef: "equal_func h_id_removed = None" by (simp add: h_id_removed_def)
  show "can_stop 99 h_id_removed 1"
    by (simp add: can_stop_def lookup_match_identity [OF ef]) (simp add: h_id_removed_def)
  show "keys (table h_id_removed) ! 3 = PTR_TOMBSTONE"
    by (simp add: h_id_removed_def PTR_TOMBSTONE_def)
  show "slot_index (mix_hash (hash_func h_id_removed 1)) (2 ^ 5) = 3"
    by (simp add: h_id_removed_def slot_index_def mix_hash_def g_direct_hash_def)
  show "list_all (\<lambda>ck. (ck = 0 \<or> lookup_match 99 h_id_removed 1 ck) = (ck = 0))
     (keys (table h_id_removed))"
    by (simp add: lookup_match_identity [OF ef]) (simp add: h_id_removed_def)
qed


section \<open>Runs of inserts\<close>

lemma no_tombstones_free:
  assumes "no_tombstones eph h" "ck \<in> set (keys (table h))"
  shows "slot_free eph h ck = (ck = 0)"
  using assms by (auto simp: no_tombstones_def list_all_iff)

lemma no_tombstones_live:
  assumes "no_tombstones eph h" shows "live_entries eph h = filled (table h)"
  unfolding live_entries_def filled_def
proof (rule filter_cong [OF refl])
  fix x assume x: "x \<in> set (zip (keys (table h)) (vals (table h)))"
  obtain ck v where xv: "x = (ck, v)" by (cases x)
  with x have "ck \<in> set (keys (table h))" by (auto dest: set_zip_leftD)
  from no_tombstones_free [OF assms this]
  show "(case x of (ck, v) \<Rightarrow> \<not> slot_free eph h ck) = (case x of (ck, v) \<Rightarrow> ck \<noteq> 0)"
    by (simp add: xv)
qed

lemma insert_place:
  assumes ok: "table_ok m (table g)" and ch: "chain_ok m (hash_func g) (table g)"
    and nt: "no_tombstones eph g" and room: "length (filled (table g)) < 2 ^ m"
    and k: "k \<noteq> 0" "\<not> key_is_tombstone eph g k"
    and fresh: "\<forall>b\<in>fst ` set (filled (table g)). \<not> insert_match g k b"
  shows "\<exists>g'. insert_probe eph g k v (slot_index (mix_hash (hash_func g k)) (2 ^ m)) = Some (0, g')
           \<and> table_ok m (table g') \<and> chain_ok m (hash_func g) (table g') \<and> no_tombstones eph g'
           \<and> mset (filled (table g')) = add_mset (k, v) (mset (filled (table g)))
           \<and> same_config g g' \<and> overflow_count g' = overflow_count g
           \<and> element_count g' = int32 (element_count g + 1)"
proof -
  let ?home = "slot_index (mix_hash (hash_func g k)) (2 ^ m)"
  from ok have ts: "table_size (table g) = 2 ^ m" and lk: "length (keys (table g)) = 2 ^ m"
    and lv: "length (vals (table g)) = 2 ^ m" by (simp_all add: table_ok_def)
  have len: "length (keys (table g)) = length (vals (table g))" by (simp add: lk lv)
  have stop: "insert_stop eph g k i = (keys (table g) ! i = 0)" if i: "i < 2 ^ m" for i
  proof (cases "keys (table g) ! i = 0")
    case True
    then show ?thesis by (simp add: insert_stop_def slot_free_def)
  next
    case False
    from i lk have mem: "keys (table g) ! i \<in> set (keys (table g))" by simp
    with False have "keys (table g) ! i \<in> fst ` set (filled (table g))"
      unfolding filled_key_set [OF len] by simp
    with fresh have "\<not> insert_match g k (keys (table g) ! i)" by blast
    with no_tombstones_free [OF nt mem] False show ?thesis by (simp add: insert_stop_def)
  qed
  from room lk have "length (filled (table g)) < length (keys (table g))" by simp
  from empty_slot_exists [OF len this] lk obtain j where
    j: "j < 2 ^ m" "keys (table g) ! j = 0" by auto
  from j stop have sj: "insert_stop eph g k j" by simp
  have home: "?home < 2 ^ m" by (rule slot_index_lt)
  from first_stop [of j "2 ^ m" "insert_stop eph g k" ?home, OF j(1) sj home] obtain d where
    d: "d < 2 ^ m" "insert_stop eph g k ((?home + d) mod 2 ^ m)"
       "\<forall>e<d. \<not> insert_stop eph g k ((?home + e) mod 2 ^ m)"
    by blast
  let ?s = "(?home + d) mod 2 ^ m"
  have s: "?s < 2 ^ m" by simp
  from d(2) stop [OF s] have ks: "keys (table g) ! ?s = 0" by simp
  then have fs: "slot_free eph g (keys (table g) ! ?s)" by (simp add: slot_free_def)
  have path: "\<forall>e<d. keys (table g) ! ((?home + e) mod 2 ^ m) \<noteq> 0"
  proof (intro allI impI)
    fix e assume "e < d"
    with d(3) have "\<not> insert_stop eph g k ((?home + e) mod 2 ^ m)" by simp
    moreover have "(?home + e) mod 2 ^ m < 2 ^ m" by simp
    ultimately show "keys (table g) ! ((?home + e) mod 2 ^ m) \<noteq> 0" using stop by blast
  qed
  let ?t = "(table g) \<lparr> keys := (keys (table g))[?s := k], vals := (vals (table g))[?s := v] \<rparr>"
  let ?g = "g \<lparr> table := ?t, element_count := int32 (element_count g + 1) \<rparr>"
  have "insert_probe eph g k v ?home = insert_probe eph g k v ?s"
    by (rule insert_skip [OF ok home d(3)])
  also have "\<dots> = Some (0, ?g)"
    unfolding insert_probe_free [OF fs] set_cells_insert ..
  finally have i: "insert_probe eph g k v ?home = Some (0, ?g)" .
  have ok': "table_ok m (table ?g)" using ok by (simp add: table_ok_def)
  have ch': "chain_ok m (hash_func g) (table ?g)"
    using chain_ok_insert [OF ok ch k(1) d(1) path, of "(vals (table g))[?s := v]"] by simp
  have nt': "no_tombstones eph ?g"
  proof -
    have "slot_free eph ?g = slot_free eph g"
      by (rule slot_free_cong) simp
    moreover have "set ((keys (table g))[?s := k]) \<subseteq> insert k (set (keys (table g)))"
      by (rule set_update_subset_insert)
    moreover from k have "slot_free eph g k = (k = 0)" by (simp add: slot_free_def)
    ultimately show ?thesis using nt by (auto simp: no_tombstones_def list_all_iff)
  qed
  have fill': "mset (filled (table ?g)) = add_mset (k, v) (mset (filled (table g)))"
    using filled_update [of ?s "table g" k v] s lk len ks k(1) by simp
  have "same_config g ?g" by (simp add: same_config_def)
  with i ok' ch' nt' fill' show ?thesis by auto
qed

lemma holds_entries_insert:
  assumes inv: "holds_entries n eph h kvs" and len: "length kvs < 805306368"
    and k: "k \<noteq> 0" "\<not> key_is_tombstone eph h k" and v: "v \<noteq> 0"
    and fresh: "\<forall>b\<in>fst ` set kvs. \<not> insert_match h k b"
  shows "\<exists>h'. mono_conc_g_hash_table_insert eph h k v = Some (Inr (0, h'))
           \<and> holds_entries (if overflow_count h \<le> element_count h then Suc n else n) eph h'
                (kvs @ [(k, v)])
           \<and> same_config h h'"
proof -
  from inv have cap: "capacity_ok n h" and ch: "chain_ok n (hash_func h) (table h)"
    and nt: "no_tombstones eph h" and fill: "mset (filled (table h)) = mset kvs"
    and ec: "element_count h = int (length kvs)"
    and le: "element_count h \<le> overflow_count h"
    by (simp_all add: holds_entries_def)
  from cap have n5: "5 \<le> n" and n30: "n \<le> 30" and ok: "table_ok n (table h)"
    and oc: "overflow_count h = load_threshold (2 ^ n)" by (simp_all add: capacity_ok_def)
  from ok have ts: "table_size (table h) = 2 ^ n" and lk: "length (keys (table h)) = 2 ^ n"
    and lv: "length (vals (table h)) = 2 ^ n" by (simp_all add: table_ok_def)
  from fill have sets: "set (filled (table h)) = set kvs" by (rule mset_eq_setD)
  from fill have "size (mset (filled (table h))) = size (mset kvs)" by simp
  then have flen: "length (filled (table h)) = length kvs" by simp
  from ec len have ec1: "int32 (element_count h + 1) = int (length (kvs @ [(k, v)]))"
    using int32_succ [of "element_count h"] by simp
  show ?thesis
  proof (cases "element_count h < overflow_count h")
    case True
    with ec oc load_threshold_lt [of n] have "int (length kvs) < 2 ^ n" by linarith
    then have "length kvs < 2 ^ n" by (metis of_nat_less_iff of_nat_numeral of_nat_power)
    with flen have room: "length (filled (table h)) < 2 ^ n" by simp
    from fresh sets have fr: "\<forall>b\<in>fst ` set (filled (table h)). \<not> insert_match h k b" by simp
    from insert_place [OF ok ch nt room k fr, of v] obtain h' where
      i: "insert_probe eph h k v (slot_index (mix_hash (hash_func h k)) (2 ^ n)) = Some (0, h')"
      and ok': "table_ok n (table h')" and ch': "chain_ok n (hash_func h) (table h')"
      and nt': "no_tombstones eph h'"
      and fill': "mset (filled (table h')) = add_mset (k, v) (mset (filled (table h)))"
      and cfg: "same_config h h'" and oc': "overflow_count h' = overflow_count h"
      and ec': "element_count h' = int32 (element_count h + 1)" by blast
    from cfg have hf: "hash_func h' = hash_func h" by (simp add: same_config_def)
    from True ec oc have "1 + int (length kvs) \<le> load_threshold (2 ^ n)" by linarith
    then have "holds_entries n eph h' (kvs @ [(k, v)])"
      unfolding holds_entries_def capacity_ok_def
      using n5 n30 ok' oc oc' ch' nt' fill' fill ec' ec1 hf by simp
    moreover from i True k(1) v have "mono_conc_g_hash_table_insert eph h k v = Some (Inr (0, h'))"
      by (simp add: mono_conc_g_hash_table_insert_def ts)
    ultimately show ?thesis using True cfg by auto
  next
    case False
    have n29: "n < 30"
    proof (rule ccontr)
      assume "\<not> n < 30"
      with n30 have "n = 30" by simp
      then have "overflow_count h = 805306368" by (simp add: oc load_threshold_def)
      with False ec len show False by simp
    qed
    from expand_table_handle [OF ok n29, of eph] obtain h1 where
      e: "expand_table eph h = Some (Inr h1)" and ok1: "table_ok (Suc n) (table h1)"
      and ch1: "chain_ok (Suc n) (hash_func h) (table h1)"
      and fill1: "mset (filled (table h1)) = mset (live_entries eph h)"
      and cfg1: "same_config h h1" and ec1': "element_count h1 = element_count h"
      and oc1: "overflow_count h1 = load_threshold (2 ^ Suc n)"
      by metis
    from cfg1 have hf1: "hash_func h1 = hash_func h" and gc1: "gc_type h1 = gc_type h"
      and ef1: "equal_func h1 = equal_func h" by (simp_all add: same_config_def)
    from ok1 have ts1: "table_size (table h1) = 2 ^ Suc n"
      and lk1: "length (keys (table h1)) = 2 ^ Suc n"
      and lv1: "length (vals (table h1)) = 2 ^ Suc n" by (simp_all add: table_ok_def)
    have len1: "length (keys (table h1)) = length (vals (table h1))" by (simp add: lk1 lv1)
    have len0: "length (keys (table h)) = length (vals (table h))" by (simp add: lk lv)
    from fill1 have fill1': "mset (filled (table h1)) = mset (filled (table h))"
      by (simp add: no_tombstones_live [OF nt])
    then have sets1: "set (filled (table h1)) = set (filled (table h))" by (rule mset_eq_setD)
    have sf: "slot_free eph h1 = slot_free eph h" using gc1 by (rule slot_free_cong)
    have kt: "key_is_tombstone eph h1 = key_is_tombstone eph h"
      using gc1 by (rule key_is_tombstone_cong)
    have im: "insert_match h1 = insert_match h" using ef1 by (rule insert_match_cong)
    have nt1: "no_tombstones eph h1"
      unfolding no_tombstones_def list_all_iff
    proof
      fix ck assume mem: "ck \<in> set (keys (table h1))"
      show "slot_free eph h1 ck = (ck = 0)"
      proof (cases "ck = 0")
        case True
        then show ?thesis by (simp add: slot_free_def)
      next
        case False
        with mem have "ck \<in> fst ` set (filled (table h1))"
          unfolding filled_key_set [OF len1] by simp
        then have "ck \<in> fst ` set (filled (table h))" by (simp add: sets1)
        then have "ck \<in> set (keys (table h))" unfolding filled_key_set [OF len0] by simp
        from no_tombstones_free [OF nt this] show ?thesis by (simp add: sf)
      qed
    qed
    have "length (filled (table h)) \<le> 2 ^ n"
      unfolding filled_length [OF len0] using length_filter_le [of _ "keys (table h)"] lk by simp
    also have "(2::nat) ^ n < 2 ^ Suc n" by simp
    finally have room1: "length (filled (table h1)) < 2 ^ Suc n"
      using fill1' by (metis size_mset)
    from ch1 have ch1': "chain_ok (Suc n) (hash_func h1) (table h1)" by (simp add: hf1)
    from k(2) have k1: "\<not> key_is_tombstone eph h1 k" by (simp add: kt)
    from fresh sets sets1 have fr1: "\<forall>b\<in>fst ` set (filled (table h1)). \<not> insert_match h1 k b"
      by (simp add: im)
    from insert_place [OF ok1 ch1' nt1 room1 k(1) k1 fr1, of v] obtain h' where
      i: "insert_probe eph h1 k v (slot_index (mix_hash (hash_func h1 k)) (2 ^ Suc n)) = Some (0, h')"
      and ok': "table_ok (Suc n) (table h')" and ch': "chain_ok (Suc n) (hash_func h1) (table h')"
      and nt': "no_tombstones eph h'"
      and fill': "mset (filled (table h')) = add_mset (k, v) (mset (filled (table h1)))"
      and cfg: "same_config h1 h'" and oc': "overflow_count h' = overflow_count h1"
      and ec': "element_count h' = int32 (element_count h1 + 1)" by blast
    from cfg1 cfg have cfg': "same_config h h'" by (rule same_config_trans)
    then have hf: "hash_func h' = hash_func h" by (simp add: same_config_def)
    from n29 have n30': "Suc n \<le> 30" by simp
    from le False have "element_count h = load_threshold (2 ^ n)" by (simp add: oc)
    with load_threshold_grows [OF n5] have "element_count h + 1 \<le> load_threshold (2 ^ Suc n)"
      by simp
    with ec1 ec have grow: "int32 (element_count h + 1) \<le> load_threshold (2 ^ Suc n)" by simp
    have "holds_entries (Suc n) eph h' (kvs @ [(k, v)])"
      unfolding holds_entries_def capacity_ok_def
      using n5 n30' ok' oc1 oc' ch' nt' fill' fill1' fill ec' ec1' ec1 hf hf1 grow by simp
    moreover from i False e k(1) v
    have "mono_conc_g_hash_table_insert eph h k v = Some (Inr (0, h'))"
      by (simp add: mono_conc_g_hash_table_insert_def ts1 hf1)
    ultimately show ?thesis using False cfg' by auto
  qed
qed

lemma holds_entries_new:
  assumes "mono_conc_g_hash_table_new_type hf ef ty = Inr h"
  shows "holds_entries 5 eph h []"
proof -
  from assms have "chain_ok 5 (hash_func h) (table h) \<and> no_tombstones eph h
      \<and> filled (table h) = [] \<and> element_count h = 0 \<and> element_count h \<le> overflow_count h"
    by (auto simp: mono_conc_g_hash_table_new_type_def conc_table_new_def INITIAL_SIZE_def Let_def
          chain_ok_def no_tombstones_def slot_free_def filled_def load_threshold_def
          list_all_iff
        split: if_splits)
  with new_type_capacity [OF assms] show ?thesis by (simp add: holds_entries_def)
qed

lemma holds_entries_run:
  assumes "holds_entries n eph h done" "length (done @ new) \<le> 805306368"
    "\<forall>(k, v)\<in>set new. k \<noteq> 0 \<and> \<not> key_is_tombstone eph h k \<and> v \<noteq> 0"
    "distinct (map fst (done @ new))"
    "\<forall>a\<in>fst ` set (done @ new). \<forall>b\<in>fst ` set (done @ new). insert_match h a b = (a = b)"
  shows "\<exists>h' n'. run_ops eph h (map (\<lambda>(k, v). Insert k v) new)
              = Some (replicate (length new) 0, h')
           \<and> holds_entries n' eph h' (done @ new) \<and> same_config h h' \<and> n \<le> n'"
  using assms
proof (induction new arbitrary: h "done" n)
  case Nil
  then show ?case using same_config_refl by auto
next
  case (Cons x new)
  obtain k v where x: "x = (k, v)" by (cases x)
  from Cons.prems(3) x have k: "k \<noteq> 0" "\<not> key_is_tombstone eph h k" and v: "v \<noteq> 0"
    by simp_all
  from Cons.prems(2) have len: "length done < 805306368" by simp
  have fresh: "\<forall>b\<in>fst ` set done. \<not> insert_match h k b"
  proof
    fix b assume b: "b \<in> fst ` set done"
    with Cons.prems(4) x have "k \<noteq> b" by auto
    moreover from Cons.prems(5) b x have "insert_match h k b = (k = b)" by force
    ultimately show "\<not> insert_match h k b" by simp
  qed
  from holds_entries_insert [OF Cons.prems(1) len k v fresh] obtain h1 where
    i: "mono_conc_g_hash_table_insert eph h k v = Some (Inr (0, h1))"
    and inv1: "holds_entries (if overflow_count h \<le> element_count h then Suc n else n) eph h1
                 (done @ [(k, v)])"
    and cfg: "same_config h h1" by blast
  from cfg have gc: "gc_type h1 = gc_type h" and ef: "equal_func h1 = equal_func h"
    by (simp_all add: same_config_def)
  have kt: "key_is_tombstone eph h1 = key_is_tombstone eph h"
    using gc by (rule key_is_tombstone_cong)
  have im: "insert_match h1 = insert_match h" using ef by (rule insert_match_cong)
  have p2: "length ((done @ [(k, v)]) @ new) \<le> 805306368" using Cons.prems(2) x by simp
  have p3: "\<forall>(k, v)\<in>set new. k \<noteq> 0 \<and> \<not> key_is_tombstone eph h1 k \<and> v \<noteq> 0"
    using Cons.prems(3) by (simp add: kt)
  have p4: "distinct (map fst ((done @ [(k, v)]) @ new))" using Cons.prems(4) x by simp
  have p5: "\<forall>a\<in>fst ` set ((done @ [(k, v)]) @ new). \<forall>b\<in>fst ` set ((done @ [(k, v)]) @ new).
      insert_match h1 a b = (a = b)"
    using Cons.prems(5) x by (simp add: im)
  from Cons.IH [OF inv1 p2 p3 p4 p5] obtain h' n' where
    r: "run_ops eph h1 (map (\<lambda>(k, v). Insert k v) new) = Some (replicate (length new) 0, h')"
    and inv': "holds_entries n' eph h' ((done @ [(k, v)]) @ new)"
    and cfg': "same_config h1 h'"
    and n': "(if overflow_count h \<le> element_count h then Suc n else n) \<le> n'" by blast
  from i r x have "run_ops eph h (map (\<lambda>(k, v). Insert k v) (x # new))
      = Some (replicate (length (x # new)) 0, h')" by simp
  moreover from inv' x have "holds_entries n' eph h' (done @ x # new)" by simp
  moreover from cfg cfg' have "same_config h h'" by (rule same_config_trans)
  moreover from n' have "n \<le> n'" by (simp split: if_splits)
  ultimately show ?case by blast
qed

lemma holds_entries_lookup:
  assumes inv: "holds_entries n eph h kvs" and dist: "distinct (map fst kvs)"
    and eqc: "\<forall>a\<in>fst ` set kvs. \<forall>b\<in>fst ` set kvs. insert_match h a b = (a = b)"
    and nz: "\<forall>(k, v)\<in>set kvs. v \<noteq> 0"
  shows "(\<forall>(k, v)\<in>set kvs. mono_conc_g_hash_table_lookup_extended eph h k = Some (True, k, v))
       \<and> (\<forall>k. (\<forall>b\<in>fst ` set kvs. \<not> lookup_match eph h k b)
              \<longrightarrow> mono_conc_g_hash_table_lookup_extended eph h k = Some (False, 0, 0))"
proof -
  from inv have cap: "capacity_ok n h" and ch: "chain_ok n (hash_func h) (table h)"
    and nt: "no_tombstones eph h" and fill: "mset (filled (table h)) = mset kvs"
    and ec: "element_count h = int (length kvs)"
    and le: "element_count h \<le> overflow_count h"
    by (simp_all add: holds_entries_def)
  from cap have ok: "table_ok n (table h)"
    and oc: "overflow_count h = load_threshold (2 ^ n)" by (simp_all add: capacity_ok_def)
  from ok have lk: "length (keys (table h)) = 2 ^ n" and lv: "length (vals (table h)) = 2 ^ n"
    by (simp_all add: table_ok_def)
  have len: "length (keys (table h)) = length (vals (table h))" by (simp add: lk lv)
  from fill have sets: "set (filled (table h)) = set kvs" by (rule mset_eq_setD)
  from fill have "size (mset (filled (table h))) = size (mset kvs)" by simp
  then have flen: "length (filled (table h)) = length kvs" by simp
  have live: "keys (table h) ! s \<in> fst ` set kvs"
    if "s < 2 ^ n" "keys (table h) ! s \<noteq> 0" for s
  proof -
    from that lk have "keys (table h) ! s \<in> {ck \<in> set (keys (table h)). ck \<noteq> 0}" by simp
    then show ?thesis unfolding filled_key_set [OF len, symmetric] sets .
  qed
  from ec le oc load_threshold_lt [of n] have "int (length kvs) < 2 ^ n" by linarith
  then have "length kvs < 2 ^ n" by (metis of_nat_less_iff of_nat_numeral of_nat_power)
  with flen lk have "length (filled (table h)) < length (keys (table h))" by simp
  from empty_slot_exists [OF len this] lk obtain j0 where
    j0: "j0 < 2 ^ n" "keys (table h) ! j0 = 0" by auto
  from fill have "mset (map fst (filled (table h))) = mset (map fst kvs)" by (metis mset_map)
  with dist have "distinct (map fst (filled (table h)))" by (metis mset_eq_imp_distinct_iff)
  then have dist1: "distinct (filter (\<lambda>ck. ck \<noteq> 0) (keys (table h)))"
    unfolding filled_def filled_keys [OF len] .
  have found: "mono_conc_g_hash_table_lookup_extended eph h k = Some (True, k, v)"
    if kv: "(k, v) \<in> set kvs" for k v
  proof -
    from kv have kK: "k \<in> fst ` set kvs" by force
    from kv sets have "(k, v) \<in> set (filled (table h))" by simp
    then have k0: "k \<noteq> 0" and "(k, v) \<in> set (zip (keys (table h)) (vals (table h)))"
      by (auto simp: filled_def)
    then obtain j where j: "j < 2 ^ n" "keys (table h) ! j = k" "vals (table h) ! j = v"
      using lk by (auto simp: in_set_zip)
    from j lk have "k \<in> set (keys (table h))" by auto
    from no_tombstones_free [OF nt this] k0 have knt: "\<not> key_is_tombstone eph h k"
      by (simp add: slot_free_def)
    from nz kv j(3) have vj: "vals (table h) ! j \<noteq> 0" by auto
    from eqc kK have "insert_match h k k" by blast
    with knt have match: "lookup_match eph h k k"
      by (auto simp: lookup_match_def insert_match_def split: option.splits)
    have uniq: "\<not> lookup_match eph h k (keys (table h) ! s)"
      if s: "s < 2 ^ n" "s \<noteq> j" "keys (table h) ! s \<noteq> 0" for s
    proof -
      from distinct_filter_nth [OF dist1, of s j] s j k0 lk
      have ne: "keys (table h) ! s \<noteq> k" by auto
      from live [OF s(1,3)] eqc kK have
        "insert_match h k (keys (table h) ! s) = (k = keys (table h) ! s)" by blast
      with ne have "\<not> insert_match h k (keys (table h) ! s)" by auto
      then show ?thesis using lookup_match_imp_insert_match by blast
    qed
    from lookup_in_chain [OF ok ch j(1,2) k0 vj match uniq] j(3) show ?thesis by simp
  qed
  have notfound: "mono_conc_g_hash_table_lookup_extended eph h k = Some (False, 0, 0)"
    if ab: "\<forall>b\<in>fst ` set kvs. \<not> lookup_match eph h k b" for k
  proof (rule lookup_absent [OF ok j0])
    fix s assume s: "s < 2 ^ n" "keys (table h) ! s \<noteq> 0"
    from live [OF s] ab show "\<not> lookup_match eph h k (keys (table h) ! s)" by blast
  qed
  from found notfound show ?thesis by blast
qed

lemma inserted_keys_found:
  assumes new: "mono_conc_g_hash_table_new_type hf ef ty = Inr h0"
    and fresh: "fresh_entries eph h0 kvs" and len: "length kvs \<le> 805306368"
  shows "\<exists>h n. run_ops eph h0 (insert_all kvs) = Some (replicate (length kvs) 0, h)
           \<and> capacity_ok n h \<and> int (length kvs) \<le> load_threshold (2 ^ n)
           \<and> same_config h0 h
           \<and> mset (live_entries eph h) = mset kvs
           \<and> (\<forall>(k, v)\<in>set kvs.
                 mono_conc_g_hash_table_lookup_extended eph h k = Some (True, k, v))
           \<and> (\<forall>k. (\<forall>b\<in>fst ` set kvs. \<not> lookup_match eph h0 k b)
                 \<longrightarrow> mono_conc_g_hash_table_lookup_extended eph h k = Some (False, 0, 0))"
proof -
  from fresh have dist: "distinct (map fst kvs)"
    and ok: "\<forall>(k, v)\<in>set kvs. k \<noteq> 0 \<and> \<not> key_is_tombstone eph h0 k \<and> v \<noteq> 0"
    and eqc: "\<forall>a\<in>fst ` set kvs. \<forall>b\<in>fst ` set kvs. insert_match h0 a b = (a = b)"
    by (auto simp: fresh_entries_def list_all_iff)
  from holds_entries_run [of 5 eph h0 "[]" kvs] holds_entries_new [OF new, of eph] len ok dist eqc
  obtain h n where
    r: "run_ops eph h0 (map (\<lambda>(k, v). Insert k v) kvs) = Some (replicate (length kvs) 0, h)"
    and inv: "holds_entries n eph h kvs" and cfg: "same_config h0 h"
    by auto
  from cfg have im: "insert_match h = insert_match h0"
    by (intro insert_match_cong) (simp add: same_config_def)
  from ok have nz: "\<forall>(k, v)\<in>set kvs. v \<noteq> 0" by auto
  from eqc have eqc': "\<forall>a\<in>fst ` set kvs. \<forall>b\<in>fst ` set kvs. insert_match h a b = (a = b)"
    by (simp add: im)
  from cfg have "lookup_match eph h = lookup_match eph h0"
    by (intro lookup_match_cong) (simp_all add: same_config_def)
  with holds_entries_lookup [OF inv dist eqc' nz] have look:
    "\<forall>(k, v)\<in>set kvs. mono_conc_g_hash_table_lookup_extended eph h k = Some (True, k, v)"
    "\<forall>k. (\<forall>b\<in>fst ` set kvs. \<not> lookup_match eph h0 k b)
        \<longrightarrow> mono_conc_g_hash_table_lookup_extended eph h k = Some (False, 0, 0)"
    by simp_all
  from inv have "capacity_ok n h" "int (length kvs) \<le> overflow_count h"
    "overflow_count h = load_threshold (2 ^ n)" "no_tombstones eph h"
    "mset (filled (table h)) = mset kvs"
    by (simp_all add: holds_entries_def capacity_ok_def)
  with r cfg look no_tombstones_live [of eph h] show ?thesis
    unfolding insert_all_def by auto
qed

lemma fifty_fresh: "fresh_entries 99 h_new fifty_entries"
proof -
  have gc: "gc_type h_new = 0" and ef: "equal_func h_new = None" by (simp_all add: h_new_def)
  have "distinct (map fst fifty_entries)"
    by (simp add: fifty_entries_def upt_conv_Cons)
  moreover have "list_all (\<lambda>(k, v). k \<noteq> 0 \<and> \<not> key_is_tombstone 99 h_new k \<and> v \<noteq> 0) fifty_entries"
    by (simp add: key_is_tombstone_untracked [OF gc] fifty_entries_def upt_conv_Cons)
  moreover have "list_all (\<lambda>a. list_all (\<lambda>b. insert_match h_new a b = (a = b))
      (map fst fifty_entries)) (map fst fifty_entries)"
    by (simp add: insert_match_identity [OF ef] list_all_iff)
  ultimately show ?thesis by (simp add: fresh_entries_def)
qed

lemma fifty_facts:
  "length fifty_entries = 50" "(17, 117) \<in> set fifty_entries"
  "list_all (\<lambda>b. b \<noteq> 60) (map fst fifty_entries)"
  by (simp_all add: fifty_entries_def upt_conv_Cons)

lemma threshold_capacity:
  assumes "50 \<le> load_threshold (2 ^ n)" shows "7 \<le> n"
proof (rule ccontr)
  assume "\<not> 7 \<le> n"
  then have "n \<le> 6" by simp
  then have "(2::int) ^ n \<le> 2 ^ 6" by (intro power_increasing) simp_all
  then have "load_threshold (2 ^ n) \<le> 48" by (simp add: load_threshold_def)
  with assms show False by simp
qed


section \<open>Membership across a resize\<close>

lemma expand_table_membership:
  assumes ok: "table_ok n (table h)" and n: "n < 30" and inv: "slot_inv eph h"
  shows "\<exists>h1. expand_table eph h = Some (Inr h1) \<and> table_ok (Suc n) (table h1)
           \<and> mset (live_entries eph h1) = mset (live_entries eph h)
           \<and> (distinct_keys eph h \<longrightarrow>
                (\<forall>(ck, v)\<in>set (live_entries eph h).
                   mono_conc_g_hash_table_lookup_extended eph h1 ck = Some (True, ck, v)))
           \<and> (\<forall>k. \<not> present eph h k \<longrightarrow>
                 mono_conc_g_hash_table_lookup_extended eph h1 k = Some (False, 0, 0))"
proof -
  from ok have lk: "length (keys (table h)) = 2 ^ n" and lv: "length (vals (table h)) = 2 ^ n"
    by (simp_all add: table_ok_def)
  from expand_table_handle [OF ok n, of eph] obtain h1 where
    e: "expand_table eph h = Some (Inr h1)" and ok1: "table_ok (Suc n) (table h1)"
    and ch1: "chain_ok (Suc n) (hash_func h) (table h1)"
    and fill: "mset (filled (table h1)) = mset (live_entries eph h)"
    and cfg: "same_config h h1"
    by metis
  from ok1 have lk1: "length (keys (table h1)) = 2 ^ Suc n"
    and lv1: "length (vals (table h1)) = 2 ^ Suc n" by (simp_all add: table_ok_def)
  have len1: "length (keys (table h1)) = length (vals (table h1))" by (simp add: lk1 lv1)
  have len: "length (keys (table h)) = length (vals (table h))" by (simp add: lk lv)
  from cfg have hf: "hash_func h1 = hash_func h" and gc: "gc_type h1 = gc_type h"
    and ef: "equal_func h1 = equal_func h" by (simp_all add: same_config_def)
  have sf: "slot_free eph h1 = slot_free eph h" using gc by (rule slot_free_cong)
  have lm: "lookup_match eph h1 = lookup_match eph h" using gc ef by (rule lookup_match_cong)
  have sets: "set (filled (table h1)) = set (live_entries eph h)"
    using fill by (rule mset_eq_setD)
  \<comment> \<open>every key of the new generation is a live key of the old one\<close>
  have live1: "keys (table h1) ! s \<in> fst ` set (live_entries eph h)"
    if "s < 2 ^ Suc n" "keys (table h1) ! s \<noteq> 0" for s
  proof -
    from that lk1 have "keys (table h1) ! s \<in> {ck \<in> set (keys (table h1)). ck \<noteq> 0}" by simp
    then show ?thesis unfolding filled_key_set [OF len1, symmetric] sets .
  qed
  have nonfree: "\<not> slot_free eph h ck" if "ck \<in> fst ` set (live_entries eph h)" for ck
    using that unfolding live_key_set [OF len] by simp
  \<comment> \<open>the new generation has an empty slot\<close>
  from fill have "size (mset (filled (table h1))) = size (mset (live_entries eph h))" by simp
  then have "length (filled (table h1)) = live_count eph h"
    using live_count_entries [OF len, of eph] by simp
  also have "live_count eph h \<le> 2 ^ n"
    unfolding live_count_def using length_filter_le [of _ "keys (table h)"] lk by simp
  also have "(2::nat) ^ n < 2 ^ Suc n" by simp
  finally have "length (filled (table h1)) < length (keys (table h1))" by (simp add: lk1)
  from empty_slot_exists [OF len1 this] lk1 obtain j0 where
    j0: "j0 < 2 ^ Suc n" "keys (table h1) ! j0 = 0" by auto
  \<comment> \<open>the keys of the new generation are pairwise different\<close>
  have found: "mono_conc_g_hash_table_lookup_extended eph h1 ck = Some (True, ck, v)"
    if dk: "distinct_keys eph h" and cv: "(ck, v) \<in> set (live_entries eph h)" for ck v
  proof -
    from fill have "mset (map fst (filled (table h1))) = mset (map fst (live_entries eph h))"
      by (metis mset_map)
    with dk have "distinct (map fst (filled (table h1)))"
      unfolding distinct_keys_iff by (metis mset_eq_imp_distinct_iff)
    then have dist1: "distinct (filter (\<lambda>ck. ck \<noteq> 0) (keys (table h1)))"
      unfolding filled_def filled_keys [OF len1] .
    from cv have ckL: "ck \<in> fst ` set (live_entries eph h)" by force
    from nonfree [OF ckL] have ck0: "ck \<noteq> 0" and cknt: "\<not> key_is_tombstone eph h ck"
      by (simp_all add: slot_free_def)
    from cv sets have "(ck, v) \<in> set (zip (keys (table h1)) (vals (table h1)))"
      by (auto simp: filled_def)
    then obtain j where j: "j < 2 ^ Suc n" "keys (table h1) ! j = ck" "vals (table h1) ! j = v"
      using lk1 by (auto simp: in_set_zip)
    from slot_inv_live_value [OF inv cv] j(3) have vj: "vals (table h1) ! j \<noteq> 0" by simp
    from dk ckL have "insert_match h ck ck" unfolding distinct_keys_iff by blast
    with cknt have match: "lookup_match eph h1 ck ck"
      unfolding lm by (auto simp: lookup_match_def insert_match_def split: option.splits)
    have uniq: "\<not> lookup_match eph h1 ck (keys (table h1) ! s)"
      if s: "s < 2 ^ Suc n" "s \<noteq> j" "keys (table h1) ! s \<noteq> 0" for s
    proof -
      from distinct_filter_nth [OF dist1, of s j] s j ck0 lk1
      have ne: "keys (table h1) ! s \<noteq> ck" by auto
      from live1 [OF s(1,3)] dk ckL have
        "insert_match h ck (keys (table h1) ! s) = (ck = keys (table h1) ! s)"
        unfolding distinct_keys_iff by blast
      with ne have "\<not> insert_match h ck (keys (table h1) ! s)" by auto
      then show ?thesis unfolding lm using lookup_match_imp_insert_match by blast
    qed
    from ch1 have ch: "chain_ok (Suc n) (hash_func h1) (table h1)" by (simp add: hf)
    from lookup_in_chain [OF ok1 ch j(1,2) ck0 vj match uniq] j(3) show ?thesis by simp
  qed
  have notfound: "mono_conc_g_hash_table_lookup_extended eph h1 k = Some (False, 0, 0)"
    if ab: "\<not> present eph h k" for k
  proof (rule lookup_absent [OF ok1 j0])
    fix s assume s: "s < 2 ^ Suc n" "keys (table h1) ! s \<noteq> 0"
    from live1 [OF s] have "keys (table h1) ! s \<in> set (keys (table h))"
      "\<not> slot_free eph h (keys (table h1) ! s)"
      unfolding live_key_set [OF len] by simp_all
    with ab have "\<not> insert_match h k (keys (table h1) ! s)" unfolding present_iff by blast
    then show "\<not> lookup_match eph h1 k (keys (table h1) ! s)"
      unfolding lm using lookup_match_imp_insert_match by blast
  qed
  have "live_entries eph h1 = filled (table h1)"
    unfolding live_entries_def filled_def
  proof (rule filter_cong [OF refl])
    fix x assume x: "x \<in> set (zip (keys (table h1)) (vals (table h1)))"
    obtain ck v where xv: "x = (ck, v)" by (cases x)
    with x obtain s where s: "s < 2 ^ Suc n" "keys (table h1) ! s = ck"
      using lk1 by (auto simp: in_set_zip)
    have "(\<not> slot_free eph h1 ck) = (ck \<noteq> 0)"
    proof (cases "ck = 0")
      case True
      then show ?thesis by (simp add: slot_free_def)
    next
      case False
      with live1 [OF s(1)] s(2) have "ck \<in> fst ` set (live_entries eph h)" by simp
      from nonfree [OF this] False show ?thesis by (simp add: sf)
    qed
    then show "(case x of (ck, v) \<Rightarrow> \<not> slot_free eph h1 ck) = (case x of (ck, v) \<Rightarrow> ck \<noteq> 0)"
      by (simp add: xv)
  qed
  with fill have "mset (live_entries eph h1) = mset (live_entries eph h)" by simp
  with e ok1 found notfound show ?thesis by blast
qed

lemma run_sentinel_full:
  "run_new 99 None None MONO_HASH_CONSERVATIVE_GC sentinel_ops
     = Some (replicate 24 0, h_sentinel_full)"
  by (simp add: run_new_def sentinel_ops_def h_sentinel_full_def eval_defs list_eval)

lemma insert_sentinel_full:
  "mono_conc_g_hash_table_insert 99 h_sentinel_full 24 124 = Some (Inr (0, h_sentinel_grown))"
  by (simp add: h_sentinel_full_def h_sentinel_grown_def eval_defs list_eval expand_defs)

lemma usable_expand_membership:
  assumes use: "usable eph h" and room: "table_size (table h) < 2 ^ 30"
  shows "\<exists>n h1. table_ok n (table h) \<and> expand_table eph h = Some (Inr h1)
           \<and> table_ok (Suc n) (table h1)
           \<and> mset (live_entries eph h1) = mset (live_entries eph h)
           \<and> (distinct_keys eph h \<longrightarrow>
                (\<forall>(ck, v)\<in>set (live_entries eph h).
                   mono_conc_g_hash_table_lookup_extended eph h1 ck = Some (True, ck, v)))
           \<and> (\<forall>k. \<not> present eph h k \<longrightarrow>
                 mono_conc_g_hash_table_lookup_extended eph h1 k = Some (False, 0, 0))"
proof -
  from usable_handle_inv [OF use] obtain n where inv: "handle_inv n eph h" ..
  then have cap: "capacity_ok n h" and si: "slot_inv eph h" by (simp_all add: handle_inv_def)
  from cap have ok: "table_ok n (table h)" by (simp add: capacity_ok_def)
  from capacity_ok_lt [OF cap room] have n: "n < 30" .
  from expand_table_membership [OF ok n si] ok show ?thesis by blast
qed


section \<open>Live keys and their probe chains\<close>

lemma home_slot_index: "home_slot hf n key = slot_index (mix_hash (hf key)) (2 ^ n)"
  by (simp add: home_slot_def slot_index_pow2)

lemma chain_live_of_chain_ok:
  assumes "chain_ok n (hash_func h) (table h)" shows "chain_live n eph h"
  using assms unfolding chain_live_def chain_ok_def home_slot_index slot_free_def by blast

lemma chain_live_update:
  assumes ch: "chain_live n eph h" and lk: "length (keys (table h)) = 2 ^ n"
    and cfg: "hash_func h' = hash_func h" "gc_type h' = gc_type h"
    and ks: "keys (table h') = (keys (table h))[s := c]" and c: "c \<noteq> 0"
    and new: "\<not> slot_free eph h c \<Longrightarrow>
        \<forall>e. e < (s + 2 ^ n - home_slot (hash_func h) n c) mod 2 ^ n \<longrightarrow>
          keys (table h) ! ((home_slot (hash_func h) n c + e) mod 2 ^ n) \<noteq> 0"
  shows "chain_live n eph h'"
proof -
  let ?ks = "(keys (table h))[s := c]"
  have sf: "slot_free eph h' = slot_free eph h" using cfg(2) by (rule slot_free_cong)
  have keep: "?ks ! i \<noteq> 0" if "i < 2 ^ n" "keys (table h) ! i \<noteq> 0" for i
    using that c lk by (cases "i = s") simp_all
  have "\<forall>e. e < (j + 2 ^ n - home_slot (hash_func h) n (?ks ! j)) mod 2 ^ n \<longrightarrow>
           ?ks ! ((home_slot (hash_func h) n (?ks ! j) + e) mod 2 ^ n) \<noteq> 0"
    if j: "j < 2 ^ n" "\<not> slot_free eph h (?ks ! j)" for j
  proof (cases "j = s")
    case True
    with j lk have k: "?ks ! s = c" by simp
    with j True have "\<not> slot_free eph h c" by simp
    from new [OF this] have
      "?ks ! ((home_slot (hash_func h) n c + e) mod 2 ^ n) \<noteq> 0"
      if "e < (s + 2 ^ n - home_slot (hash_func h) n c) mod 2 ^ n" for e
      using keep [of "(home_slot (hash_func h) n c + e) mod 2 ^ n"] that by simp
    then show ?thesis unfolding True k by blast
  next
    case False
    then have k: "?ks ! j = keys (table h) ! j" by simp
    with j have "\<not> slot_free eph h (keys (table h) ! j)" by simp
    with ch j(1) have
      "\<forall>e. e < (j + 2 ^ n - home_slot (hash_func h) n (keys (table h) ! j)) mod 2 ^ n \<longrightarrow>
         keys (table h) ! ((home_slot (hash_func h) n (keys (table h) ! j) + e) mod 2 ^ n) \<noteq> 0"
      unfolding chain_live_def by blast
    then have "?ks ! ((home_slot (hash_func h) n (keys (table h) ! j) + e) mod 2 ^ n) \<noteq> 0"
      if "e < (j + 2 ^ n - home_slot (hash_func h) n (keys (table h) ! j)) mod 2 ^ n" for e
      using keep [of "(home_slot (hash_func h) n (keys (table h) ! j) + e) mod 2 ^ n"] that
      by simp
    then show ?thesis unfolding k by blast
  qed
  then show ?thesis unfolding chain_live_def ks cfg(1) sf by simp
qed

lemma chain_live_insert_at:
  assumes ok: "table_ok n (table g)" and ch: "chain_live n eph g" and k: "k \<noteq> 0"
    and d: "d < 2 ^ n"
      "\<forall>e<d. keys (table g) ! ((home_slot (hash_func g) n k + e) mod 2 ^ n) \<noteq> 0"
  shows "chain_live n eph (insert_at g ((home_slot (hash_func g) n k + d) mod 2 ^ n) k v)"
proof (rule chain_live_update [OF ch _ _ _ _ k])
  let ?s = "(home_slot (hash_func g) n k + d) mod 2 ^ n"
  from ok show "length (keys (table g)) = 2 ^ n" by (simp add: table_ok_def)
  show "hash_func (insert_at g ?s k v) = hash_func g" "gc_type (insert_at g ?s k v) = gc_type g"
    by (simp_all add: insert_at_def)
  show "keys (table (insert_at g ?s k v)) = (keys (table g))[?s := k]"
    by (simp add: insert_at_def set_cells_insert)
  have "(?s + 2 ^ n - home_slot (hash_func g) n k) mod 2 ^ n = d"
    using cyclic_dist_offset [OF home_slot_lt d(1)] .
  with d(2) show "\<forall>e. e < (?s + 2 ^ n - home_slot (hash_func g) n k) mod 2 ^ n \<longrightarrow>
          keys (table g) ! ((home_slot (hash_func g) n k + e) mod 2 ^ n) \<noteq> 0"
    by simp
qed

lemma chain_live_remove_at:
  assumes ok: "table_ok n (table h)" and ch: "chain_live n eph h"
    and gc: "gc_type h AND MONO_HASH_KEY_GC = 0" "table_gc_type (table h) AND MONO_HASH_KEY_GC = 0"
  shows "chain_live n eph (remove_at eph h s)"
proof (rule chain_live_update [OF ch, where c = PTR_TOMBSTONE and s = s])
  from ok show "length (keys (table h)) = 2 ^ n" by (simp add: table_ok_def)
  show "hash_func (remove_at eph h s) = hash_func h" "gc_type (remove_at eph h s) = gc_type h"
    by (simp_all add: remove_at_def)
  show "keys (table (remove_at eph h s)) = (keys (table h))[s := PTR_TOMBSTONE]"
    using gc(2) by (simp add: remove_at_def set_key_to_tombstone_def)
  show "PTR_TOMBSTONE \<noteq> 0" by (simp add: PTR_TOMBSTONE_def)
  assume "\<not> slot_free eph h PTR_TOMBSTONE"
  with gc(1) show "\<forall>e. e < (s + 2 ^ n - home_slot (hash_func h) n PTR_TOMBSTONE) mod 2 ^ n \<longrightarrow>
          keys (table h) ! ((home_slot (hash_func h) n PTR_TOMBSTONE + e) mod 2 ^ n) \<noteq> 0"
    by (simp add: slot_free_def key_is_tombstone_def)
qed

lemma chain_live_insert_probe:
  assumes ok: "table_ok m (table g)" and ch: "chain_live m eph g" and k: "k \<noteq> 0"
    and j: "j < 2 ^ m" "insert_stop eph g k j"
    and i: "insert_probe eph g k v (home_slot (hash_func g) m k) = Some (r, h')"
  shows "chain_live m eph h'"
proof -
  let ?home = "home_slot (hash_func g) m k"
  have home: "?home < 2 ^ m" by (rule home_slot_lt)
  from first_stop [of j "2 ^ m" "insert_stop eph g k" ?home, OF j home] obtain d where
    d: "d < 2 ^ m" "insert_stop eph g k ((?home + d) mod 2 ^ m)"
       "\<forall>e<d. \<not> insert_stop eph g k ((?home + e) mod 2 ^ m)"
    by blast
  let ?s = "(?home + d) mod 2 ^ m"
  have skip: "insert_probe eph g k v ?home = insert_probe eph g k v ?s"
    by (rule insert_skip [OF ok home d(3)])
  show ?thesis
  proof (cases "slot_free eph g (keys (table g) ! ?s)")
    case True
    from insert_probe_free [OF True, of k v] skip i have "h' = insert_at g ?s k v"
      by (simp add: insert_at_def)
    moreover have "\<forall>e<d. keys (table g) ! ((?home + e) mod 2 ^ m) \<noteq> 0"
      using d(3) by (auto simp: insert_stop_def slot_free_def)
    ultimately show ?thesis using chain_live_insert_at [OF ok ch k d(1)] by simp
  next
    case False
    with d(2) have "insert_match g k (keys (table g) ! ?s)" by (simp add: insert_stop_def)
    from insert_probe_present [OF False this, of v] skip i have "h' = g" by simp
    with ch show ?thesis by simp
  qed
qed

lemma chain_live_insert:
  assumes inv: "handle_inv n eph h" and ch: "chain_live n eph h"
    and i: "mono_conc_g_hash_table_insert eph h k v = Some (Inr (r, h'))"
  shows "chain_live (if overflow_count h \<le> element_count h then Suc n else n) eph h'"
proof -
  from inv have cap: "capacity_ok n h" and cnt: "count_ok eph h" by (simp_all add: handle_inv_def)
  from cap have ok: "table_ok n (table h)" and oc: "overflow_count h = load_threshold (2 ^ n)"
    by (simp_all add: capacity_ok_def)
  from ok have ts: "table_size (table h) = 2 ^ n" and lk: "length (keys (table h)) = 2 ^ n"
    and lv: "length (vals (table h)) = 2 ^ n" by (simp_all add: table_ok_def)
  from i have k: "k \<noteq> 0"
    by (auto simp: mono_conc_g_hash_table_insert_def split: if_splits)
  from i show ?thesis
  proof (cases rule: insert_cases)
    case same
    from cnt same(1) oc load_threshold_lt [of n] have "int (live_count eph h) < 2 ^ n"
      unfolding count_ok_def by linarith
    then have "live_count eph h < length (keys (table h))" unfolding lk
      by (metis of_nat_less_iff of_nat_numeral of_nat_power)
    from free_slot_exists [OF this] lk obtain j where
      j: "j < 2 ^ n" "slot_free eph h (keys (table h) ! j)" by auto
    then have sj: "insert_stop eph h k j" by (simp add: insert_stop_def)
    from same(2) have "insert_probe eph h k v (home_slot (hash_func h) n k) = Some (r, h')"
      by (simp add: ts home_slot_index)
    from chain_live_insert_probe [OF ok ch k j(1) sj this] same(1) show ?thesis by simp
  next
    case (grown h1)
    from expand_capacity [OF cap grown(2)] have cap1: "capacity_ok (Suc n) h1" .
    then have n: "n < 30" by (simp add: capacity_ok_def)
    from expand_table_handle [OF ok n, of eph] grown(2) have
      ok1: "table_ok (Suc n) (table h1)" and ch1: "chain_ok (Suc n) (hash_func h) (table h1)"
      and fill: "mset (filled (table h1)) = mset (live_entries eph h)"
      and cfg: "same_config h h1"
      by auto
    from cfg have hf: "hash_func h1 = hash_func h" by (simp add: same_config_def)
    from ok1 have ts1: "table_size (table h1) = 2 ^ Suc n"
      and lk1: "length (keys (table h1)) = 2 ^ Suc n"
      and lv1: "length (vals (table h1)) = 2 ^ Suc n" by (simp_all add: table_ok_def)
    from fill have "size (mset (filled (table h1))) = size (mset (live_entries eph h))" by simp
    then have "length (filled (table h1)) = live_count eph h"
      using live_count_entries [of h eph] lk lv by simp
    also have "live_count eph h \<le> 2 ^ n"
      unfolding live_count_def using length_filter_le [of _ "keys (table h)"] lk by simp
    also have "(2::nat) ^ n < 2 ^ Suc n" by simp
    finally have "length (filled (table h1)) < length (keys (table h1))" by (simp add: lk1)
    from empty_slot_exists [OF _ this] lk1 lv1 obtain j where
      j: "j < 2 ^ Suc n" "keys (table h1) ! j = 0" by auto
    then have sj: "insert_stop eph h1 k j" by (simp add: insert_stop_def slot_free_def)
    from ch1 have cl1: "chain_live (Suc n) eph h1"
      by (intro chain_live_of_chain_ok) (simp add: hf)
    from grown(3) have "insert_probe eph h1 k v (home_slot (hash_func h1) (Suc n) k) = Some (r, h')"
      by (simp add: ts1 home_slot_index hf)
    from chain_live_insert_probe [OF ok1 cl1 k j(1) sj this] grown(1) show ?thesis by simp
  qed
qed

lemma chain_live_remove:
  assumes inv: "handle_inv n eph h" and ch: "chain_live n eph h"
    and gc: "gc_type h AND MONO_HASH_KEY_GC = 0"
    and r: "mono_conc_g_hash_table_remove eph h k = Some (Inr (r, h'))"
  shows "chain_live n eph h'"
proof -
  from inv have cap: "capacity_ok n h" and ma: "modes_agree h" by (simp_all add: handle_inv_def)
  from cap have ok: "table_ok n (table h)" by (simp add: capacity_ok_def)
  from ma gc have tgc: "table_gc_type (table h) AND MONO_HASH_KEY_GC = 0"
    by (simp add: modes_agree_def)
  from r have k: "k \<noteq> 0"
    by (auto simp: mono_conc_g_hash_table_remove_def split: if_splits)
  have cs: "can_stop eph h k"
  proof (rule ccontr)
    assume "\<not> can_stop eph h k"
    from no_stop_no_result(2) [OF ok this k] r show False by simp
  qed
  then obtain j where j: "j < 2 ^ n" "lookup_stop eph h k j"
    unfolding can_stop_iff [OF ok] by blast
  let ?home = "home_slot (hash_func h) n k"
  from first_stop [of j "2 ^ n" "lookup_stop eph h k" ?home, OF j home_slot_lt] obtain d where
    d: "d < 2 ^ n" "lookup_stop eph h k ((?home + d) mod 2 ^ n)"
       "\<forall>e<d. \<not> lookup_stop eph h k ((?home + e) mod 2 ^ n)"
    by blast
  from d(3) have path: "list_all (\<lambda>j. \<not> lookup_stop eph h k j) (probe_path n ?home d)"
    by (simp add: probe_path_all)
  from remove_first_stop [OF ok d(1) path d(2) k] r
  have "h' = h \<or> h' = remove_at eph h ((?home + d) mod 2 ^ n)"
    by (auto simp: Let_def split: if_splits)
  with ch chain_live_remove_at [OF ok ch gc tgc] show ?thesis by auto
qed

lemma chain_live_new:
  assumes "mono_conc_g_hash_table_new_type hf ef ty = Inr h"
  shows "chain_live 5 eph h"
proof -
  from assms have "\<forall>j<32. keys (table h) ! j = 0"
    by (auto simp: mono_conc_g_hash_table_new_type_def conc_table_new_def INITIAL_SIZE_def Let_def
        split: if_splits)
  then show ?thesis by (simp add: chain_live_def slot_free_def)
qed

lemma usable_chain_live: "usable eph h \<Longrightarrow> \<exists>n. handle_inv n eph h \<and> chain_live n eph h"
proof (induction rule: usable.induct)
  case (usable_new hf ef ty h)
  from handle_inv_new [OF this] chain_live_new [OF usable_new(1)] show ?case by blast
next
  case (usable_insert h k v r h')
  then obtain n where n: "handle_inv n eph h" "chain_live n eph h" by blast
  from handle_inv_insert [OF n(1) usable_insert.hyps(2,3)]
    chain_live_insert [OF n usable_insert.hyps(3)]
  show ?case by blast
next
  case (usable_remove h k r h')
  then obtain n where n: "handle_inv n eph h" "chain_live n eph h" by blast
  from handle_inv_remove [OF n(1) usable_remove.hyps(2,3)]
    chain_live_remove [OF n usable_gc_type [OF usable_remove.hyps(1)] usable_remove.hyps(3)]
  show ?case by blast
qed

lemma lookup_live_key:
  assumes ok: "table_ok m (table g)" and ch: "chain_live m eph g"
    and j: "j < 2 ^ m" "keys (table g) ! j = k" and k: "\<not> slot_free eph g k"
    and vj: "vals (table g) ! j \<noteq> 0"
    and match: "lookup_match eph g k k"
    and uniq: "\<And>s. s < 2 ^ m \<Longrightarrow> s \<noteq> j \<Longrightarrow> keys (table g) ! s \<noteq> 0
                 \<Longrightarrow> \<not> lookup_match eph g k (keys (table g) ! s)"
  shows "mono_conc_g_hash_table_lookup_extended eph g k = Some (True, k, vals (table g) ! j)"
proof -
  let ?hash = "mix_hash (hash_func g k)"
  let ?home = "slot_index ?hash (2 ^ m)"
  let ?D = "(j + 2 ^ m - ?home) mod 2 ^ m"
  from ok have ts: "table_size (table g) = 2 ^ m" by (simp add: table_ok_def)
  from k have k0: "k \<noteq> 0" by (simp add: slot_free_def)
  have home: "?home < 2 ^ m" by (rule slot_index_lt)
  have D: "?D < 2 ^ m" by simp
  have reach: "(?home + ?D) mod 2 ^ m = j" by (rule cyclic_reach [OF home j(1)])
  have "\<not> lookup_stop eph g k ((?home + e) mod 2 ^ m)" if e: "e < ?D" for e
  proof -
    let ?s = "(?home + e) mod 2 ^ m"
    from ch j k e have ne: "keys (table g) ! ?s \<noteq> 0"
      unfolding chain_live_def home_slot_index by blast
    have "e < 2 ^ m" using e D by (rule less_trans)
    from cyclic_offset_inj [OF home D this] e reach have "?s \<noteq> j" by auto
    from uniq [OF _ this ne] ne show ?thesis by (simp add: lookup_stop_def)
  qed
  then have "\<forall>e<?D. \<not> lookup_stop eph g k ((?home + e) mod 2 ^ m)" by blast
  from lookup_skip [OF ok home this, of ?hash] reach
  have "lookup_probe eph g k ?hash ?home = lookup_probe eph g k ?hash j" by simp
  also have "\<dots> = Some (True, keys (table g) ! j, vals (table g) ! j)"
    by (rule lookup_probe_found) (use j k0 vj match in simp_all)
  finally show ?thesis using j(2) by (simp add: mono_conc_g_hash_table_lookup_extended_def ts)
qed

lemma lookup_found_present:
  assumes ok: "table_ok n (table h)" and si: "slot_inv eph h"
    and k: "\<not> key_is_tombstone eph h k"
    and l: "mono_conc_g_hash_table_lookup_extended eph h k = Some (True, ck, v)"
  shows "present eph h k"
proof -
  from ok have lk: "length (keys (table h)) = 2 ^ n" by (simp add: table_ok_def)
  have cs: "can_stop eph h k"
  proof (rule ccontr)
    assume "\<not> can_stop eph h k"
    from no_stop_no_result(1) [OF ok this] l show False by simp
  qed
  then obtain j where j: "j < 2 ^ n" "lookup_stop eph h k j"
    unfolding can_stop_iff [OF ok] by blast
  let ?home = "home_slot (hash_func h) n k"
  from first_stop [of j "2 ^ n" "lookup_stop eph h k" ?home, OF j home_slot_lt] obtain d where
    d: "d < 2 ^ n" "lookup_stop eph h k ((?home + d) mod 2 ^ n)"
       "\<forall>e<d. \<not> lookup_stop eph h k ((?home + e) mod 2 ^ n)"
    by blast
  let ?s = "(?home + d) mod 2 ^ n"
  from d(3) have path: "list_all (\<lambda>j. \<not> lookup_stop eph h k j) (probe_path n ?home d)"
    by (simp add: probe_path_all)
  from slot_inv_match_has_value [OF si k] have mv: "match_has_value eph h k" .
  from lookup_first_stop [OF ok d(1) path d(2) mv] l
  have s0: "keys (table h) ! ?s \<noteq> 0" and sv: "vals (table h) ! ?s = v"
    by (auto simp: Let_def split: if_splits)
  with d(2) have m: "lookup_match eph h k (keys (table h) ! ?s)" by (simp add: lookup_stop_def)
  have s: "?s < 2 ^ n" by simp
  from mv s lk s0 m have "vals (table h) ! ?s \<noteq> 0"
    unfolding match_has_value_def by (simp add: list_all2_conv_all_nth)
  with slot_inv_nth [OF si, of ?s] s lk have "\<not> slot_free eph h (keys (table h) ! ?s)" by simp
  moreover from m have "insert_match h k (keys (table h) ! ?s)"
    by (rule lookup_match_imp_insert_match)
  moreover from s lk have "keys (table h) ! ?s \<in> set (keys (table h))" by simp
  ultimately show ?thesis unfolding present_iff by blast
qed

lemma usable_lookup_live:
  assumes use: "usable eph h" and dk: "distinct_keys eph h"
    and cv: "(ck, v) \<in> set (live_entries eph h)"
  shows "mono_conc_g_hash_table_lookup_extended eph h ck = Some (True, ck, v)"
proof -
  from usable_chain_live [OF use] obtain n where
    inv: "handle_inv n eph h" and ch: "chain_live n eph h" by blast
  from inv have cap: "capacity_ok n h" and si: "slot_inv eph h" by (simp_all add: handle_inv_def)
  from cap have ok: "table_ok n (table h)" by (simp add: capacity_ok_def)
  from ok have lk: "length (keys (table h)) = 2 ^ n" and lv: "length (vals (table h)) = 2 ^ n"
    by (simp_all add: table_ok_def)
  have len: "length (keys (table h)) = length (vals (table h))" by (simp add: lk lv)
  from cv have ckL: "ck \<in> fst ` set (live_entries eph h)" by force
  from cv have live: "\<not> slot_free eph h ck"
    and "(ck, v) \<in> set (zip (keys (table h)) (vals (table h)))"
    by (auto simp: live_entries_def)
  then obtain j where j: "j < 2 ^ n" "keys (table h) ! j = ck" "vals (table h) ! j = v"
    using lk by (auto simp: in_set_zip)
  from live have cknt: "\<not> key_is_tombstone eph h ck" by (simp add: slot_free_def)
  from slot_inv_live_value [OF si cv] j(3) have vj: "vals (table h) ! j \<noteq> 0" by simp
  from dk ckL have "insert_match h ck ck" unfolding distinct_keys_iff by blast
  with cknt have match: "lookup_match eph h ck ck"
    by (auto simp: lookup_match_def insert_match_def split: option.splits)
  from dk have "distinct (map fst (live_entries eph h))" by (simp add: distinct_keys_iff)
  then have dist: "distinct (filter (\<lambda>c. \<not> slot_free eph h c) (keys (table h)))"
    unfolding live_entries_def filled_keys [OF len] .
  have uniq: "\<not> lookup_match eph h ck (keys (table h) ! s)"
    if s: "s < 2 ^ n" "s \<noteq> j" "keys (table h) ! s \<noteq> 0" for s
  proof (cases "slot_free eph h (keys (table h) ! s)")
    case True
    with s(3) have t: "key_is_tombstone eph h (keys (table h) ! s)" by (simp add: slot_free_def)
    with cknt have "ck \<noteq> keys (table h) ! s" by auto
    with t show ?thesis by (auto simp: lookup_match_def split: option.splits)
  next
    case False
    from distinct_filter_nth [OF dist, of s j] s j live False lk
    have ne: "keys (table h) ! s \<noteq> ck" by auto
    from s(1) lk False have "keys (table h) ! s \<in> fst ` set (live_entries eph h)"
      unfolding live_key_set [OF len] by simp
    with dk ckL have "insert_match h ck (keys (table h) ! s) = (ck = keys (table h) ! s)"
      unfolding distinct_keys_iff by blast
    with ne have "\<not> insert_match h ck (keys (table h) ! s)" by auto
    then show ?thesis using lookup_match_imp_insert_match by blast
  qed
  from lookup_live_key [OF ok ch j(1,2) live vj match uniq] j(3) show ?thesis by simp
qed

lemma usable_lookup_absent:
  assumes use: "usable eph h" and k: "\<not> key_is_tombstone eph h k"
    and ab: "\<not> present eph h k"
  shows "mono_conc_g_hash_table_lookup_extended eph h k \<noteq> Some (True, ck, v)"
proof -
  from usable_handle_inv [OF use] obtain n where inv: "handle_inv n eph h" ..
  then have "table_ok n (table h)" "slot_inv eph h" by (simp_all add: handle_inv_def capacity_ok_def)
  from lookup_found_present [OF this k] ab show ?thesis by blast
qed

lemma usable_grown: "usable 99 h_grown"
proof (rule usable_insert [OF usable_full _ insert_full])
  show "\<not> key_is_tombstone 99 h_full 25"
    by (simp add: key_is_tombstone_untracked [OF h_full_facts(2)])
qed

lemma h_grown_facts:
  "distinct_keys 99 h_grown" "(17, 117) \<in> set (live_entries 99 h_grown)"
  "\<not> present 99 h_grown 30" "\<not> key_is_tombstone 99 h_grown 30"
  "table_size (table h_grown) = 64"
proof -
  have gc: "gc_type h_grown = 0" and ef: "equal_func h_grown = None"
    by (simp_all add: h_grown_def)
  show "distinct_keys 99 h_grown"
    by (simp add: distinct_keys_def live_entries_def slot_free_untracked [OF gc]
          insert_match_identity [OF ef])
       (simp add: h_grown_def)
  show "(17, 117) \<in> set (live_entries 99 h_grown)"
    by (simp add: live_entries_def slot_free_untracked [OF gc]) (simp add: h_grown_def)
  show "\<not> present 99 h_grown 30"
    by (simp add: present_def slot_free_untracked [OF gc] insert_match_identity [OF ef])
       (simp add: h_grown_def)
  show "\<not> key_is_tombstone 99 h_grown 30" by (simp add: key_is_tombstone_untracked [OF gc])
  show "table_size (table h_grown) = 64" by (simp add: h_grown_def)
qed


section \<open>Runs of inserts and removes\<close>

lemma add_mset_diff_mem: "x \<in># M \<Longrightarrow> add_mset a M - {#x#} = add_mset a (M - {#x#})"
  by (auto simp: multiset_eq_iff)

lemma live_entries_insert_at:
  assumes s: "s < length (keys (table g))"
    and len: "length (keys (table g)) = length (vals (table g))"
    and free: "slot_free eph g (keys (table g) ! s)" and k: "\<not> slot_free eph g k"
  shows "mset (live_entries eph (insert_at g s k v)) = add_mset (k, v) (mset (live_entries eph g))"
proof -
  have sf: "slot_free eph (insert_at g s k v) = slot_free eph g"
    by (rule slot_free_cong) (simp add: insert_at_def)
  have z: "zip (keys (table (insert_at g s k v))) (vals (table (insert_at g s k v)))
      = (zip (keys (table g)) (vals (table g)))[s := (k, v)]"
    by (simp add: insert_at_def set_cells_insert zip_update)
  from s len have s': "s < length (zip (keys (table g)) (vals (table g)))" by simp
  have old: "\<not> (case zip (keys (table g)) (vals (table g)) ! s of (ck, v) \<Rightarrow> \<not> slot_free eph g ck)"
    using free s len by simp
  have new: "case (k, v) of (ck, v) \<Rightarrow> \<not> slot_free eph g ck" using k by simp
  from mset_filter_update_new [OF s' old new] show ?thesis
    unfolding live_entries_def sf z .
qed

lemma mset_filter_update_old:
  assumes "j < length zs" "P (zs ! j)" "\<not> P z"
  shows "mset (filter P (zs[j := z])) = mset (filter P zs) - {#zs ! j#}"
  using assms
proof (induction zs arbitrary: j)
  case Nil
  then show ?case by simp
next
  case (Cons a zs)
  show ?case
  proof (cases j)
    case 0
    with Cons.prems show ?thesis by simp
  next
    case (Suc i)
    with Cons.prems have i: "i < length zs" "P (zs ! i)" by simp_all
    from Cons.IH [OF i Cons.prems(3)] have
      IH: "mset (filter P (zs[i := z])) = mset (filter P zs) - {#zs ! i#}" .
    from i have mem: "zs ! i \<in># mset (filter P zs)" by simp
    show ?thesis
    proof (cases "P a")
      case True
      with Suc IH mem show ?thesis by (simp add: add_mset_diff_mem)
    next
      case False
      with Suc IH show ?thesis by simp
    qed
  qed
qed

lemma live_entries_remove_at:
  assumes s: "s < length (keys (table h))"
    and len: "length (keys (table h)) = length (vals (table h))"
    and live: "\<not> slot_free eph h (keys (table h) ! s)"
    and gc: "gc_type h AND MONO_HASH_KEY_GC = 0" "table_gc_type (table h) AND MONO_HASH_KEY_GC = 0"
  shows "mset (live_entries eph (remove_at eph h s))
           = mset (live_entries eph h) - {#(keys (table h) ! s, vals (table h) ! s)#}"
proof -
  have sf: "slot_free eph (remove_at eph h s) = slot_free eph h"
    by (rule slot_free_cong) (simp add: remove_at_def)
  have z: "zip (keys (table (remove_at eph h s))) (vals (table (remove_at eph h s)))
      = (zip (keys (table h)) (vals (table h)))[s := (PTR_TOMBSTONE, 0)]"
    using gc(2) by (simp add: remove_at_def set_key_to_tombstone_def zip_update)
  from s len have s': "s < length (zip (keys (table h)) (vals (table h)))" by simp
  have old: "case zip (keys (table h)) (vals (table h)) ! s of (ck, v) \<Rightarrow> \<not> slot_free eph h ck"
    using live s len by simp
  have new: "\<not> (case (PTR_TOMBSTONE, 0 :: gpointer) of (ck, v) \<Rightarrow> \<not> slot_free eph h ck)"
    using gc(1) by (simp add: slot_free_def key_is_tombstone_def)
  from mset_filter_update_old [OF s' old new] s len show ?thesis
    unfolding live_entries_def sf z by simp
qed

lemma mset_filter_key:
  assumes "distinct (map fst xs)" "(k, v) \<in> set xs"
  shows "mset (filter (\<lambda>(a, b). a \<noteq> k) xs) = mset xs - {#(k, v)#}"
  using assms
proof (induction xs)
  case Nil
  then show ?case by simp
next
  case (Cons x xs)
  obtain a b where x: "x = (a, b)" by (cases x)
  show ?case
  proof (cases "a = k")
    case True
    with Cons.prems x have "b = v" and "k \<notin> fst ` set xs" by (auto simp: image_iff)
    then have "filter (\<lambda>(a, b). a \<noteq> k) xs = xs"
      by (intro filter_True) (auto simp: image_iff)
    with True x \<open>b = v\<close> show ?thesis by simp
  next
    case False
    with Cons.prems x have "(k, v) \<in> set xs" "distinct (map fst xs)" by auto
    from Cons.IH [OF this(2,1)] False x this(1) show ?thesis by (simp add: add_mset_diff_mem)
  qed
qed

lemma live_entries_insert_probe:
  assumes ok: "table_ok m (table g)" and j: "j < 2 ^ m" "insert_stop eph g k j"
    and k: "k \<noteq> 0" "\<not> key_is_tombstone eph g k" and ab: "\<not> present eph g k"
    and i: "insert_probe eph g k v (home_slot (hash_func g) m k) = Some (r, h')"
  shows "r = 0 \<and> mset (live_entries eph h') = add_mset (k, v) (mset (live_entries eph g))"
proof -
  let ?home = "home_slot (hash_func g) m k"
  from ok have lk: "length (keys (table g)) = 2 ^ m" and lv: "length (vals (table g)) = 2 ^ m"
    by (simp_all add: table_ok_def)
  have home: "?home < 2 ^ m" by (rule home_slot_lt)
  from first_stop [of j "2 ^ m" "insert_stop eph g k" ?home, OF j home] obtain d where
    d: "d < 2 ^ m" "insert_stop eph g k ((?home + d) mod 2 ^ m)"
       "\<forall>e<d. \<not> insert_stop eph g k ((?home + e) mod 2 ^ m)"
    by blast
  let ?s = "(?home + d) mod 2 ^ m"
  have s: "?s < length (keys (table g))" by (simp add: lk)
  have free: "slot_free eph g (keys (table g) ! ?s)"
  proof (rule ccontr)
    assume nf: "\<not> slot_free eph g (keys (table g) ! ?s)"
    with d(2) have "insert_match g k (keys (table g) ! ?s)" by (simp add: insert_stop_def)
    with nf s have "present eph g k" unfolding present_iff by (meson nth_mem)
    with ab show False by simp
  qed
  have "insert_probe eph g k v ?home = insert_probe eph g k v ?s"
    by (rule insert_skip [OF ok home d(3)])
  with insert_probe_free [OF free, of k v] i have r: "r = 0" and h': "h' = insert_at g ?s k v"
    by (simp_all add: insert_at_def)
  from k have "\<not> slot_free eph g k" by (simp add: slot_free_def)
  from live_entries_insert_at [OF s _ free this, of v] lk lv r h' show ?thesis by simp
qed

lemma live_entries_insert:
  assumes inv: "handle_inv n eph h" and k: "\<not> key_is_tombstone eph h k"
    and ab: "\<not> present eph h k"
    and i: "mono_conc_g_hash_table_insert eph h k v = Some (Inr (r, h'))"
  shows "r = 0 \<and> mset (live_entries eph h') = add_mset (k, v) (mset (live_entries eph h))"
proof -
  from inv have cap: "capacity_ok n h" and cnt: "count_ok eph h" by (simp_all add: handle_inv_def)
  from cap have ok: "table_ok n (table h)" and oc: "overflow_count h = load_threshold (2 ^ n)"
    by (simp_all add: capacity_ok_def)
  from ok have ts: "table_size (table h) = 2 ^ n" and lk: "length (keys (table h)) = 2 ^ n"
    and lv: "length (vals (table h)) = 2 ^ n" by (simp_all add: table_ok_def)
  from i have k0: "k \<noteq> 0"
    by (auto simp: mono_conc_g_hash_table_insert_def split: if_splits)
  from i show ?thesis
  proof (cases rule: insert_cases)
    case same
    from cnt same(1) oc load_threshold_lt [of n] have "int (live_count eph h) < 2 ^ n"
      unfolding count_ok_def by linarith
    then have "live_count eph h < length (keys (table h))" unfolding lk
      by (metis of_nat_less_iff of_nat_numeral of_nat_power)
    from free_slot_exists [OF this] lk obtain j where
      j: "j < 2 ^ n" "slot_free eph h (keys (table h) ! j)" by auto
    then have sj: "insert_stop eph h k j" by (simp add: insert_stop_def)
    from same(2) have "insert_probe eph h k v (home_slot (hash_func h) n k) = Some (r, h')"
      by (simp add: ts home_slot_index)
    from live_entries_insert_probe [OF ok j(1) sj k0 k ab this] show ?thesis .
  next
    case (grown h1)
    from expand_capacity [OF cap grown(2)] have cap1: "capacity_ok (Suc n) h1" .
    then have n: "n < 30" by (simp add: capacity_ok_def)
    from expand_table_handle [OF ok n, of eph] grown(2) have
      ok1: "table_ok (Suc n) (table h1)"
      and fill: "mset (filled (table h1)) = mset (live_entries eph h)"
      and cfg: "same_config h h1"
      by auto
    from cfg have hf: "hash_func h1 = hash_func h" and gc: "gc_type h1 = gc_type h"
      by (simp_all add: same_config_def)
    from ok1 have ts1: "table_size (table h1) = 2 ^ Suc n"
      and lk1: "length (keys (table h1)) = 2 ^ Suc n"
      and lv1: "length (vals (table h1)) = 2 ^ Suc n" by (simp_all add: table_ok_def)
    from fill have "size (mset (filled (table h1))) = size (mset (live_entries eph h))" by simp
    then have "length (filled (table h1)) = live_count eph h"
      using live_count_entries [of h eph] lk lv by simp
    also have "live_count eph h \<le> 2 ^ n"
      unfolding live_count_def using length_filter_le [of _ "keys (table h)"] lk by simp
    also have "(2::nat) ^ n < 2 ^ Suc n" by simp
    finally have "length (filled (table h1)) < length (keys (table h1))" by (simp add: lk1)
    from empty_slot_exists [OF _ this] lk1 lv1 obtain j where
      j: "j < 2 ^ Suc n" "keys (table h1) ! j = 0" by auto
    then have sj: "insert_stop eph h1 k j" by (simp add: insert_stop_def slot_free_def)
    have k1: "\<not> key_is_tombstone eph h1 k"
      using k key_is_tombstone_cong [OF gc, of eph] by simp
    have ab1: "\<not> present eph h1 k"
      by (rule expand_keeps_absent [OF _ _ fill cfg ab]) (simp_all add: lk lv lk1 lv1)
    from grown(3) have "insert_probe eph h1 k v (home_slot (hash_func h1) (Suc n) k) = Some (r, h')"
      by (simp add: ts1 home_slot_index hf)
    from live_entries_insert_probe [OF ok1 j(1) sj k0 k1 ab1 this]
      expand_live_entries [OF ok n grown(2)]
    show ?thesis by simp
  qed
qed

lemma live_entries_remove:
  assumes use: "usable eph h" and dk: "distinct_keys eph h"
    and k: "\<not> key_is_tombstone eph h k"
    and eq: "\<forall>b\<in>fst ` set (live_entries eph h). insert_match h k b = (k = b)"
    and r: "mono_conc_g_hash_table_remove eph h k = Some (Inr (r, h'))"
  shows "mset (live_entries eph h') = mset (filter (\<lambda>(a, b). a \<noteq> k) (live_entries eph h))"
proof -
  from usable_handle_inv [OF use] obtain n where inv: "handle_inv n eph h" ..
  then have cap: "capacity_ok n h" and si: "slot_inv eph h" and ma: "modes_agree h"
    by (simp_all add: handle_inv_def)
  from cap have ok: "table_ok n (table h)" by (simp add: capacity_ok_def)
  from ok have lk: "length (keys (table h)) = 2 ^ n" and lv: "length (vals (table h)) = 2 ^ n"
    by (simp_all add: table_ok_def)
  have len: "length (keys (table h)) = length (vals (table h))" by (simp add: lk lv)
  note gc = usable_gc_type [OF use]
  from ma gc have tgc: "table_gc_type (table h) AND MONO_HASH_KEY_GC = 0"
    by (simp add: modes_agree_def)
  from r have k0: "k \<noteq> 0"
    by (auto simp: mono_conc_g_hash_table_remove_def split: if_splits)
  have cs: "can_stop eph h k"
  proof (rule ccontr)
    assume "\<not> can_stop eph h k"
    from no_stop_no_result(2) [OF ok this k0] r show False by simp
  qed
  then obtain j where j: "j < 2 ^ n" "lookup_stop eph h k j"
    unfolding can_stop_iff [OF ok] by blast
  let ?home = "home_slot (hash_func h) n k"
  from first_stop [of j "2 ^ n" "lookup_stop eph h k" ?home, OF j home_slot_lt] obtain d where
    d: "d < 2 ^ n" "lookup_stop eph h k ((?home + d) mod 2 ^ n)"
       "\<forall>e<d. \<not> lookup_stop eph h k ((?home + e) mod 2 ^ n)"
    by blast
  let ?s = "(?home + d) mod 2 ^ n"
  have s: "?s < length (keys (table h))" by (simp add: lk)
  from d(3) have path: "list_all (\<lambda>j. \<not> lookup_stop eph h k j) (probe_path n ?home d)"
    by (simp add: probe_path_all)
  note rem = remove_first_stop [OF ok d(1) path d(2) k0]
  from slot_inv_match_has_value [OF si k] have mv: "match_has_value eph h k" .
  note look = lookup_first_stop [OF ok d(1) path d(2) mv]
  show ?thesis
  proof (cases "keys (table h) ! ?s = 0")
    case True
    with rem r have h': "h' = h" by (simp add: Let_def)
    have "a \<noteq> k" if "(a, b) \<in> set (live_entries eph h)" for a b
    proof
      assume "a = k"
      with that usable_lookup_live [OF use dk, of k b]
      have "mono_conc_g_hash_table_lookup_extended eph h k = Some (True, k, b)" by simp
      with look True show False by (simp add: Let_def)
    qed
    then have "filter (\<lambda>(a, b). a \<noteq> k) (live_entries eph h) = live_entries eph h"
      by (intro filter_True) auto
    with h' show ?thesis by simp
  next
    case False
    with rem r have h': "h' = remove_at eph h ?s" by (simp add: Let_def)
    from False d(2) have m: "lookup_match eph h k (keys (table h) ! ?s)"
      by (simp add: lookup_stop_def)
    with k have nt: "\<not> key_is_tombstone eph h (keys (table h) ! ?s)"
      by (auto simp: lookup_match_def split: option.splits)
    with False have live: "\<not> slot_free eph h (keys (table h) ! ?s)" by (simp add: slot_free_def)
    with s have "keys (table h) ! ?s \<in> fst ` set (live_entries eph h)"
      unfolding live_key_set [OF len] by simp
    with eq have "insert_match h k (keys (table h) ! ?s) = (k = keys (table h) ! ?s)" by blast
    with lookup_match_imp_insert_match [OF m] have ks: "keys (table h) ! ?s = k" by simp
    from s len live have mem: "(keys (table h) ! ?s, vals (table h) ! ?s) \<in> set (live_entries eph h)"
      unfolding live_entries_def by (auto simp: in_set_zip)
    from dk have dist: "distinct (map fst (live_entries eph h))" by (simp add: distinct_keys_iff)
    from live_entries_remove_at [OF s len live gc tgc] h'
    have "mset (live_entries eph h')
        = mset (live_entries eph h) - {#(k, vals (table h) ! ?s)#}" by (simp add: ks)
    also from mset_filter_key [OF dist, of k "vals (table h) ! ?s"] mem
    have "\<dots> = mset (filter (\<lambda>(a, b). a \<noteq> k) (live_entries eph h))" by (simp add: ks)
    finally show ?thesis .
  qed
qed

lemma keys_told_apart_iff:
  "keys_told_apart h ks \<longleftrightarrow> (\<forall>a\<in>set ks. \<forall>b\<in>set ks. insert_match h a b = (a = b))"
  by (simp add: keys_told_apart_def list_all_iff)

lemma told_apart_distinct_keys:
  assumes ta: "keys_told_apart h K" and live: "mset (live_entries eph h) = mset acc"
    and dist: "distinct (map fst acc)" and sub: "fst ` set acc \<subseteq> set K"
  shows "distinct_keys eph h"
proof -
  from live have "mset (map fst (live_entries eph h)) = mset (map fst acc)" by (metis mset_map)
  with dist have "distinct (map fst (live_entries eph h))" by (metis mset_eq_imp_distinct_iff)
  moreover from live have "set (live_entries eph h) = set acc" by (rule mset_eq_setD)
  ultimately show ?thesis using ta sub unfolding distinct_keys_iff keys_told_apart_iff by blast
qed

lemma told_apart_absent:
  assumes use: "usable eph h" and ta: "keys_told_apart h K"
    and live: "mset (live_entries eph h) = mset acc"
    and sub: "fst ` set acc \<subseteq> set K" and k: "k \<in> set K" "k \<notin> fst ` set acc"
  shows "\<not> present eph h k"
proof
  assume "present eph h k"
  then obtain ck where ck: "ck \<in> set (keys (table h))" "\<not> slot_free eph h ck"
    "insert_match h k ck" unfolding present_iff by blast
  from usable_handle_inv [OF use] obtain n where "handle_inv n eph h" ..
  then have "table_ok n (table h)" by (simp add: handle_inv_def capacity_ok_def)
  then have len: "length (keys (table h)) = length (vals (table h))" by (simp add: table_ok_def)
  from live have "set (live_entries eph h) = set acc" by (rule mset_eq_setD)
  with ck(1,2) have mem: "ck \<in> fst ` set acc"
    using live_key_set [OF len, of eph] by auto
  with sub ta k(1) have "insert_match h k ck = (k = ck)" unfolding keys_told_apart_iff by blast
  with ck(3) mem k(2) show False by simp
qed

lemma run_contents:
  assumes "usable eph h" "mset (live_entries eph h) = mset acc" "distinct (map fst acc)"
    "fst ` set acc \<subseteq> set K" "op_key ` set ops \<subseteq> set K" "keys_told_apart h K"
    "list_all (\<lambda>x. op_key x \<noteq> PTR_TOMBSTONE) ops" "absent_inserts acc ops"
    "run_ops eph h ops = Some (rs, h')"
  shows "usable eph h' \<and> mset (live_entries eph h') = mset (contents_after acc ops)
       \<and> distinct (map fst (contents_after acc ops))
       \<and> fst ` set (contents_after acc ops) \<subseteq> set K \<and> same_config h h'"
  using assms
proof (induction ops arbitrary: h acc rs)
  case Nil
  then show ?case using same_config_refl by auto
next
  case (Cons x ops)
  from Cons.prems(9) obtain r h1 rs' where
    step: "apply_op eph h x = Some (Inr (r, h1))" and rest: "run_ops eph h1 ops = Some (rs', h')"
    by (auto split: option.splits sum.splits prod.splits)
  from Cons.prems(7) have kx: "\<not> key_is_tombstone eph h (op_key x)"
    and mf: "list_all (\<lambda>x. op_key x \<noteq> PTR_TOMBSTONE) ops"
    using usable_tombstone [OF Cons.prems(1)] by simp_all
  from Cons.prems(5) have kK: "op_key x \<in> set K" and sub: "op_key ` set ops \<subseteq> set K" by simp_all
  from usable_handle_inv [OF Cons.prems(1)] obtain n where inv: "handle_inv n eph h" ..
  show ?case
  proof (cases x)
    case (Insert k v)
    with step have i: "mono_conc_g_hash_table_insert eph h k v = Some (Inr (r, h1))" by simp
    from Insert Cons.prems(8) have fresh: "k \<notin> fst ` set acc"
      and ai: "absent_inserts (acc @ [(k, v)]) ops" by simp_all
    from Insert kx kK have k: "\<not> key_is_tombstone eph h k" "k \<in> set K" by simp_all
    from told_apart_absent [OF Cons.prems(1,6,2,4) k(2) fresh] have ab: "\<not> present eph h k" .
    from live_entries_insert [OF inv k(1) ab i] Cons.prems(2)
    have live1: "mset (live_entries eph h1) = mset (acc @ [(k, v)])" by simp
    from usable_insert [OF Cons.prems(1) k(1) i] have use1: "usable eph h1" .
    from insert_frame [OF i] have cfg: "same_config h h1" .
    then have "insert_match h1 = insert_match h"
      by (intro insert_match_cong) (simp add: same_config_def)
    with Cons.prems(6) have ta1: "keys_told_apart h1 K" by (simp add: keys_told_apart_def)
    from Cons.prems(3) fresh have d1: "distinct (map fst (acc @ [(k, v)]))" by simp
    from Cons.prems(4) k(2) have s1: "fst ` set (acc @ [(k, v)]) \<subseteq> set K" by simp
    from Cons.IH [OF use1 live1 d1 s1 sub ta1 mf ai rest] cfg Insert show ?thesis
      by (auto intro: same_config_trans)
  next
    case (Remove k)
    with step have rm: "mono_conc_g_hash_table_remove eph h k = Some (Inr (r, h1))" by simp
    from Remove Cons.prems(8) have ai: "absent_inserts (filter (\<lambda>(a, b). a \<noteq> k) acc) ops"
      by simp
    from Remove kx kK have k: "\<not> key_is_tombstone eph h k" "k \<in> set K" by simp_all
    from told_apart_distinct_keys [OF Cons.prems(6,2,3,4)] have dk: "distinct_keys eph h" .
    from Cons.prems(2) have sets: "set (live_entries eph h) = set acc" by (rule mset_eq_setD)
    with Cons.prems(4,6) k(2)
    have eq: "\<forall>b\<in>fst ` set (live_entries eph h). insert_match h k b = (k = b)"
      unfolding keys_told_apart_iff by blast
    from live_entries_remove [OF Cons.prems(1) dk k(1) eq rm]
    have "mset (live_entries eph h1) = filter_mset (\<lambda>(a, b). a \<noteq> k) (mset (live_entries eph h))"
      by simp
    with Cons.prems(2)
    have live1: "mset (live_entries eph h1) = mset (filter (\<lambda>(a, b). a \<noteq> k) acc)" by simp
    from usable_remove [OF Cons.prems(1) k(1) rm] have use1: "usable eph h1" .
    from remove_frame [OF rm] have cfg: "same_config h h1" by (simp add: frame_def)
    then have "insert_match h1 = insert_match h"
      by (intro insert_match_cong) (simp add: same_config_def)
    with Cons.prems(6) have ta1: "keys_told_apart h1 K" by (simp add: keys_told_apart_def)
    from Cons.prems(3) have d1: "distinct (map fst (filter (\<lambda>(a, b). a \<noteq> k) acc))"
      by (rule distinct_map_filter)
    from Cons.prems(4) have s1: "fst ` set (filter (\<lambda>(a, b). a \<noteq> k) acc) \<subseteq> set K" by auto
    from Cons.IH [OF use1 live1 d1 s1 sub ta1 mf ai rest] cfg Remove show ?thesis
      by (auto intro: same_config_trans)
  qed
qed

lemma run_membership:
  assumes new: "mono_conc_g_hash_table_new_type hf ef ty = Inr h0"
    and ty: "ty AND MONO_HASH_KEY_GC = 0"
    and mf: "list_all (\<lambda>x. op_key x \<noteq> PTR_TOMBSTONE) ops"
    and ai: "absent_inserts [] ops"
    and ta: "keys_told_apart h0 (map op_key ops)"
    and run: "run_ops eph h0 ops = Some (rs, h)"
  shows "mset (live_entries eph h) = mset (contents_after [] ops)
       \<and> (\<forall>(k, v)\<in>set (contents_after [] ops).
            mono_conc_g_hash_table_lookup_extended eph h k = Some (True, k, v))
       \<and> (\<forall>k ck v. k \<noteq> PTR_TOMBSTONE
              \<and> (\<forall>b\<in>fst ` set (contents_after [] ops). \<not> insert_match h0 k b)
            \<longrightarrow> mono_conc_g_hash_table_lookup_extended eph h k \<noteq> Some (True, ck, v))"
proof -
  let ?K = "map op_key ops"
  let ?C = "contents_after [] ops"
  from usable_new [OF new ty] have use0: "usable eph h0" .
  from new have "live_entries eph h0 = []"
    by (auto simp: mono_conc_g_hash_table_new_type_def conc_table_new_def INITIAL_SIZE_def Let_def
          live_entries_def slot_free_def filter_empty_conv dest!: set_zip_leftD split: if_splits)
  then have l0: "mset (live_entries eph h0) = mset []" by simp
  from run_contents [OF use0 l0 _ _ _ ta mf ai run]
  have use: "usable eph h" and live: "mset (live_entries eph h) = mset ?C"
    and dist: "distinct (map fst ?C)" and sub: "fst ` set ?C \<subseteq> set ?K"
    and cfg: "same_config h0 h"
    by simp_all
  from cfg have im: "insert_match h = insert_match h0"
    by (intro insert_match_cong) (simp add: same_config_def)
  with ta have ta': "keys_told_apart h ?K" by (simp add: keys_told_apart_def)
  from told_apart_distinct_keys [OF ta' live dist sub] have dk: "distinct_keys eph h" .
  from live have sets: "set (live_entries eph h) = set ?C" by (rule mset_eq_setD)
  have found: "mono_conc_g_hash_table_lookup_extended eph h k = Some (True, k, v)"
    if "(k, v) \<in> set ?C" for k v
    using usable_lookup_live [OF use dk, of k v] that sets by simp
  have other: "mono_conc_g_hash_table_lookup_extended eph h k \<noteq> Some (True, ck, v)"
    if k: "k \<noteq> PTR_TOMBSTONE" and nm: "\<forall>b\<in>fst ` set ?C. \<not> insert_match h0 k b" for k ck v
  proof (rule usable_lookup_absent [OF use])
    from k show "\<not> key_is_tombstone eph h k" by (simp add: usable_tombstone [OF use])
    from usable_handle_inv [OF use] obtain n where "handle_inv n eph h" ..
    then have "table_ok n (table h)" by (simp add: handle_inv_def capacity_ok_def)
    then have len: "length (keys (table h)) = length (vals (table h))"
      by (simp add: table_ok_def)
    show "\<not> present eph h k"
    proof
      assume "present eph h k"
      then obtain b where b: "b \<in> set (keys (table h))" "\<not> slot_free eph h b"
        "insert_match h k b" unfolding present_iff by blast
      from b(1,2) sets have "b \<in> fst ` set ?C" using live_key_set [OF len, of eph] by auto
      with nm b(3) show False unfolding im by blast
    qed
  qed
  from live found other show ?thesis by blast
qed

lemma run_ops_append:
  "run_ops eph h xs = Some (rs, h1) \<Longrightarrow> run_ops eph h1 ys = Some (rs', h2)
     \<Longrightarrow> run_ops eph h (xs @ ys) = Some (rs @ rs', h2)"
proof (induction xs arbitrary: h rs)
  case Nil
  then show ?case by simp
next
  case (Cons x xs)
  from Cons.prems(1) obtain r g rs0 where
    step: "apply_op eph h x = Some (Inr (r, g))" and rest: "run_ops eph g xs = Some (rs0, h1)"
    and rs: "rs = r # rs0"
    by (auto split: option.splits sum.splits prod.splits)
  from Cons.IH [OF rest Cons.prems(2)] step rs show ?case by simp
qed

lemma run_mixed_tail:
  "run_ops 99 h_full [Remove 5, Insert 25 125, Insert 26 126] = Some ([105, 0, 0], h_mixed)"
  by (simp add: h_full_def h_mixed_def eval_defs list_eval expand_defs)

lemma run_mixed: "run_ops 99 h_new mixed_ops = Some (replicate 24 0 @ [105, 0, 0], h_mixed)"
proof -
  from run_full new_is_h_new
  have "run_ops 99 h_new filling_ops = Some (replicate 24 0, h_full)"
    by (simp add: run_new_def)
  from run_ops_append [OF this run_mixed_tail] show ?thesis by (simp add: mixed_ops_def)
qed

lemma mixed_facts:
  "list_all (\<lambda>x. op_key x \<noteq> PTR_TOMBSTONE) mixed_ops" "absent_inserts [] mixed_ops"
  "keys_told_apart h_new (map op_key mixed_ops)"
  "(17, 117) \<in> set (contents_after [] mixed_ops)"
  "list_all (\<lambda>b. b \<noteq> 5) (map fst (contents_after [] mixed_ops))"
  "MONO_HASH_CONSERVATIVE_GC AND MONO_HASH_KEY_GC = 0" "(5 :: gpointer) \<noteq> PTR_TOMBSTONE"
  "table_size (table h_mixed) = 64"
proof -
  have ef: "equal_func h_new = None" by (simp add: h_new_def)
  show "list_all (\<lambda>x. op_key x \<noteq> PTR_TOMBSTONE) mixed_ops"
    by (simp add: mixed_ops_def filling_ops_def upt_conv_Cons PTR_TOMBSTONE_def)
  show "absent_inserts [] mixed_ops"
    by (simp add: mixed_ops_def filling_ops_def upt_conv_Cons)
  show "keys_told_apart h_new (map op_key mixed_ops)"
    by (simp add: keys_told_apart_iff insert_match_identity [OF ef])
  show "(17, 117) \<in> set (contents_after [] mixed_ops)"
    "list_all (\<lambda>b. b \<noteq> 5) (map fst (contents_after [] mixed_ops))"
    by (simp_all add: mixed_ops_def filling_ops_def upt_conv_Cons)
  show "MONO_HASH_CONSERVATIVE_GC AND MONO_HASH_KEY_GC = 0"
    by (simp add: MONO_HASH_CONSERVATIVE_GC_def)
  show "(5 :: gpointer) \<noteq> PTR_TOMBSTONE" by (simp add: PTR_TOMBSTONE_def)
  show "table_size (table h_mixed) = 64" by (simp add: h_mixed_def)
qed


section \<open>The claims\<close>

text \<open>
  C1. For a key that is present, remove returns the stored value, makes a later lookup
  miss, decrements the live-element count by one and runs the destroy callbacks, with
  and without an equality function.

  The count is not decremented when the table has an equality function: after
  \<^verbatim>\<open>insert(1, 7); remove(1)\<close> on such a table the removal returns 7 and no slot is live, yet
  \<^verbatim>\<open>element_count\<close> is still 1. The same calls on a table without an equality function
  leave it at 0.
\<close>

theorem remove_with_equal_func_keeps_count:
  "run_new 99 None (Some (=)) MONO_HASH_CONSERVATIVE_GC [Insert 1 7, Remove 1]
     = Some ([0, 7], h_eq_removed)
   \<and> element_count h_eq_removed = 1 \<and> live_count 99 h_eq_removed = 0
   \<and> run_new 99 None None MONO_HASH_CONSERVATIVE_GC [Insert 1 7, Remove 1]
     = Some ([0, 7], h_id_removed)
   \<and> element_count h_id_removed = 0"
proof -
  have "element_count h_eq_removed = 1" by (simp add: h_eq_removed_def)
  moreover have "element_count h_id_removed = 0" by (simp add: h_id_removed_def)
  ultimately show ?thesis
    using run_eq_removed run_id_removed live_count_eq_removed by simp
qed

text \<open>
  C2. Every operation terminates on every reachable table; lookup and remove in
  particular, with the probe sequence bounded by the capacity, also when tombstones have
  accumulated.

  Counterexample: inserting and removing each of the keys 1 to 37 leaves a tombstone in
  every one of the 32 slots and resizes nothing, since only live elements are counted.
  On that reachable table, which has no empty slot, neither the lookup nor the remove of
  key 38 returns.
\<close>

theorem lookup_diverges_on_saturated_table:
  "reachable 99 h_saturated \<and> 0 \<notin> set (keys (table h_saturated))
   \<and> mono_conc_g_hash_table_lookup_extended 99 h_saturated 38 = None
   \<and> mono_conc_g_hash_table_remove 99 h_saturated 38 = None"
proof -
  have k: "(38 :: gpointer) \<noteq> 0" by simp
  note none = no_stop_no_result [OF h_saturated_facts]
  from saturate obtain rs where
    "run_new 99 None None MONO_HASH_CONSERVATIVE_GC saturating_ops = Some (rs, h_saturated)"
    by auto
  from run_new_reachable [OF this] have "reachable 99 h_saturated" .
  moreover have "0 \<notin> set (keys (table h_saturated))" by (simp add: h_saturated_def)
  ultimately show ?thesis using none(1) none(2) [OF k] by simp
qed

text \<open>
  C2, amended. Let the table be reached from a new table, built in a mode that does not
  track keys, by inserts and removes that return and do not pass the tombstone marker as
  a key. Insert returns for every key and value, and so does \<^verbatim>\<open>expand_table\<close>. For a key
  that is neither null nor the marker, lookup and remove return exactly when some slot
  of the generation, of capacity \<open>2 ^ n\<close>, is empty or holds a matching key. Their probe
  then stops \<open>d < 2 ^ n\<close> steps after the home slot, at the first such slot: not-found at
  an empty slot, found with that slot's key and value at a matching one, also when no
  slot is empty. When every slot holds a tombstone or another key, lookup and remove of
  the key do not return.
\<close>

theorem operations_terminate:
  assumes use: "usable eph h"
  shows "\<exists>n. table_ok n (table h)
    \<and> (\<exists>r. mono_conc_g_hash_table_insert eph h k v = Some r)
    \<and> (\<exists>r. expand_table eph h = Some r)
    \<and> (k \<noteq> 0 \<and> \<not> key_is_tombstone eph h k \<longrightarrow>
         (if can_stop eph h k
          then \<exists>d<2 ^ n.
              (\<forall>e<d. \<not> lookup_stop eph h k ((slot_index (mix_hash (hash_func h k)) (2 ^ n) + e) mod 2 ^ n))
            \<and> lookup_stop eph h k ((slot_index (mix_hash (hash_func h k)) (2 ^ n) + d) mod 2 ^ n)
            \<and> mono_conc_g_hash_table_lookup_extended eph h k
                = Some (if keys (table h) ! ((slot_index (mix_hash (hash_func h k)) (2 ^ n) + d) mod 2 ^ n) = 0
                        then (False, 0, 0)
                        else (True, keys (table h) ! ((slot_index (mix_hash (hash_func h k)) (2 ^ n) + d) mod 2 ^ n),
                              vals (table h) ! ((slot_index (mix_hash (hash_func h k)) (2 ^ n) + d) mod 2 ^ n)))
            \<and> (\<exists>h'. mono_conc_g_hash_table_remove eph h k
                = Some (Inr (if keys (table h) ! ((slot_index (mix_hash (hash_func h k)) (2 ^ n) + d) mod 2 ^ n) = 0
                             then 0
                             else vals (table h) ! ((slot_index (mix_hash (hash_func h k)) (2 ^ n) + d) mod 2 ^ n), h')))
          else mono_conc_g_hash_table_lookup_extended eph h k = None
             \<and> mono_conc_g_hash_table_remove eph h k = None))"
proof -
  from usable_handle_inv [OF use] obtain n where inv: "handle_inv n eph h" ..
  then have cap: "capacity_ok n h" and si: "slot_inv eph h" by (simp_all add: handle_inv_def)
  from cap have ok: "table_ok n (table h)" by (simp add: capacity_ok_def)
  note ins = handle_inv_insert_returns [OF inv, of k v]
  note grow = expand_table_returns [OF cap, of eph]
  have probe: "if can_stop eph h k
          then \<exists>d<2 ^ n.
              (\<forall>e<d. \<not> lookup_stop eph h k ((slot_index (mix_hash (hash_func h k)) (2 ^ n) + e) mod 2 ^ n))
            \<and> lookup_stop eph h k ((slot_index (mix_hash (hash_func h k)) (2 ^ n) + d) mod 2 ^ n)
            \<and> mono_conc_g_hash_table_lookup_extended eph h k
                = Some (if keys (table h) ! ((slot_index (mix_hash (hash_func h k)) (2 ^ n) + d) mod 2 ^ n) = 0
                        then (False, 0, 0)
                        else (True, keys (table h) ! ((slot_index (mix_hash (hash_func h k)) (2 ^ n) + d) mod 2 ^ n),
                              vals (table h) ! ((slot_index (mix_hash (hash_func h k)) (2 ^ n) + d) mod 2 ^ n)))
            \<and> (\<exists>h'. mono_conc_g_hash_table_remove eph h k
                = Some (Inr (if keys (table h) ! ((slot_index (mix_hash (hash_func h k)) (2 ^ n) + d) mod 2 ^ n) = 0
                             then 0
                             else vals (table h) ! ((slot_index (mix_hash (hash_func h k)) (2 ^ n) + d) mod 2 ^ n), h')))
          else mono_conc_g_hash_table_lookup_extended eph h k = None
             \<and> mono_conc_g_hash_table_remove eph h k = None"
    if k: "k \<noteq> 0" "\<not> key_is_tombstone eph h k"
  proof (cases "can_stop eph h k")
    case True
    then obtain j where j: "j < 2 ^ n" and sj: "lookup_stop eph h k j"
      unfolding can_stop_iff [OF ok] by blast
    from slot_inv_match_has_value [OF si k(2)] have mv: "match_has_value eph h k" .
    from lookup_remove_first_stop [OF ok j sj k(1) mv] True show ?thesis by simp
  next
    case False
    from no_stop_no_result [OF ok False] k(1) False show ?thesis by simp
  qed
  from ok ins grow probe show ?thesis by blast
qed

theorem operations_terminate_witness:
  "usable 99 h_id_removed \<and> (1 :: gpointer) \<noteq> 0 \<and> \<not> key_is_tombstone 99 h_id_removed 1
   \<and> can_stop 99 h_id_removed 1 \<and> keys (table h_id_removed) ! 3 = PTR_TOMBSTONE
   \<and> slot_index (mix_hash (hash_func h_id_removed 1)) (2 ^ 5) = 3
   \<and> mono_conc_g_hash_table_lookup_extended 99 h_id_removed 1 = Some (False, 0, 0)
   \<and> (\<exists>h'. mono_conc_g_hash_table_remove 99 h_id_removed 1 = Some (Inr (0, h')))
   \<and> (\<exists>r. mono_conc_g_hash_table_insert 99 h_id_removed 1 8 = Some r)
   \<and> (\<exists>r. expand_table 99 h_id_removed = Some r)
   \<and> usable 99 h_saturated_one \<and> 0 \<notin> set (keys (table h_saturated_one))
   \<and> (38 :: gpointer) \<noteq> 0 \<and> \<not> key_is_tombstone 99 h_saturated_one 38
   \<and> can_stop 99 h_saturated_one 38
   \<and> mono_conc_g_hash_table_lookup_extended 99 h_saturated_one 38 = Some (True, 38, 138)
   \<and> (\<exists>h'. mono_conc_g_hash_table_remove 99 h_saturated_one 38 = Some (Inr (138, h')))
   \<and> (39 :: gpointer) \<noteq> 0 \<and> \<not> key_is_tombstone 99 h_saturated_one 39
   \<and> \<not> can_stop 99 h_saturated_one 39
   \<and> mono_conc_g_hash_table_lookup_extended 99 h_saturated_one 39 = None
   \<and> mono_conc_g_hash_table_remove 99 h_saturated_one 39 = None
   \<and> (\<exists>r. mono_conc_g_hash_table_insert 99 h_saturated_one 39 5 = Some r)"
proof -
  have nz: "(1 :: gpointer) \<noteq> 0" "(38 :: gpointer) \<noteq> 0" "(39 :: gpointer) \<noteq> 0" by simp_all
  \<comment> \<open>a table with a tombstone on the probe path\<close>
  from operations_terminate [OF usable_id_removed, of 1 8] nz(1) h_id_removed_facts(3)
    h_id_removed_probe(1)
  obtain n d where ok: "table_ok n (table h_id_removed)"
    and ins: "\<exists>r. mono_conc_g_hash_table_insert 99 h_id_removed 1 8 = Some r"
    and grow: "\<exists>r. expand_table 99 h_id_removed = Some r"
    and d: "d < 2 ^ n"
    and stop: "lookup_stop 99 h_id_removed 1
        ((slot_index (mix_hash (hash_func h_id_removed 1)) (2 ^ n) + d) mod 2 ^ n)"
    and look: "mono_conc_g_hash_table_lookup_extended 99 h_id_removed 1
        = Some (if keys (table h_id_removed)
                     ! ((slot_index (mix_hash (hash_func h_id_removed 1)) (2 ^ n) + d) mod 2 ^ n) = 0
                then (False, 0, 0)
                else (True, keys (table h_id_removed)
                     ! ((slot_index (mix_hash (hash_func h_id_removed 1)) (2 ^ n) + d) mod 2 ^ n),
                      vals (table h_id_removed)
                     ! ((slot_index (mix_hash (hash_func h_id_removed 1)) (2 ^ n) + d) mod 2 ^ n)))"
    and rem: "\<exists>h'. mono_conc_g_hash_table_remove 99 h_id_removed 1
        = Some (Inr (if keys (table h_id_removed)
                     ! ((slot_index (mix_hash (hash_func h_id_removed 1)) (2 ^ n) + d) mod 2 ^ n) = 0
                     then 0
                     else vals (table h_id_removed)
                     ! ((slot_index (mix_hash (hash_func h_id_removed 1)) (2 ^ n) + d) mod 2 ^ n), h'))"
    by auto
  let ?s = "(slot_index (mix_hash (hash_func h_id_removed 1)) (2 ^ n) + d) mod 2 ^ n"
  from ok have "?s < length (keys (table h_id_removed))" by (simp add: table_ok_def)
  with h_id_removed_probe(4) stop have "keys (table h_id_removed) ! ?s = 0"
    by (auto simp: list_all_length lookup_stop_def)
  with look rem have a: "mono_conc_g_hash_table_lookup_extended 99 h_id_removed 1 = Some (False, 0, 0)"
    "\<exists>h'. mono_conc_g_hash_table_remove 99 h_id_removed 1 = Some (Inr (0, h'))"
    by simp_all
  \<comment> \<open>a generation without an empty slot: a present key\<close>
  from operations_terminate [OF usable_saturated_one, of 38 5] nz(2) h_saturated_one_facts(2,4)
  obtain m c where ok1: "table_ok m (table h_saturated_one)"
    and c: "c < 2 ^ m"
    and stop1: "lookup_stop 99 h_saturated_one 38
        ((slot_index (mix_hash (hash_func h_saturated_one 38)) (2 ^ m) + c) mod 2 ^ m)"
    and look1: "mono_conc_g_hash_table_lookup_extended 99 h_saturated_one 38
        = Some (if keys (table h_saturated_one)
                     ! ((slot_index (mix_hash (hash_func h_saturated_one 38)) (2 ^ m) + c) mod 2 ^ m) = 0
                then (False, 0, 0)
                else (True, keys (table h_saturated_one)
                     ! ((slot_index (mix_hash (hash_func h_saturated_one 38)) (2 ^ m) + c) mod 2 ^ m),
                      vals (table h_saturated_one)
                     ! ((slot_index (mix_hash (hash_func h_saturated_one 38)) (2 ^ m) + c) mod 2 ^ m)))"
    and rem1: "\<exists>h'. mono_conc_g_hash_table_remove 99 h_saturated_one 38
        = Some (Inr (if keys (table h_saturated_one)
                     ! ((slot_index (mix_hash (hash_func h_saturated_one 38)) (2 ^ m) + c) mod 2 ^ m) = 0
                     then 0
                     else vals (table h_saturated_one)
                     ! ((slot_index (mix_hash (hash_func h_saturated_one 38)) (2 ^ m) + c) mod 2 ^ m), h'))"
    by auto
  let ?t = "(slot_index (mix_hash (hash_func h_saturated_one 38)) (2 ^ m) + c) mod 2 ^ m"
  from ok1 have "?t < length (keys (table h_saturated_one))" by (simp add: table_ok_def)
  with h_saturated_one_facts(6) stop1 have "keys (table h_saturated_one) ! ?t = 38
      \<and> vals (table h_saturated_one) ! ?t = 138"
    by (auto simp: list_all2_conv_all_nth lookup_stop_def)
  with look1 rem1 have b: "mono_conc_g_hash_table_lookup_extended 99 h_saturated_one 38
      = Some (True, 38, 138)"
    "\<exists>h'. mono_conc_g_hash_table_remove 99 h_saturated_one 38 = Some (Inr (138, h'))"
    by simp_all
  \<comment> \<open>the same generation: an absent key\<close>
  from operations_terminate [OF usable_saturated_one, of 39 5] nz(3) h_saturated_one_facts(3,5)
  have e: "mono_conc_g_hash_table_lookup_extended 99 h_saturated_one 39 = None"
    "mono_conc_g_hash_table_remove 99 h_saturated_one 39 = None"
    "\<exists>r. mono_conc_g_hash_table_insert 99 h_saturated_one 39 5 = Some r"
    by auto
  from a b e ins grow nz usable_id_removed usable_saturated_one h_id_removed_facts(3)
    h_id_removed_probe(1,2,3) h_saturated_one_facts(1,2,3,4,5)
  show ?thesis by blast
qed

text \<open>
  C3. For non-null \<open>k\<close> and \<open>v\<close> with \<open>k\<close> not present, insert succeeds and a following
  lookup returns \<open>(k, v)\<close>.

  Counterexample: the key \<^verbatim>\<open>PTR_TOMBSTONE\<close> is not null and is absent from a new table
  with an equality function; insert stores it and returns NULL, and the lookup that
  follows skips the slot as a tombstone and reports not-found.
\<close>

theorem insert_sentinel_not_found:
  "run_new 99 None (Some (=)) MONO_HASH_CONSERVATIVE_GC [Insert PTR_TOMBSTONE 7]
     = Some ([0], h_sentinel_equal)
   \<and> PTR_TOMBSTONE \<noteq> 0
   \<and> mono_conc_g_hash_table_lookup_extended 99 h_sentinel_equal PTR_TOMBSTONE
     = Some (False, 0, 0)"
proof -
  have "mono_conc_g_hash_table_lookup_extended 99 h_sentinel_equal PTR_TOMBSTONE
     = Some (False, 0, 0)"
    by (simp add: h_sentinel_equal_def eval_defs list_eval)
  moreover have "PTR_TOMBSTONE \<noteq> 0" by (simp add: PTR_TOMBSTONE_def)
  ultimately show ?thesis using run_sentinel_equal by simp
qed

text \<open>
  C3, amended. Let the table be reached from a new table, built in a mode that does not
  track keys, by inserts and removes that return and do not pass the tombstone marker as
  a key, and let it have room to grow (a capacity below \<open>2 ^ 30\<close>, or the count below the
  threshold). For a non-null value and a key that is neither null nor the marker, that
  compares equal to itself and is not present, insert returns NULL and the lookup that
  follows returns the key and the value; the free slot taken may be a tombstone, and the
  insert may resize first.
\<close>

theorem insert_absent_then_lookup:
  assumes use: "usable eph h"
    and room: "table_size (table h) < 2 ^ 30 \<or> element_count h < overflow_count h"
    and k: "k \<noteq> 0" "\<not> key_is_tombstone eph h k" and v: "v \<noteq> 0"
    and absent: "\<not> present eph h k" and refl: "insert_match h k k"
  shows "\<exists>h'. mono_conc_g_hash_table_insert eph h k v = Some (Inr (0, h'))
           \<and> mono_conc_g_hash_table_lookup_extended eph h' k = Some (True, k, v)
           \<and> usable eph h'"
proof -
  from usable_handle_inv [OF use] obtain n where inv: "handle_inv n eph h" ..
  then have cap: "capacity_ok n h" and cnt: "count_ok eph h" by (simp_all add: handle_inv_def)
  from room capacity_ok_lt [OF cap] have n: "n < 30 \<or> element_count h < overflow_count h"
    by blast
  from insert_absent_lookup [OF cap n cnt k v absent refl] obtain h' where
    i: "mono_conc_g_hash_table_insert eph h k v = Some (Inr (0, h'))"
    and l: "mono_conc_g_hash_table_lookup_extended eph h' k = Some (True, k, v)" by blast
  from usable_insert [OF use k(2) i] have "usable eph h'" .
  with i l show ?thesis by blast
qed

theorem insert_absent_then_lookup_witness:
  "usable 99 h_id_removed \<and> table_size (table h_id_removed) < 2 ^ 30 \<and> (1 :: gpointer) \<noteq> 0
   \<and> \<not> key_is_tombstone 99 h_id_removed 1 \<and> (8 :: gpointer) \<noteq> 0
   \<and> \<not> present 99 h_id_removed 1 \<and> insert_match h_id_removed 1 1
   \<and> keys (table h_id_removed) ! 3 = PTR_TOMBSTONE
   \<and> (\<exists>h'. mono_conc_g_hash_table_insert 99 h_id_removed 1 8 = Some (Inr (0, h'))
          \<and> mono_conc_g_hash_table_lookup_extended 99 h' 1 = Some (True, 1, 8))"
proof -
  have sz: "table_size (table h_id_removed) < 2 ^ 30" by (simp add: h_id_removed_def)
  then have room: "table_size (table h_id_removed) < 2 ^ 30
      \<or> element_count h_id_removed < overflow_count h_id_removed" ..
  have k: "(1 :: gpointer) \<noteq> 0" and v: "(8 :: gpointer) \<noteq> 0" by simp_all
  have t: "keys (table h_id_removed) ! 3 = PTR_TOMBSTONE"
    by (simp add: h_id_removed_def PTR_TOMBSTONE_def)
  from insert_absent_then_lookup [OF usable_id_removed room k h_id_removed_facts(3) v
      h_id_removed_facts(4,5)]
  show ?thesis using usable_id_removed sz h_id_removed_facts(3,4,5) k v t by blast
qed

text \<open>
  C4. Resizing preserves membership: the resize reinserts exactly the live entries of the
  old generation, so that after inserting N distinct keys across one or more doublings
  every inserted key that was not removed is found with its value, and no other key is.

  Counterexample: the tombstone marker is a non-null key, and insert accepts it. On a
  table without an equality function \<^verbatim>\<open>insert(PTR_TOMBSTONE, 7)\<close> and the inserts of the keys
  1 to 23 fill the first generation to its threshold of 24, and lookup finds the marker
  with its value 7. The insert of key 24 resizes first; the resize skips the marker as a
  tombstone, and lookup no longer finds it.
\<close>

theorem resize_drops_sentinel_key:
  "run_new 99 None None MONO_HASH_CONSERVATIVE_GC sentinel_ops
     = Some (replicate 24 0, h_sentinel_full)
   \<and> table_size (table h_sentinel_full) = 32
   \<and> mono_conc_g_hash_table_lookup_extended 99 h_sentinel_full PTR_TOMBSTONE
       = Some (True, PTR_TOMBSTONE, 7)
   \<and> mono_conc_g_hash_table_insert 99 h_sentinel_full 24 124 = Some (Inr (0, h_sentinel_grown))
   \<and> table_size (table h_sentinel_grown) = 64
   \<and> mono_conc_g_hash_table_lookup_extended 99 h_sentinel_grown PTR_TOMBSTONE
       = Some (False, 0, 0)"
proof -
  have "mono_conc_g_hash_table_lookup_extended 99 h_sentinel_full PTR_TOMBSTONE
       = Some (True, PTR_TOMBSTONE, 7)"
    by (simp add: h_sentinel_full_def eval_defs list_eval)
  moreover have "mono_conc_g_hash_table_lookup_extended 99 h_sentinel_grown PTR_TOMBSTONE
       = Some (False, 0, 0)"
    by (simp add: h_sentinel_grown_def eval_defs list_eval)
  moreover have "table_size (table h_sentinel_full) = 32" "table_size (table h_sentinel_grown) = 64"
    by (simp_all add: h_sentinel_full_def h_sentinel_grown_def)
  ultimately show ?thesis using run_sentinel_full insert_sentinel_full by simp
qed

text \<open>
  C4, amended. Resizing preserves the membership of every key but the tombstone marker.
  Call a table in use when it is reached from a new table, built in a mode that does not
  track keys, by inserts and removes that return and do not pass the marker as a key.

  First, for a table in use of a capacity \<open>2 ^ n\<close> below \<open>2 ^ 30\<close>, \<^verbatim>\<open>expand_table\<close> returns a
  generation of capacity \<open>2 ^ (n + 1)\<close> whose live entries are exactly the live entries of
  the old one; lookup of a key that was not present reports not-found and, when the live
  keys are pairwise different, lookup of each live key returns the key with its value.

  Second, in every table in use, whatever the number of resizes behind it, lookup never
  reports found for a key that is neither the marker nor present and, when the live keys
  are pairwise different, lookup of each live key returns the key with its value.

  Third, inserting at most 805306368 entries with pairwise different keys, none null or
  the marker, and non-null values into a new table of any mode returns NULL every time.
  The threshold of the final capacity \<open>2 ^ m\<close> is at least the number of entries, so that
  50 entries have crossed two doublings; the live entries are exactly the inserted ones,
  each inserted key is found with its value, and a key that matches none of them is not
  found.

  Fourth, let inserts and removes that return, none with the marker as key, be applied
  to a new table built in a mode that does not track keys, no insert passing a key that
  is present at that moment, the table telling the keys of the calls apart. Then,
  across all the resizes on the way, the live entries of the final table are exactly
  the entries inserted and not removed since; each of their keys is found with its
  value, and lookup never reports found for a key that is not the marker and matches
  none of them.
\<close>

theorem resize_preserves_membership:
  "(usable eph h \<and> table_size (table h) < 2 ^ 30 \<longrightarrow>
      (\<exists>n h1. table_ok n (table h) \<and> expand_table eph h = Some (Inr h1)
           \<and> table_ok (Suc n) (table h1)
           \<and> mset (live_entries eph h1) = mset (live_entries eph h)
           \<and> (distinct_keys eph h \<longrightarrow>
                (\<forall>(ck, v)\<in>set (live_entries eph h).
                   mono_conc_g_hash_table_lookup_extended eph h1 ck = Some (True, ck, v)))
           \<and> (\<forall>k. \<not> present eph h k \<longrightarrow>
                 mono_conc_g_hash_table_lookup_extended eph h1 k = Some (False, 0, 0))))
   \<and> (usable eph h \<longrightarrow>
        (distinct_keys eph h \<longrightarrow>
           (\<forall>(ck, v)\<in>set (live_entries eph h).
              mono_conc_g_hash_table_lookup_extended eph h ck = Some (True, ck, v)))
      \<and> (\<forall>k ck v. \<not> key_is_tombstone eph h k \<and> \<not> present eph h k \<longrightarrow>
              mono_conc_g_hash_table_lookup_extended eph h k \<noteq> Some (True, ck, v)))
   \<and> (mono_conc_g_hash_table_new_type hf ef ty = Inr h0 \<and> fresh_entries eph h0 kvs
        \<and> length kvs \<le> 805306368 \<longrightarrow>
      (\<exists>h' m. run_ops eph h0 (insert_all kvs) = Some (replicate (length kvs) 0, h')
           \<and> capacity_ok m h' \<and> int (length kvs) \<le> load_threshold (2 ^ m)
           \<and> mset (live_entries eph h') = mset kvs
           \<and> (\<forall>(k, v)\<in>set kvs.
                 mono_conc_g_hash_table_lookup_extended eph h' k = Some (True, k, v))
           \<and> (\<forall>k. (\<forall>b\<in>fst ` set kvs. \<not> lookup_match eph h0 k b) \<longrightarrow>
                 mono_conc_g_hash_table_lookup_extended eph h' k = Some (False, 0, 0))))
   \<and> (mono_conc_g_hash_table_new_type hf ef ty = Inr h0 \<and> ty AND MONO_HASH_KEY_GC = 0
        \<and> list_all (\<lambda>x. op_key x \<noteq> PTR_TOMBSTONE) ops \<and> absent_inserts [] ops
        \<and> keys_told_apart h0 (map op_key ops) \<and> run_ops eph h0 ops = Some (rs, h2) \<longrightarrow>
        mset (live_entries eph h2) = mset (contents_after [] ops)
      \<and> (\<forall>(k, v)\<in>set (contents_after [] ops).
            mono_conc_g_hash_table_lookup_extended eph h2 k = Some (True, k, v))
      \<and> (\<forall>k ck v. k \<noteq> PTR_TOMBSTONE
              \<and> (\<forall>b\<in>fst ` set (contents_after [] ops). \<not> insert_match h0 k b) \<longrightarrow>
            mono_conc_g_hash_table_lookup_extended eph h2 k \<noteq> Some (True, ck, v)))"
proof -
  have a: "\<exists>n h1. table_ok n (table h) \<and> expand_table eph h = Some (Inr h1)
           \<and> table_ok (Suc n) (table h1)
           \<and> mset (live_entries eph h1) = mset (live_entries eph h)
           \<and> (distinct_keys eph h \<longrightarrow>
                (\<forall>(ck, v)\<in>set (live_entries eph h).
                   mono_conc_g_hash_table_lookup_extended eph h1 ck = Some (True, ck, v)))
           \<and> (\<forall>k. \<not> present eph h k \<longrightarrow>
                 mono_conc_g_hash_table_lookup_extended eph h1 k = Some (False, 0, 0))"
    if "usable eph h" "table_size (table h) < 2 ^ 30"
    using that by (rule usable_expand_membership)
  have b: "(distinct_keys eph h \<longrightarrow>
           (\<forall>(ck, v)\<in>set (live_entries eph h).
              mono_conc_g_hash_table_lookup_extended eph h ck = Some (True, ck, v)))
      \<and> (\<forall>k ck v. \<not> key_is_tombstone eph h k \<and> \<not> present eph h k \<longrightarrow>
              mono_conc_g_hash_table_lookup_extended eph h k \<noteq> Some (True, ck, v))"
    if use: "usable eph h"
    using usable_lookup_live [OF use] usable_lookup_absent [OF use] by blast
  have c: "\<exists>h' m. run_ops eph h0 (insert_all kvs) = Some (replicate (length kvs) 0, h')
           \<and> capacity_ok m h' \<and> int (length kvs) \<le> load_threshold (2 ^ m)
           \<and> mset (live_entries eph h') = mset kvs
           \<and> (\<forall>(k, v)\<in>set kvs.
                 mono_conc_g_hash_table_lookup_extended eph h' k = Some (True, k, v))
           \<and> (\<forall>k. (\<forall>b\<in>fst ` set kvs. \<not> lookup_match eph h0 k b) \<longrightarrow>
                 mono_conc_g_hash_table_lookup_extended eph h' k = Some (False, 0, 0))"
    if "mono_conc_g_hash_table_new_type hf ef ty = Inr h0" "fresh_entries eph h0 kvs"
      "length kvs \<le> 805306368"
    using inserted_keys_found [OF that] by blast
  have d: "mset (live_entries eph h2) = mset (contents_after [] ops)
      \<and> (\<forall>(k, v)\<in>set (contents_after [] ops).
            mono_conc_g_hash_table_lookup_extended eph h2 k = Some (True, k, v))
      \<and> (\<forall>k ck v. k \<noteq> PTR_TOMBSTONE
              \<and> (\<forall>b\<in>fst ` set (contents_after [] ops). \<not> insert_match h0 k b) \<longrightarrow>
            mono_conc_g_hash_table_lookup_extended eph h2 k \<noteq> Some (True, ck, v))"
    if "mono_conc_g_hash_table_new_type hf ef ty = Inr h0" "ty AND MONO_HASH_KEY_GC = 0"
      "list_all (\<lambda>x. op_key x \<noteq> PTR_TOMBSTONE) ops" "absent_inserts [] ops"
      "keys_told_apart h0 (map op_key ops)" "run_ops eph h0 ops = Some (rs, h2)"
    using that by (rule run_membership)
  from a b c d show ?thesis by blast
qed

theorem resize_preserves_membership_witness:
  "usable 99 h_full \<and> table_size (table h_full) < 2 ^ 30 \<and> distinct_keys 99 h_full
   \<and> expand_table 99 h_full = Some (Inr h_expanded)
   \<and> (17, 117) \<in> set (live_entries 99 h_full) \<and> \<not> present 99 h_full 30
   \<and> mset (live_entries 99 h_expanded) = mset (live_entries 99 h_full)
   \<and> mono_conc_g_hash_table_lookup_extended 99 h_expanded 17 = Some (True, 17, 117)
   \<and> mono_conc_g_hash_table_lookup_extended 99 h_expanded 30 = Some (False, 0, 0)
   \<and> usable 99 h_grown \<and> table_size (table h_grown) = 64 \<and> distinct_keys 99 h_grown
   \<and> (17, 117) \<in> set (live_entries 99 h_grown)
   \<and> \<not> key_is_tombstone 99 h_grown 30 \<and> \<not> present 99 h_grown 30
   \<and> mono_conc_g_hash_table_lookup_extended 99 h_grown 17 = Some (True, 17, 117)
   \<and> mono_conc_g_hash_table_lookup_extended 99 h_grown 30 \<noteq> Some (True, 30, 130)
   \<and> mono_conc_g_hash_table_new_type None None MONO_HASH_CONSERVATIVE_GC = Inr h_new
   \<and> fresh_entries 99 h_new fifty_entries \<and> length fifty_entries = 50
   \<and> (\<exists>h' m. run_ops 99 h_new (insert_all fifty_entries) = Some (replicate 50 0, h')
         \<and> capacity_ok m h' \<and> 7 \<le> m
         \<and> mono_conc_g_hash_table_lookup_extended 99 h' 17 = Some (True, 17, 117)
         \<and> mono_conc_g_hash_table_lookup_extended 99 h' 60 = Some (False, 0, 0))
   \<and> MONO_HASH_CONSERVATIVE_GC AND MONO_HASH_KEY_GC = 0
   \<and> list_all (\<lambda>x. op_key x \<noteq> PTR_TOMBSTONE) mixed_ops \<and> absent_inserts [] mixed_ops
   \<and> keys_told_apart h_new (map op_key mixed_ops)
   \<and> run_ops 99 h_new mixed_ops = Some (replicate 24 0 @ [105, 0, 0], h_mixed)
   \<and> table_size (table h_mixed) = 64
   \<and> (17, 117) \<in> set (contents_after [] mixed_ops)
   \<and> list_all (\<lambda>b. b \<noteq> 5) (map fst (contents_after [] mixed_ops))
   \<and> (5 :: gpointer) \<noteq> PTR_TOMBSTONE
   \<and> mono_conc_g_hash_table_lookup_extended 99 h_mixed 17 = Some (True, 17, 117)
   \<and> mono_conc_g_hash_table_lookup_extended 99 h_mixed 5 \<noteq> Some (True, 5, 105)"
proof -
  note inst = resize_preserves_membership [where h = h_full and eph = 99
      and hf = None and ef = None and ty = MONO_HASH_CONSERVATIVE_GC and ?h0.0 = h_new
      and kvs = fifty_entries and ops = mixed_ops and rs = "replicate 24 0 @ [105, 0, 0]"
      and ?h2.0 = h_mixed]
  have sz: "table_size (table h_full) < 2 ^ 30" by (simp add: h_full_def)
  \<comment> \<open>one resize\<close>
  from inst [THEN conjunct1, rule_format, OF conjI [OF usable_full sz]] obtain h1 where
    e1: "expand_table 99 h_full = Some (Inr h1)"
    and m1: "mset (live_entries 99 h1) = mset (live_entries 99 h_full)"
    and a1: "distinct_keys 99 h_full \<longrightarrow> (\<forall>(ck, v)\<in>set (live_entries 99 h_full).
        mono_conc_g_hash_table_lookup_extended 99 h1 ck = Some (True, ck, v))"
    and b1: "\<forall>k. \<not> present 99 h_full k \<longrightarrow>
        mono_conc_g_hash_table_lookup_extended 99 h1 k = Some (False, 0, 0)"
    by blast
  from e1 expand_full have h1: "h1 = h_expanded" by simp
  from m1 h1 have m: "mset (live_entries 99 h_expanded) = mset (live_entries 99 h_full)" by simp
  from a1 h_full_facts(5,9) h1 have l17: "mono_conc_g_hash_table_lookup_extended 99 h_expanded 17
      = Some (True, 17, 117)" by blast
  from b1 h_full_facts(8) h1 have l30: "mono_conc_g_hash_table_lookup_extended 99 h_expanded 30
      = Some (False, 0, 0)" by blast
  \<comment> \<open>a table in use, after a resize\<close>
  note grown = resize_preserves_membership [where h = h_grown and eph = 99,
      THEN conjunct2, THEN conjunct1, rule_format, OF usable_grown]
  from grown h_grown_facts(1,2) have g17: "mono_conc_g_hash_table_lookup_extended 99 h_grown 17
      = Some (True, 17, 117)" by blast
  from grown h_grown_facts(3,4)
  have g30: "mono_conc_g_hash_table_lookup_extended 99 h_grown 30 \<noteq> Some (True, 30, 130)"
    by blast
  \<comment> \<open>fifty inserts\<close>
  have len: "length fifty_entries \<le> 805306368" by (simp add: fifty_facts(1))
  from inst [THEN conjunct2, THEN conjunct2, THEN conjunct1, rule_format,
      OF conjI [OF new_is_h_new conjI [OF fifty_fresh len]]]
  obtain h' m where
    r: "run_ops 99 h_new (insert_all fifty_entries) = Some (replicate (length fifty_entries) 0, h')"
    and cap: "capacity_ok m h'" and thr: "int (length fifty_entries) \<le> load_threshold (2 ^ m)"
    and found: "\<forall>(k, v)\<in>set fifty_entries.
        mono_conc_g_hash_table_lookup_extended 99 h' k = Some (True, k, v)"
    and absent: "\<forall>k. (\<forall>b\<in>fst ` set fifty_entries. \<not> lookup_match 99 h_new k b) \<longrightarrow>
        mono_conc_g_hash_table_lookup_extended 99 h' k = Some (False, 0, 0)"
    by blast
  from thr have m7: "7 \<le> m" by (intro threshold_capacity) (simp add: fifty_facts(1))
  from found fifty_facts(2) have f17: "mono_conc_g_hash_table_lookup_extended 99 h' 17
      = Some (True, 17, 117)" by blast
  have ef: "equal_func h_new = None" by (simp add: h_new_def)
  from fifty_facts(3) have "\<forall>b\<in>fst ` set fifty_entries. \<not> lookup_match 99 h_new 60 b"
    by (auto simp: lookup_match_identity [OF ef] list_all_iff)
  with absent have f60: "mono_conc_g_hash_table_lookup_extended 99 h' 60 = Some (False, 0, 0)"
    by blast
  from r cap m7 f17 f60 have fifty: "\<exists>h' m. run_ops 99 h_new (insert_all fifty_entries)
         = Some (replicate 50 0, h')
       \<and> capacity_ok m h' \<and> 7 \<le> m
       \<and> mono_conc_g_hash_table_lookup_extended 99 h' 17 = Some (True, 17, 117)
       \<and> mono_conc_g_hash_table_lookup_extended 99 h' 60 = Some (False, 0, 0)"
    by (auto simp: fifty_facts(1))
  \<comment> \<open>inserts and a remove\<close>
  from inst [THEN conjunct2, THEN conjunct2, THEN conjunct2, rule_format,
      OF conjI [OF new_is_h_new conjI [OF mixed_facts(6) conjI [OF mixed_facts(1)
        conjI [OF mixed_facts(2) conjI [OF mixed_facts(3) run_mixed]]]]]]
  have mf: "\<forall>(k, v)\<in>set (contents_after [] mixed_ops).
        mono_conc_g_hash_table_lookup_extended 99 h_mixed k = Some (True, k, v)"
    and mo: "\<forall>k ck v. k \<noteq> PTR_TOMBSTONE
          \<and> (\<forall>b\<in>fst ` set (contents_after [] mixed_ops). \<not> insert_match h_new k b) \<longrightarrow>
        mono_conc_g_hash_table_lookup_extended 99 h_mixed k \<noteq> Some (True, ck, v)"
    by blast+
  from mf mixed_facts(4) have m17: "mono_conc_g_hash_table_lookup_extended 99 h_mixed 17
      = Some (True, 17, 117)" by blast
  from mixed_facts(5) have "\<forall>b\<in>fst ` set (contents_after [] mixed_ops). \<not> insert_match h_new 5 b"
    by (auto simp: insert_match_identity [OF ef] list_all_iff)
  with mo mixed_facts(7) have m5: "mono_conc_g_hash_table_lookup_extended 99 h_mixed 5
      \<noteq> Some (True, 5, 105)" by blast
  from fifty usable_full sz h_full_facts(5,8,9) expand_full m l17 l30 new_is_h_new fifty_fresh
    fifty_facts(1) usable_grown h_grown_facts g17 g30 mixed_facts run_mixed m17 m5
  show ?thesis by blast
qed

text \<open>
  C5. When \<open>k\<close> is already present with value \<open>v0\<close>, insert returns \<open>v0\<close> and leaves the
  table as it is.

  It does not when a tombstone lies on the probe path before the slot of \<open>k\<close>: keys 7 and
  17 share home slot 23, so after \<^verbatim>\<open>insert(7, 100); insert(17, 101); remove(7)\<close> key 17
  sits in slot 24 behind a tombstone. \<^verbatim>\<open>insert(17, 102)\<close> then takes the tombstone's slot,
  returns NULL instead of 101, and leaves key 17 stored twice with a count of 2.
\<close>

theorem insert_past_tombstone_duplicates_key:
  "run_new 99 None None MONO_HASH_CONSERVATIVE_GC
     [Insert 7 100, Insert 17 101, Remove 7, Insert 17 102] = Some ([0, 0, 100, 0], h_duplicate)
   \<and> keys (table h_duplicate) ! 23 = 17 \<and> vals (table h_duplicate) ! 23 = 102
   \<and> keys (table h_duplicate) ! 24 = 17 \<and> vals (table h_duplicate) ! 24 = 101
   \<and> element_count h_duplicate = 2"
proof -
  have "keys (table h_duplicate) ! 23 = 17 \<and> vals (table h_duplicate) ! 23 = 102
   \<and> keys (table h_duplicate) ! 24 = 17 \<and> vals (table h_duplicate) ! 24 = 101
   \<and> element_count h_duplicate = 2"
    by (simp add: h_duplicate_def)
  with run_duplicate show ?thesis by simp
qed

text \<open>
  C6. A value cell is null exactly when the slot is empty or a tombstone: this holds in a
  new generation and after every completed operation.

  Counterexample: \<^verbatim>\<open>insert(PTR_TOMBSTONE, 7)\<close> on a new table writes the tombstone marker
  into slot 28 as a key, with the non-null value 7 beside it.
\<close>

theorem insert_sentinel_breaks_slot_inv:
  "run_new 99 None None MONO_HASH_CONSERVATIVE_GC [Insert PTR_TOMBSTONE 7] = Some ([0], h_sentinel)
   \<and> keys (table h_sentinel) ! 28 = PTR_TOMBSTONE \<and> vals (table h_sentinel) ! 28 = 7
   \<and> \<not> slot_inv 99 h_sentinel"
proof -
  have "gc_type h_sentinel = 0" by (simp add: h_sentinel_def)
  then have "\<not> slot_inv 99 h_sentinel"
    by (simp add: slot_inv_def slot_free_untracked) (simp add: h_sentinel_def)
  moreover have "keys (table h_sentinel) ! 28 = PTR_TOMBSTONE \<and> vals (table h_sentinel) ! 28 = 7"
    by (simp add: h_sentinel_def PTR_TOMBSTONE_def)
  ultimately show ?thesis using run_sentinel by simp
qed

text \<open>
  C6, amended. The slot invariant holds in the generation of a new table, and in every
  table reached from a new table, built in a mode that does not track keys, by inserts
  and removes that return and do not pass the tombstone marker as a key. Step by step, on
  a table of capacity \<open>2 ^ n\<close> it is preserved by every insert that returns, resizing or
  not, whose key is not the marker, by \<^verbatim>\<open>expand_table\<close>, and by every remove that returns
  when the handle and its generation agree on whether keys are tracked; that agreement
  is kept by insert and remove and holds after every resize.
\<close>

theorem slot_invariant_preserved:
  "(mono_conc_g_hash_table_new_type hf ef ty = Inr h0 \<longrightarrow> slot_inv eph h0)
   \<and> (usable eph h \<longrightarrow> slot_inv eph h)
   \<and> (table_ok n (table h) \<and> slot_inv eph h \<longrightarrow>
        (\<not> key_is_tombstone eph h k
           \<and> mono_conc_g_hash_table_insert eph h k v = Some (Inr (r, h'))
         \<longrightarrow> slot_inv eph h' \<and> (modes_agree h \<longrightarrow> modes_agree h'))
      \<and> (modes_agree h \<and> mono_conc_g_hash_table_remove eph h k = Some (Inr (r, h'))
         \<longrightarrow> slot_inv eph h' \<and> modes_agree h')
      \<and> (expand_table eph h = Some (Inr h') \<longrightarrow> slot_inv eph h' \<and> modes_agree h'))"
proof -
  have "slot_inv eph h" if "usable eph h"
    using usable_handle_inv [OF that] by (auto simp: handle_inv_def)
  with slot_inv_new_type [of hf ef ty h0 eph] insert_slot_inv [of n h eph k v r h']
    remove_slot_inv [of eph h k r h'] expand_table_slot_inv [of n h eph h']
  show ?thesis by blast
qed

theorem slot_invariant_preserved_witness:
  "mono_conc_g_hash_table_new_type None None MONO_HASH_CONSERVATIVE_GC = Inr h_new
   \<and> slot_inv 99 h_new
   \<and> usable 99 h_full
   \<and> table_ok 5 (table h_full) \<and> slot_inv 99 h_full \<and> \<not> key_is_tombstone 99 h_full 25
   \<and> mono_conc_g_hash_table_insert 99 h_full 25 125 = Some (Inr (0, h_grown))
   \<and> slot_inv 99 h_grown
   \<and> expand_table 99 h_full = Some (Inr h_expanded)
   \<and> slot_inv 99 h_expanded \<and> modes_agree h_expanded
   \<and> table_ok 5 (table h_one) \<and> slot_inv 99 h_one \<and> modes_agree h_one
   \<and> mono_conc_g_hash_table_remove 99 h_one 1 = Some (Inr (7, h_id_removed))
   \<and> slot_inv 99 h_id_removed \<and> modes_agree h_id_removed"
proof -
  have kt: "\<not> key_is_tombstone 99 h_full 25"
    by (simp add: key_is_tombstone_untracked [OF h_full_facts(2)])
  from slot_invariant_preserved [of None None MONO_HASH_CONSERVATIVE_GC h_new 99 h_full 5 25 125 0 h_grown]
    new_is_h_new h_full_facts(1) usable_full kt insert_full
  have a: "slot_inv 99 h_new" "slot_inv 99 h_full" "slot_inv 99 h_grown" by blast+
  from slot_invariant_preserved [of None None MONO_HASH_CONSERVATIVE_GC h_new 99 h_full 5 25 125 0 h_expanded]
    h_full_facts(1) usable_full expand_full
  have b: "slot_inv 99 h_expanded" "modes_agree h_expanded" by blast+
  from slot_invariant_preserved [of None None MONO_HASH_CONSERVATIVE_GC h_new 99 h_one 5 1 125 7 h_id_removed]
    h_one_facts remove_one
  have c: "slot_inv 99 h_id_removed" "modes_agree h_id_removed" by blast+
  from a b c new_is_h_new h_full_facts(1) usable_full kt insert_full expand_full h_one_facts remove_one
  show ?thesis by blast
qed

text \<open>
  C7. The mixing function is \<open>((h * 215497) >> 16) XOR (h * 1823231 + h)\<close> in wrapping 32-bit
  arithmetic; in a generation of capacity \<open>C = 2 ^ n\<close> the home slot of a mixed hash \<open>x\<close>
  is \<open>x & (C - 1)\<close>, that is \<open>x mod C\<close>, and a collision moves to \<open>(i + 1) & (C - 1)\<close>, that is
  \<open>(i + 1) mod C\<close>. Lookup, remove, insert and the rehash of a resize all start at the home
  slot of the mixed hash of the key and all step in this way:

  \<^item> when the first slot of the sequence home, home + 1, ... (mod \<open>C\<close>) that is empty or
    holds a matching key comes after \<open>d < C\<close> steps, lookup returns what that slot holds
    (no matching slot having a null value) and remove returns that slot's value and
    leaves the tombstone in that slot;
  \<^item> insert, after the resize when the count has reached the threshold, looks at the
    generation then current: when the first slot of the sequence that is free or holds a
    matching key comes after \<open>c\<close> steps, it stores the pair in that slot or returns the
    value found there;
  \<^item> \<^verbatim>\<open>insert_one_local\<close> stores its pair in the first empty slot of the sequence, and
    \<^verbatim>\<open>expand_table\<close> leaves every key of the new generation in its home slot or after a
    run of occupied slots that starts there.
\<close>

theorem addressing_scheme:
  "sint (mix_hash w) = mix_spec (sint w)
   \<and> slot_index x (2 ^ n) = nat (sint x mod 2 ^ n)
   \<and> slot_index x (2 ^ n) < 2 ^ n
   \<and> next_slot i (2 ^ n) = (i + 1) mod 2 ^ n
   \<and> (table_ok n (table h) \<and> d < 2 ^ n
        \<and> list_all (\<lambda>j. \<not> lookup_stop eph h k j) (probe_path n (home_slot (hash_func h) n k) d)
        \<and> lookup_stop eph h k ((home_slot (hash_func h) n k + d) mod 2 ^ n)
      \<longrightarrow> (match_has_value eph h k \<longrightarrow>
             mono_conc_g_hash_table_lookup_extended eph h k
               = Some (let s = (home_slot (hash_func h) n k + d) mod 2 ^ n in
                       if keys (table h) ! s = 0 then (False, 0, 0)
                       else (True, keys (table h) ! s, vals (table h) ! s)))
          \<and> (k \<noteq> 0 \<longrightarrow>
             mono_conc_g_hash_table_remove eph h k
               = Some (Inr (let s = (home_slot (hash_func h) n k + d) mod 2 ^ n in
                            if keys (table h) ! s = 0 then (0, h)
                            else (vals (table h) ! s, remove_at eph h s)))))
   \<and> (k \<noteq> 0 \<and> v \<noteq> 0
        \<and> (if overflow_count h \<le> element_count h then expand_table eph h = Some (Inr g)
            else g = h)
        \<and> table_ok m (table g) \<and> c < 2 ^ m
        \<and> list_all (\<lambda>j. \<not> insert_stop eph g k j) (probe_path m (home_slot (hash_func h) m k) c)
        \<and> insert_stop eph g k ((home_slot (hash_func h) m k + c) mod 2 ^ m)
      \<longrightarrow> mono_conc_g_hash_table_insert eph h k v
             = Some (Inr (let s = (home_slot (hash_func h) m k + c) mod 2 ^ m in
                          if slot_free eph g (keys (table g) ! s) then (0, insert_at g s k v)
                          else (vals (table g) ! s, g))))
   \<and> (table_ok n t \<and> d < 2 ^ n
        \<and> list_all (\<lambda>j. keys t ! j \<noteq> 0) (probe_path n (home_slot hf n k) d)
        \<and> keys t ! ((home_slot hf n k + d) mod 2 ^ n) = 0
      \<longrightarrow> insert_one_local t hf k v
             = Some (let s = (home_slot hf n k + d) mod 2 ^ n in set_value (set_key t s k) s v))
   \<and> (table_ok n (table h) \<and> n < 30
      \<longrightarrow> (\<exists>h1. expand_table eph h = Some (Inr h1) \<and> table_ok (Suc n) (table h1)
                \<and> chain_ok (Suc n) (hash_func h) (table h1)
                \<and> mset (filled (table h1)) = mset (live_entries eph h)))"
proof -
  have mix: "sint (mix_hash w) = mix_spec (sint w)"
    by (simp only: sint_mix_hash mix_spec_def)
  have grow: "\<exists>h1. expand_table eph h = Some (Inr h1) \<and> table_ok (Suc n) (table h1)
                \<and> chain_ok (Suc n) (hash_func h) (table h1)
                \<and> mset (filled (table h1)) = mset (live_entries eph h)"
    if "table_ok n (table h)" "n < 30"
    using expand_table_handle [OF that, of eph] by metis
  from mix slot_index_pow2 [of x n] slot_index_lt [of x n] next_slot_pow2 [of i n]
    lookup_first_stop [of n h d eph k] remove_first_stop [of n h d eph k]
    insert_first_stop [of k v h eph g m c] insert_one_local_first_empty [of n t d hf k v]
    grow
  show ?thesis by blast
qed

theorem addressing_scheme_witness:
  "sint (mix_hash 7) = mix_spec 7
   \<and> slot_index (mix_hash 7) (2 ^ 5) = 23
   \<and> next_slot 31 (2 ^ 5) = 0
   \<and> table_ok 5 (table h_full) \<and> (1 :: nat) < 2 ^ 5
   \<and> home_slot (hash_func h_full) 5 17 = 23 \<and> probe_path 5 23 1 = [23]
   \<and> \<not> lookup_stop 99 h_full 17 23 \<and> lookup_stop 99 h_full 17 24
   \<and> match_has_value 99 h_full 17 \<and> (17 :: gpointer) \<noteq> 0
   \<and> mono_conc_g_hash_table_lookup_extended 99 h_full 17 = Some (True, 17, 117)
   \<and> mono_conc_g_hash_table_remove 99 h_full 17 = Some (Inr (117, remove_at 99 h_full 24))
   \<and> (40 :: gpointer) \<noteq> 0 \<and> (140 :: gpointer) \<noteq> 0
   \<and> \<not> overflow_count h_one \<le> element_count h_one
   \<and> table_ok 5 (table h_one)
   \<and> home_slot (hash_func h_one) 5 40 = 3 \<and> probe_path 5 3 1 = [3]
   \<and> \<not> insert_stop 99 h_one 40 3 \<and> insert_stop 99 h_one 40 4
   \<and> mono_conc_g_hash_table_insert 99 h_one 40 140 = Some (Inr (0, insert_at h_one 4 40 140))
   \<and> keys (table h_one) ! 3 \<noteq> 0 \<and> keys (table h_one) ! 4 = 0
   \<and> insert_one_local (table h_one) g_direct_hash 40 140
        = Some (set_value (set_key (table h_one) 4 40) 4 140)
   \<and> (25 :: gpointer) \<noteq> 0 \<and> (125 :: gpointer) \<noteq> 0
   \<and> overflow_count h_full \<le> element_count h_full
   \<and> expand_table 99 h_full = Some (Inr h_expanded)
   \<and> table_ok 6 (table h_expanded) \<and> (0 :: nat) < 2 ^ 6
   \<and> home_slot (hash_func h_full) 6 25 = 18 \<and> probe_path 6 18 0 = []
   \<and> insert_stop 99 h_expanded 25 18
   \<and> mono_conc_g_hash_table_insert 99 h_full 25 125
        = Some (Inr (0, insert_at h_expanded 18 25 125))
   \<and> (5 :: nat) < 30
   \<and> chain_ok 6 (hash_func h_full) (table h_expanded)
   \<and> mset (filled (table h_expanded)) = mset (live_entries 99 h_full)"
proof -
  have s: "nat (sint (mix_hash 7) mod 2 ^ 5) = 23" by (simp add: mix_hash_def)
  have nz: "(17 :: gpointer) \<noteq> 0" "(40 :: gpointer) \<noteq> 0" "(140 :: gpointer) \<noteq> 0"
    "(25 :: gpointer) \<noteq> 0" "(125 :: gpointer) \<noteq> 0" by simp_all
  have lt: "(1 :: nat) < 2 ^ 5" "(0 :: nat) < 2 ^ 6" "(5 :: nat) < 30" by simp_all
  note full = addressing_scheme [where w = 7 and x = "mix_hash 7" and n = 5 and i = 31
      and h = h_full and d = 1 and eph = 99 and k = 17]
  from full have a1: "sint (mix_hash 7) = mix_spec (sint (7 :: 32 word))"
    and a2: "slot_index (mix_hash 7) (2 ^ 5) = nat (sint (mix_hash 7) mod 2 ^ 5)"
    and a3: "next_slot 31 (2 ^ 5) = (31 + 1) mod 2 ^ 5"
    by blast+
  have a0: "sint (mix_hash 7) = mix_spec 7" using a1 by simp
  have "slot_index (mix_hash 7) (2 ^ 5) = 23 \<and> next_slot 31 (2 ^ 5) = 0"
    by (simp only: a2 a3 s) simp
  with a0 have a: "sint (mix_hash 7) = mix_spec 7 \<and> slot_index (mix_hash 7) (2 ^ 5) = 23
      \<and> next_slot 31 (2 ^ 5) = 0" by blast
  have p17: "list_all (\<lambda>j. \<not> lookup_stop 99 h_full 17 j)
      (probe_path 5 (home_slot (hash_func h_full) 5 17) 1)"
    and s17: "lookup_stop 99 h_full 17 ((home_slot (hash_func h_full) 5 17 + 1) mod 2 ^ 5)"
    using h_full_probe(3,4) by (simp_all add: h_full_probe(1) probe_path_def)
  from full h_full_facts(1,7) lt(1) p17 s17 nz(1)
  have "mono_conc_g_hash_table_lookup_extended 99 h_full 17
      = Some (let s = (home_slot (hash_func h_full) 5 17 + 1) mod 2 ^ 5 in
              if keys (table h_full) ! s = 0 then (False, 0, 0)
              else (True, keys (table h_full) ! s, vals (table h_full) ! s))"
    and "mono_conc_g_hash_table_remove 99 h_full 17
      = Some (Inr (let s = (home_slot (hash_func h_full) 5 17 + 1) mod 2 ^ 5 in
                   if keys (table h_full) ! s = 0 then (0, h_full)
                   else (vals (table h_full) ! s, remove_at 99 h_full s)))"
    by blast+
  then have b: "mono_conc_g_hash_table_lookup_extended 99 h_full 17 = Some (True, 17, 117)
      \<and> mono_conc_g_hash_table_remove 99 h_full 17 = Some (Inr (117, remove_at 99 h_full 24))"
    by (simp add: h_full_probe(1,5,6))
  note one = addressing_scheme [where n = 5 and h = h_one and eph = 99 and k = 40 and v = 140
      and g = h_one and m = 5 and c = 1 and t = "table h_one" and hf = g_direct_hash and d = 1]
  have g1: "if overflow_count h_one \<le> element_count h_one
      then expand_table 99 h_one = Some (Inr h_one) else h_one = h_one"
    using h_one_probe(6) by simp
  have p40: "list_all (\<lambda>j. \<not> insert_stop 99 h_one 40 j)
      (probe_path 5 (home_slot (hash_func h_one) 5 40) 1)"
    and s40: "insert_stop 99 h_one 40 ((home_slot (hash_func h_one) 5 40 + 1) mod 2 ^ 5)"
    using h_one_probe(3,4) by (simp_all add: h_one_probe(1) probe_path_def)
  from one nz(2,3) g1 h_one_facts(1) lt(1) p40 s40
  have "mono_conc_g_hash_table_insert 99 h_one 40 140
      = Some (Inr (let s = (home_slot (hash_func h_one) 5 40 + 1) mod 2 ^ 5 in
                   if slot_free 99 h_one (keys (table h_one) ! s) then (0, insert_at h_one s 40 140)
                   else (vals (table h_one) ! s, h_one)))"
    by blast
  then have c: "mono_conc_g_hash_table_insert 99 h_one 40 140
      = Some (Inr (0, insert_at h_one 4 40 140))"
    using h_one_probe(5) by (simp add: h_one_probe(1))
  have q40: "list_all (\<lambda>j. keys (table h_one) ! j \<noteq> 0) (probe_path 5 (home_slot g_direct_hash 5 40) 1)"
    and e40: "keys (table h_one) ! ((home_slot g_direct_hash 5 40 + 1) mod 2 ^ 5) = 0"
    using h_one_probe(7,8) h_one_probe(1)
    by (simp_all add: h_one_probe(9) probe_path_def)
  from one h_one_facts(1) lt(1) q40 e40
  have "insert_one_local (table h_one) g_direct_hash 40 140
      = Some (let s = (home_slot g_direct_hash 5 40 + 1) mod 2 ^ 5 in
              set_value (set_key (table h_one) s 40) s 140)"
    by blast
  then have d: "insert_one_local (table h_one) g_direct_hash 40 140
      = Some (set_value (set_key (table h_one) 4 40) 4 140)"
    using h_one_probe(1) by (simp add: h_one_probe(9))
  note grown = addressing_scheme [where n = 5 and h = h_full and eph = 99 and k = 25
      and v = 125 and g = h_expanded and m = 6 and c = 0]
  have g2: "if overflow_count h_full \<le> element_count h_full
      then expand_table 99 h_full = Some (Inr h_expanded) else h_expanded = h_full"
    using h_full_probe(9) expand_full by simp
  have p25: "list_all (\<lambda>j. \<not> insert_stop 99 h_expanded 25 j)
      (probe_path 6 (home_slot (hash_func h_full) 6 25) 0)"
    and s25: "insert_stop 99 h_expanded 25 ((home_slot (hash_func h_full) 6 25 + 0) mod 2 ^ 6)"
    using h_expanded_probe(2) by (simp_all add: h_full_probe(7) probe_path_def)
  from grown nz(4,5) g2 h_expanded_probe(1) lt(2) p25 s25
  have "mono_conc_g_hash_table_insert 99 h_full 25 125
      = Some (Inr (let s = (home_slot (hash_func h_full) 6 25 + 0) mod 2 ^ 6 in
                   if slot_free 99 h_expanded (keys (table h_expanded) ! s)
                   then (0, insert_at h_expanded s 25 125)
                   else (vals (table h_expanded) ! s, h_expanded)))"
    by blast
  then have e: "mono_conc_g_hash_table_insert 99 h_full 25 125
      = Some (Inr (0, insert_at h_expanded 18 25 125))"
    using h_expanded_probe(3) by (simp add: h_full_probe(7))
  from grown h_full_facts(1) lt(3) expand_full
  have f: "chain_ok 6 (hash_func h_full) (table h_expanded)
      \<and> mset (filled (table h_expanded)) = mset (live_entries 99 h_full)"
    by auto
  from a b c d e f nz lt h_full_facts(1,7) h_full_probe h_one_probe h_one_facts(1)
    h_expanded_probe(1,2) expand_full
  show ?thesis by blast
qed

text \<open>
  C8. The capacity invariant holds in every reachable state: a new table has capacity 32
  (\<open>n = 5\<close>) and threshold 24; an insert that finds the element count at or above the
  threshold leaves the capacity doubled once (\<open>Suc n\<close>), a power of two again, with the
  threshold three quarters of the new capacity; an insert below the threshold and a
  remove leave the capacity and the threshold as they were. Lookup returns no handle
  and so changes nothing.
\<close>

theorem capacity_invariant:
  assumes "reachable eph h"
  shows "\<exists>n. capacity_ok n h
    \<and> (\<forall>hf ef ty h0. mono_conc_g_hash_table_new_type hf ef ty = Inr h0 \<longrightarrow> capacity_ok 5 h0)
    \<and> (\<forall>k v r h'. mono_conc_g_hash_table_insert eph h k v = Some (Inr (r, h')) \<longrightarrow>
          capacity_ok (if overflow_count h \<le> element_count h then Suc n else n) h')
    \<and> (\<forall>k r h'. mono_conc_g_hash_table_remove eph h k = Some (Inr (r, h')) \<longrightarrow> capacity_ok n h')"
proof -
  from reachable_capacity [OF assms] obtain n where n: "capacity_ok n h" ..
  show ?thesis
    using n new_type_capacity insert_capacity [OF n] remove_capacity [OF n] by blast
qed

theorem capacity_invariant_witness:
  "reachable 99 h_full \<and> overflow_count h_full \<le> element_count h_full
   \<and> mono_conc_g_hash_table_insert 99 h_full 25 125 = Some (Inr (0, h_grown))
   \<and> capacity_ok 5 h_full \<and> capacity_ok 6 h_grown"
proof -
  from capacity_invariant [OF reachable_full] obtain n where
    n: "capacity_ok n h_full"
    and ins: "\<And>k v r h'. mono_conc_g_hash_table_insert 99 h_full k v = Some (Inr (r, h')) \<Longrightarrow>
          capacity_ok (if overflow_count h_full \<le> element_count h_full then Suc n else n) h'"
    by blast
  have c: "overflow_count h_full \<le> element_count h_full" by (simp add: h_full_def)
  have "table_size (table h_full) = 2 ^ 5" by (simp add: h_full_def)
  with capacity_ok_size [OF n] have "(2::int) ^ n = 2 ^ 5" by simp
  moreover have "((2::int) ^ n = 2 ^ 5) = (n = 5)" by (rule power_inject_exp) simp
  ultimately have "n = 5" by blast
  with n ins [OF insert_full] c show ?thesis
    using reachable_full insert_full by simp
qed

text \<open>
  C9. Usage violations are raised exactly when they occur: insert reports one if and
  only if the key or the value is null, remove aborts if and only if the key is null,
  and the constructor if and only if the mode is above \<^verbatim>\<open>MONO_HASH_KEY_VALUE_GC\<close>. Below
  the largest capacity an insert with non-null arguments reports no error at all, and a
  probe that meets an empty home slot returns not-found as a normal result.
\<close>

theorem usage_violations:
  "(mono_conc_g_hash_table_insert eph h k v = Some (Inl UsageViolation)) = (k = 0 \<or> v = 0)
   \<and> (k \<noteq> 0 \<and> v \<noteq> 0 \<and> table_size (table h) = 2 ^ n \<and> n < 30
        \<longrightarrow> mono_conc_g_hash_table_insert eph h k v \<noteq> Some (Inl e))
   \<and> (mono_conc_g_hash_table_remove eph h k = Some (Inl e)) = (k = 0 \<and> e = UsageViolation)
   \<and> (mono_conc_g_hash_table_new_type hf ef ty = Inl e)
        = (MONO_HASH_KEY_VALUE_GC < ty \<and> e = UsageViolation)
   \<and> (keys (table h) ! slot_index (mix_hash (hash_func h k)) (table_size (table h)) = 0
        \<longrightarrow> mono_conc_g_hash_table_lookup_extended eph h k = Some (False, 0, 0)
          \<and> (k \<noteq> 0 \<longrightarrow> mono_conc_g_hash_table_remove eph h k = Some (Inr (0, h))))"
  using insert_usage [of eph h k v] insert_no_error [of k v h n eph e] remove_usage [of eph h k e]
    new_type_usage [of hf ef ty e] lookup_empty_home [of h k eph] remove_empty_home [of h k eph]
  by blast

theorem usage_violations_witness:
  "mono_conc_g_hash_table_insert 99 h_full 0 5 = Some (Inl UsageViolation)
   \<and> mono_conc_g_hash_table_insert 99 h_full 5 0 = Some (Inl UsageViolation)
   \<and> mono_conc_g_hash_table_insert 99 h_full 25 125 \<noteq> Some (Inl AllocationFailure)
   \<and> mono_conc_g_hash_table_remove 99 h_full 0 = Some (Inl UsageViolation)
   \<and> mono_conc_g_hash_table_new_type None None 4 = Inl UsageViolation
   \<and> mono_conc_g_hash_table_lookup_extended 99 h_full 30 = Some (False, 0, 0)
   \<and> mono_conc_g_hash_table_remove 99 h_full 30 = Some (Inr (0, h_full))"
proof -
  have ts: "table_size (table h_full) = 2 ^ 5" by (simp add: h_full_def)
  have home: "keys (table h_full) ! slot_index (mix_hash (hash_func h_full 30)) (table_size (table h_full)) = 0"
    by (simp add: h_full_def g_direct_hash_def mix_hash_def slot_index_def)
  have ty: "MONO_HASH_KEY_VALUE_GC < (4 :: 32 word)" by (simp add: MONO_HASH_KEY_VALUE_GC_def)
  show ?thesis
    using usage_violations [of 99 h_full 0 5 5 UsageViolation None None 4]
      usage_violations [of 99 h_full 5 0 5 UsageViolation None None 4]
      usage_violations [of 99 h_full 25 125 5 AllocationFailure None None 4]
      usage_violations [of 99 h_full 30 125 5 UsageViolation None None 4]
      ts home ty
    by simp
qed



end
